(* ===== verification/Prelude.thy ===== *)
theory Prelude
  imports Main "HOL-Library.Word"
begin

text \<open>
  Shared vocabulary of the remote-au development: the Rust integer types as words, the
  saturating and clamping operations of the Rust standard library, big- and little-endian
  byte conversions (\<open>to_be_bytes\<close>, \<open>from_be_bytes\<close>, \<open>to_le_bytes\<close>, \<open>from_le_bytes\<close>),
  slices of byte vectors, and the list lemmas that several components use.

  Conventions of the whole development. Bytes are \<open>8 word\<close>. Integers that travel on the wire
  keep their width as words. \<open>usize\<close> lengths and the integers whose code only compares,
  saturates or subtracts under a guard are \<open>nat\<close>, with the saturation bound written out
  (\<open>u32_max\<close>, \<open>u64_max\<close>). \<open>usize\<close> is 64 bits wide. Arithmetic that Rust leaves unchecked
  wraps, as in the release profile of \<open>Cargo.toml\<close>.
\<close>

type_synonym byte = "8 word"
type_synonym u16 = "16 word"
type_synonym u32 = "32 word"
type_synonym u64 = "64 word"

named_theorems wire_simps \<open>lengths and inverses of the byte-level encoders\<close>
named_theorems sat_simps \<open>definitions of the saturating operations\<close>

section \<open>Saturating and clamping arithmetic\<close>

definition u8_max :: nat where "u8_max = 255"
definition u16_max :: nat where "u16_max = 65535"
definition u32_max :: nat where "u32_max = 4294967295"
definition u64_max :: nat where "u64_max = 18446744073709551615"

definition sat_add :: "nat \<Rightarrow> nat \<Rightarrow> nat \<Rightarrow> nat" where
  "sat_add m a b = min m (a + b)"

definition clamp :: "'a::linorder \<Rightarrow> 'a \<Rightarrow> 'a \<Rightarrow> 'a" where
  "clamp lo hi x = (if x < lo then lo else if hi < x then hi else x)"

definition sat_inc :: "'a::len word \<Rightarrow> 'a word" where
  "sat_inc w = (if w = - 1 then w else w + 1)"

lemmas sat_defs [sat_simps] = sat_add_def clamp_def u8_max_def u16_max_def u32_max_def u64_max_def

lemma clamp_bounds:
  assumes "lo \<le> hi"
  shows "lo \<le> clamp lo hi x" and "clamp lo hi x \<le> hi"
  using assms by (auto simp: clamp_def)

lemma clamp_id [simp]: "lo \<le> x \<Longrightarrow> x \<le> hi \<Longrightarrow> clamp lo hi x = x"
  by (auto simp: clamp_def)

lemma sat_add_le [simp]: "sat_add m a b \<le> m"
  by (simp add: sat_add_def)

lemma sat_add_mono: "a \<le> m \<Longrightarrow> a \<le> sat_add m a b"
  by (simp add: sat_add_def)

lemma unat_lt: "unat w < 2 ^ LENGTH('a)" for w :: "'a::len word"
  by (rule unsigned_less)

lemma byte_lt: "unat b < 256" for b :: byte
  using unat_lt[of b] by simp

lemma unat_sat_inc: "unat (sat_inc w) = min (unat w + 1) (2 ^ LENGTH('a) - 1)"
  for w :: "'a::len word"
proof (cases "w = - 1")
  case True
  then show ?thesis by (simp add: sat_inc_def unsigned_minus_1_eq_mask mask_eq_exp_minus_1)
next
  case False
  have lt: "unat w < 2 ^ LENGTH('a)" by (rule unat_lt)
  have "unat w \<noteq> 2 ^ LENGTH('a) - 1"
  proof
    assume "unat w = 2 ^ LENGTH('a) - 1"
    then have "unat w = unat (- 1 :: 'a word)"
      by (simp add: unsigned_minus_1_eq_mask mask_eq_exp_minus_1)
    with False show False by (simp add: word_unat_eq_iff)
  qed
  with lt have "unat w + 1 < 2 ^ LENGTH('a)" by linarith
  then have "unat (w + 1) = unat w + 1"
    by (simp add: unat_word_ariths)
  with False \<open>unat w + 1 < 2 ^ LENGTH('a)\<close> show ?thesis
    by (simp add: sat_inc_def)
qed

section \<open>Bytes of an integer\<close>

text \<open>\<open>n.to_be_bytes()\<close> for a \<open>k\<close>-byte integer, and \<open>from_be_bytes\<close>.\<close>

fun be_bytes :: "nat \<Rightarrow> nat \<Rightarrow> byte list" where
  "be_bytes 0 n = []"
| "be_bytes (Suc k) n = of_nat (n div 256 ^ k) # be_bytes k n"

definition from_be :: "byte list \<Rightarrow> nat" where
  "from_be bs = foldl (\<lambda>acc b. acc * 256 + unat b) 0 bs"

lemma length_be_bytes [simp, wire_simps]: "length (be_bytes k n) = k"
  by (induction k) auto

lemma foldl_be: "foldl (\<lambda>acc b. acc * 256 + unat b) a bs = a * 256 ^ length bs + from_be bs"
  for bs :: "byte list"
proof (induction bs arbitrary: a)
  case Nil
  then show ?case by (simp add: from_be_def)
next
  case (Cons b bs)
  show ?case
    using Cons.IH[of "a * 256 + unat b"] Cons.IH[of "unat b"]
    by (simp add: from_be_def algebra_simps)
qed

lemma from_be_Nil [simp]: "from_be [] = 0"
  by (simp add: from_be_def)

lemma from_be_Cons: "from_be (b # bs) = unat b * 256 ^ length bs + from_be bs"
  using foldl_be[of "unat b" bs] by (simp add: from_be_def)

lemma from_be_less: "from_be bs < 256 ^ length bs"
proof (induction bs)
  case Nil
  then show ?case by simp
next
  case (Cons b bs)
  have "unat b < 256" using unat_lt[of b] by simp
  then have "unat b + 1 \<le> 256" by simp
  then have "(unat b + 1) * 256 ^ length bs \<le> 256 * 256 ^ length bs"
    by (rule mult_le_mono1)
  then have "unat b * 256 ^ length bs + 256 ^ length bs \<le> 256 * 256 ^ length bs"
    by (simp only: add_mult_distrib mult_1)
  moreover have "256 ^ length (b # bs) = 256 * (256 :: nat) ^ length bs" by simp
  ultimately show ?case using Cons from_be_Cons[of b bs] by linarith
qed

lemma unat_of_nat_byte: "unat (of_nat n :: byte) = n mod 256"
  by (simp add: unat_of_nat)

lemma from_be_be_bytes: "from_be (be_bytes k n) = n mod 256 ^ k"
proof (induction k)
  case 0
  then show ?case by simp
next
  case (Suc k)
  have "n mod (256 ^ k * 256) = 256 ^ k * (n div 256 ^ k mod 256) + n mod 256 ^ k"
    by (rule mod_mult2_eq)
  then show ?case
    by (simp add: from_be_Cons Suc unat_of_nat_byte mult.commute)
qed

lemma be_bytes_cong: "n mod 256 ^ k = m mod 256 ^ k \<Longrightarrow> be_bytes k n = be_bytes k m"
proof (induction k)
  case 0
  then show ?case by simp
next
  case (Suc k)
  have low: "n mod 256 ^ k = m mod 256 ^ k"
    using Suc.prems by (metis mod_mod_cancel power_Suc dvd_triv_right)
  have "n div 256 ^ k mod 256 = m div 256 ^ k mod 256"
    using Suc.prems mod_mult2_eq[of n "256 ^ k" 256] mod_mult2_eq[of m "256 ^ k" 256] low
    by (simp add: mult.commute)
  then have "(of_nat (n div 256 ^ k) :: byte) = of_nat (m div 256 ^ k)"
    by (metis unat_of_nat_byte word_unat_eq_iff)
  then show ?case using Suc.IH[OF low] by simp
qed

lemma be_bytes_from_be: "be_bytes (length bs) (from_be bs) = bs"
proof (induction bs)
  case Nil
  then show ?case by simp
next
  case (Cons b bs)
  let ?k = "length bs"
  have "from_be (b # bs) div 256 ^ ?k = unat b"
    using from_be_less[of bs] by (simp add: from_be_Cons)
  moreover have "be_bytes ?k (from_be (b # bs)) = be_bytes ?k (from_be bs)"
    by (rule be_bytes_cong) (simp add: from_be_Cons)
  ultimately show ?case using Cons by simp
qed

definition u16_be :: "u16 \<Rightarrow> byte list" where "u16_be w = be_bytes 2 (unat w)"
definition u32_be :: "u32 \<Rightarrow> byte list" where "u32_be w = be_bytes 4 (unat w)"
definition u64_be :: "u64 \<Rightarrow> byte list" where "u64_be w = be_bytes 8 (unat w)"

definition u16_from_be :: "byte list \<Rightarrow> u16" where "u16_from_be bs = of_nat (from_be bs)"
definition u32_from_be :: "byte list \<Rightarrow> u32" where "u32_from_be bs = of_nat (from_be bs)"
definition u64_from_be :: "byte list \<Rightarrow> u64" where "u64_from_be bs = of_nat (from_be bs)"

lemma length_word_be [simp, wire_simps]:
  "length (u16_be a) = 2" "length (u32_be b) = 4" "length (u64_be c) = 8"
  by (simp_all add: u16_be_def u32_be_def u64_be_def)

lemma word_from_be [simp, wire_simps]:
  "u16_from_be (u16_be a) = a" "u32_from_be (u32_be b) = b" "u64_from_be (u64_be c) = c"
  using unat_lt[of a] unat_lt[of b] unat_lt[of c]
  by (simp_all add: u16_be_def u32_be_def u64_be_def u16_from_be_def u32_from_be_def
      u64_from_be_def from_be_be_bytes)

lemma word_be_from_be:
  "length bs = 2 \<Longrightarrow> u16_be (u16_from_be bs) = bs"
  "length bs = 4 \<Longrightarrow> u32_be (u32_from_be bs) = bs"
  "length bs = 8 \<Longrightarrow> u64_be (u64_from_be bs) = bs"
  using from_be_less[of bs] be_bytes_from_be[of bs]
  by (simp_all add: u16_be_def u32_be_def u64_be_def u16_from_be_def u32_from_be_def
      u64_from_be_def unat_of_nat)

text \<open>\<open>i16::to_le_bytes\<close> and \<open>i16::from_le_bytes\<close>; \<open>sint\<close> is the conversion \<open>i32::from\<close>.\<close>

definition i16_le :: "u16 \<Rightarrow> byte list" where
  "i16_le w = [of_nat (unat w), of_nat (unat w div 256)]"

definition i16_from_le :: "byte \<Rightarrow> byte \<Rightarrow> u16" where
  "i16_from_le b0 b1 = of_nat (unat b0 + 256 * unat b1)"

lemma length_i16_le [simp, wire_simps]: "length (i16_le w) = 2"
  by (simp add: i16_le_def)

lemma unat_of_nat_u16: "unat (of_nat n :: u16) = n mod 65536"
  by (simp add: unat_of_nat)

lemma unat_i16_from_le: "unat (i16_from_le b0 b1) = unat b0 + 256 * unat b1"
  using byte_lt[of b0] byte_lt[of b1] by (simp only: i16_from_le_def unat_of_nat_u16) simp

lemma i16_from_le_le: "i16_from_le (i16_le w ! 0) (i16_le w ! 1) = w"
proof -
  have "unat w div 256 < 256" using unat_lt[of w] by simp
  then have "unat (of_nat (unat w div 256) :: byte) = unat w div 256"
    by (simp only: unat_of_nat_byte mod_less)
  moreover have "unat (of_nat (unat w) :: byte) = unat w mod 256"
    by (rule unat_of_nat_byte)
  ultimately have "unat (i16_from_le (i16_le w ! 0) (i16_le w ! 1)) = unat w"
    by (simp only: unat_i16_from_le i16_le_def nth_Cons_0 One_nat_def nth_Cons_Suc mod_mult_div_eq)
  then show ?thesis by (simp only: word_unat_eq_iff)
qed

lemma i16_le_from_le: "i16_le (i16_from_le b0 b1) = [b0, b1]"
proof -
  have "(unat b0 + 256 * unat b1) mod 256 = unat b0" "(unat b0 + 256 * unat b1) div 256 = unat b1"
    using byte_lt[of b0] by simp_all
  then show ?thesis
    using byte_lt[of b1] by (simp only: i16_le_def unat_i16_from_le word_unat_eq_iff
        unat_of_nat_byte list.inject) simp
qed

section \<open>Slices and list updates\<close>

text \<open>\<open>xs[a..b]\<close> and \<open>xs.get(a..b)\<close> (\<open>None\<close> when the range leaves the vector).\<close>

definition subslice :: "nat \<Rightarrow> nat \<Rightarrow> 'a list \<Rightarrow> 'a list" where
  "subslice a b xs = take (b - a) (drop a xs)"

definition get_range :: "'a list \<Rightarrow> nat \<Rightarrow> nat \<Rightarrow> 'a list option" where
  "get_range xs a b = (if a \<le> b \<and> b \<le> length xs then Some (subslice a b xs) else None)"

definition get_at :: "'a list \<Rightarrow> nat \<Rightarrow> 'a option" where
  "get_at xs i = (if i < length xs then Some (xs ! i) else None)"

text \<open>\<open>dst[a..a + n].copy_from_slice(src)\<close> with \<open>n = src.len()\<close>, inside the bounds of \<open>dst\<close>.\<close>

definition copy_at :: "nat \<Rightarrow> 'a list \<Rightarrow> 'a list \<Rightarrow> 'a list" where
  "copy_at a src dst = take a dst @ src @ drop (a + length src) dst"

lemma length_subslice [simp]: "b \<le> length xs \<Longrightarrow> length (subslice a b xs) = b - a"
  by (simp add: subslice_def)

lemma get_range_Some: "a \<le> b \<Longrightarrow> b \<le> length xs \<Longrightarrow> get_range xs a b = Some (subslice a b xs)"
  by (simp add: get_range_def)

lemma subslice_append_left: "b \<le> length xs \<Longrightarrow> subslice a b (xs @ ys) = subslice a b xs"
  by (simp add: subslice_def)

lemma subslice_append_right:
  "length xs \<le> a \<Longrightarrow> subslice a b (xs @ ys) = subslice (a - length xs) (b - length xs) ys"
  by (simp add: subslice_def)

lemma subslice_full [simp]: "subslice 0 (length xs) xs = xs"
  by (simp add: subslice_def)

lemma subslice_split:
  assumes "a \<le> b" and "b \<le> c"
  shows "subslice a c xs = subslice a b xs @ subslice b c xs"
proof -
  have "c - a = (b - a) + (c - b)" using assms by simp
  then have "take (c - a) (drop a xs) = take (b - a) (drop a xs) @ take (c - b) (drop (b - a) (drop a xs))"
    by (simp only: take_add)
  then show ?thesis using assms by (simp add: subslice_def)
qed

lemma length_copy_at [simp]: "a + length src \<le> length dst \<Longrightarrow> length (copy_at a src dst) = length dst"
  by (simp add: copy_at_def)

lemma copy_at_nth:
  assumes "a + length src \<le> length dst" and "i < length dst"
  shows "copy_at a src dst ! i
    = (if a \<le> i \<and> i < a + length src then src ! (i - a) else dst ! i)"
  using assms by (auto simp: copy_at_def nth_append)

end
