(* ===== verification/Audio_Format.thy ===== *)
theory Audio_Format
  imports Prelude
begin

text \<open>
  \<open>src/src/protocol/format.rs\<close> and \<open>audio_format_from_globals\<close> of
  \<open>src/src/config/mod.rs\<close>: the wire constants, the audio format with its two validity
  checks, and the split of interleaved PCM into packet-sized chunks on frame boundaries.
\<close>

section \<open>Constants\<close>

definition WIRE_RATE :: nat where "WIRE_RATE = 48000"
definition WIRE_CHANNELS :: nat where "WIRE_CHANNELS = 2"
definition WIRE_FRAME_SAMPLES :: nat where "WIRE_FRAME_SAMPLES = 240"
definition MAX_DATAGRAM :: nat where "MAX_DATAGRAM = 1200"
definition MAX_PCM_CHUNK :: nat where "MAX_PCM_CHUNK = 960"
definition MAX_STREAMS :: nat where "MAX_STREAMS = 8"

text \<open>\<open>Duration\<close> constants, in microseconds.\<close>

definition WIRE_PACE :: nat where "WIRE_PACE = 5000"
definition STREAM_IDLE :: nat where "STREAM_IDLE = 10000000"

lemmas format_consts = WIRE_RATE_def WIRE_CHANNELS_def WIRE_FRAME_SAMPLES_def
  MAX_DATAGRAM_def MAX_PCM_CHUNK_def MAX_STREAMS_def

section \<open>The audio format\<close>

text \<open>\<open>sample_rate: u32\<close>, \<open>channels: u8\<close>, \<open>frame_samples: u16\<close>.\<close>

record audio_format =
  sample_rate :: u32
  channels :: byte
  frame_samples :: u16

datatype protocol_error = InvalidSampleRate | InvalidChannels | InvalidFrameSamples | InvalidPayload

definition canonical :: audio_format where
  "canonical = \<lparr>sample_rate = of_nat WIRE_RATE, channels = of_nat WIRE_CHANNELS,
     frame_samples = of_nat WIRE_FRAME_SAMPLES\<rparr>"

definition bytes_per_frame :: "audio_format \<Rightarrow> nat" where
  "bytes_per_frame f = unat (channels f) * 2"

definition expected_payload_bytes :: "audio_format \<Rightarrow> nat" where
  "expected_payload_bytes f = unat (frame_samples f) * bytes_per_frame f"

definition validate :: "audio_format \<Rightarrow> protocol_error + unit" where
  "validate f =
     (if \<not> (8000 \<le> unat (sample_rate f) \<and> unat (sample_rate f) \<le> 192000) then Inl InvalidSampleRate
      else if \<not> (1 \<le> unat (channels f) \<and> unat (channels f) \<le> 8) then Inl InvalidChannels
      else if \<not> (1 \<le> unat (frame_samples f) \<and> unat (frame_samples f) \<le> 4096)
      then Inl InvalidFrameSamples
      else Inr ())"

text \<open>The error string of \<open>require_wire\<close> carries the three numbers it interpolates.\<close>

definition require_wire :: "audio_format \<Rightarrow> (nat \<times> nat \<times> nat) + unit" where
  "require_wire f =
     (if unat (sample_rate f) \<noteq> WIRE_RATE \<or> unat (channels f) \<noteq> WIRE_CHANNELS
         \<or> unat (frame_samples f) \<noteq> WIRE_FRAME_SAMPLES
      then Inl (unat (sample_rate f), unat (channels f), unat (frame_samples f))
      else Inr ())"

text \<open>
  \<open>rate as u64 * frame_ms as u64\<close> cannot overflow 64 bits, so the product is the one of the
  natural numbers.
\<close>

definition audio_format_from_globals :: "u32 \<Rightarrow> byte \<Rightarrow> u32 \<Rightarrow> audio_format" where
  "audio_format_from_globals rate chans frame_ms =
     \<lparr>sample_rate = rate, channels = chans,
      frame_samples = of_nat (clamp 1 u16_max (unat rate * unat frame_ms div 1000))\<rparr>"

lemma require_wire_iff: "require_wire f = Inr () \<longleftrightarrow> f = canonical"
  by (cases f) (auto simp: require_wire_def canonical_def format_consts word_unat_eq_iff)

lemma canonical_sizes:
  "bytes_per_frame canonical = 4" "expected_payload_bytes canonical = MAX_PCM_CHUNK"
  by (simp_all add: bytes_per_frame_def expected_payload_bytes_def canonical_def format_consts)

lemma canonical_validates: "validate canonical = Inr ()"
  by (simp add: validate_def canonical_def format_consts)

text \<open>
  The command line's default options (\<open>--rate 48000 --channels 2 --frame-ms 5\<close>) give
  exactly the format that \<open>require_wire\<close> accepts, and \<open>require_wire\<close> accepts nothing else;
  that format is valid and one frame of it is one 960-byte PCM chunk.
\<close>

theorem wire_format_unique:
  "audio_format_from_globals 48000 2 5 = canonical
   \<and> (require_wire f = Inr () \<longleftrightarrow> f = canonical)
   \<and> validate canonical = Inr () \<and> expected_payload_bytes canonical = MAX_PCM_CHUNK"
  using require_wire_iff canonical_validates canonical_sizes
  by (simp add: audio_format_from_globals_def canonical_def format_consts u16_max_def clamp_def)

section \<open>Splitting PCM into chunks\<close>

text \<open>\<open>slice::chunks(n)\<close>: consecutive pieces of \<open>n\<close> elements, the last one possibly shorter.\<close>

function chunks :: "nat \<Rightarrow> 'a list \<Rightarrow> 'a list list" where
  "chunks n xs = (if xs = [] \<or> n = 0 then [] else take n xs # chunks n (drop n xs))"
  by pat_completeness auto
termination
  by (relation "measure (\<lambda>(n, xs). length xs)") auto

declare chunks.simps [simp del]

definition split_pcm :: "byte list \<Rightarrow> byte list list" where
  "split_pcm pcm =
     (let usable = length pcm - length pcm mod 4
      in if usable = 0 then [] else chunks MAX_PCM_CHUNK (take usable pcm))"

lemma chunks_Nil [simp]: "chunks n [] = []"
  by (simp add: chunks.simps)

lemma concat_chunks: "0 < n \<Longrightarrow> concat (chunks n xs) = xs"
proof (induction n xs rule: chunks.induct)
  case (1 n xs)
  then show ?case by (cases "xs = []") (simp_all add: chunks.simps [of n xs])
qed

lemma length_chunk:
  "c \<in> set (chunks n xs) \<Longrightarrow> 0 < length c \<and> length c \<le> n"
proof (induction n xs rule: chunks.induct)
  case (1 n xs)
  then show ?case
    by (auto simp: chunks.simps [of n xs] split: if_splits)
qed

lemma chunk_dvd:
  "c \<in> set (chunks n xs) \<Longrightarrow> d dvd n \<Longrightarrow> d dvd length xs \<Longrightarrow> d dvd length c"
proof (induction n xs rule: chunks.induct)
  case (1 n xs)
  have "d dvd length (drop n xs)"
    using "1.prems" by (cases "n \<le> length xs") (auto simp: dvd_diff_nat)
  moreover have "d dvd length (take n xs)"
    using "1.prems" by (simp add: min_def)
  ultimately show ?case
    using 1 by (auto simp: chunks.simps [of n xs] split: if_splits)
qed

lemma chunks_all_full_but_last:
  "c \<in> set (butlast (chunks n xs)) \<Longrightarrow> length c = n"
proof (induction n xs rule: chunks.induct)
  case (1 n xs)
  show ?case
  proof (cases "xs = [] \<or> n = 0")
    case True
    with "1.prems" show ?thesis by (simp add: chunks.simps [of n xs])
  next
    case False
    show ?thesis
    proof (cases "drop n xs = []")
      case True
      with False "1.prems" show ?thesis
        by (simp add: chunks.simps [of n xs] chunks.simps [of n "[]"])
    next
      case more: False
      then have "chunks n (drop n xs) \<noteq> []"
        using False by (simp add: chunks.simps [of n "drop n xs"])
      with False more 1 show ?thesis
        by (auto simp: chunks.simps [of n xs])
    qed
  qed
qed

text \<open>
  \<open>split_pcm\<close> keeps the audio: the chunks in order are the input without the trailing bytes
  of an incomplete 4-byte stereo frame; every chunk is non-empty, at most 960 bytes and made of
  whole frames, and all chunks but the last are exactly 960 bytes.
\<close>

theorem split_pcm_partitions:
  "concat (split_pcm pcm) = take (length pcm - length pcm mod 4) pcm
   \<and> list_all (\<lambda>c. 0 < length c \<and> length c \<le> MAX_PCM_CHUNK \<and> 4 dvd length c) (split_pcm pcm)
   \<and> list_all (\<lambda>c. length c = MAX_PCM_CHUNK) (butlast (split_pcm pcm))"
proof -
  let ?u = "length pcm - length pcm mod 4"
  have d: "4 dvd length (take ?u pcm)" by (simp add: minus_mod_eq_mult_div)
  have split: "split_pcm pcm = chunks MAX_PCM_CHUNK (take ?u pcm)"
    by (simp add: split_pcm_def Let_def)
  have four: "(4 :: nat) dvd MAX_PCM_CHUNK" by (simp add: MAX_PCM_CHUNK_def)
  have "concat (split_pcm pcm) = take ?u pcm"
    unfolding split by (rule concat_chunks) (simp add: MAX_PCM_CHUNK_def)
  moreover have "0 < length c \<and> length c \<le> MAX_PCM_CHUNK \<and> 4 dvd length c"
    if "c \<in> set (split_pcm pcm)" for c
    using that length_chunk chunk_dvd[OF _ four d] unfolding split by blast
  moreover have "length c = MAX_PCM_CHUNK" if "c \<in> set (butlast (split_pcm pcm))" for c
    using that chunks_all_full_but_last unfolding split by blast
  ultimately show ?thesis by (simp add: list_all_iff)
qed

end
