(* ===== verification/Codec.thy ===== *)
theory Codec
  imports Audio_Format
begin

unbundle bit_operations_syntax

text \<open>
  \<open>src/src/protocol/codec.rs\<close>: PCM16 passed through, and packet-local IMA ADPCM in its two
  forms (48 kHz stereo in 246 bytes, 24 kHz mono in 64 bytes). The predictor and the step index
  are \<open>i32\<close> values kept as \<open>int\<close>; the range lemmas show that no intermediate leaves the \<open>i32\<close>
  range and that every table index is inside its table, so neither a wrap nor a panic is lost.
\<close>

section \<open>Constants and tables\<close>

definition CODEC_PCM :: byte where "CODEC_PCM = 0"
definition CODEC_ADPCM48 :: byte where "CODEC_ADPCM48 = 1"
definition CODEC_ADPCM24 :: byte where "CODEC_ADPCM24 = 2"

definition ADPCM48_BYTES :: nat where "ADPCM48_BYTES = 246"
definition ADPCM24_BYTES :: nat where "ADPCM24_BYTES = 64"
definition MONO_24K_SAMPLES :: nat where "MONO_24K_SAMPLES = 120"

lemmas codec_consts = CODEC_PCM_def CODEC_ADPCM48_def CODEC_ADPCM24_def ADPCM48_BYTES_def
  ADPCM24_BYTES_def MONO_24K_SAMPLES_def MAX_PCM_CHUNK_def WIRE_FRAME_SAMPLES_def

definition INDEX_TABLE :: "int list" where
  "INDEX_TABLE = [-1, -1, -1, -1, 2, 4, 6, 8, -1, -1, -1, -1, 2, 4, 6, 8]"

definition STEP_TABLE :: "int list" where
  "STEP_TABLE = [
    7, 8, 9, 10, 11, 12, 13, 14, 16, 17, 19, 21, 23, 25, 28, 31, 34, 37, 41, 45, 50, 55, 60, 66,
    73, 80, 88, 97, 107, 118, 130, 143, 157, 173, 190, 209, 230, 253, 279, 307, 337, 371, 408, 449,
    494, 544, 598, 658, 724, 796, 876, 963, 1060, 1166, 1282, 1411, 1552, 1707, 1878, 2066, 2272,
    2499, 2749, 3024, 3327, 3660, 4026, 4428, 4871, 5358, 5894, 6484, 7132, 7845, 8630, 9493,
    10442, 11487, 12635, 13899, 15289, 16818, 18500, 20350, 22385, 24623, 27086, 29794, 32767]"

definition codec_name :: "byte \<Rightarrow> string" where
  "codec_name codec =
     (if codec = CODEC_PCM then ''pcm16-48k-stereo''
      else if codec = CODEC_ADPCM48 then ''adpcm-48k-stereo''
      else if codec = CODEC_ADPCM24 then ''adpcm-24k-mono''
      else ''unknown'')"

section \<open>Samples in interleaved stereo PCM\<close>

definition read_i16 :: "byte list \<Rightarrow> nat \<Rightarrow> nat \<Rightarrow> u16" where
  "read_i16 pcm frame channel =
     (let i = (frame * 2 + channel) * 2 in i16_from_le (pcm ! i) (pcm ! (i + 1)))"

definition write_i16 :: "byte list \<Rightarrow> nat \<Rightarrow> nat \<Rightarrow> u16 \<Rightarrow> byte list" where
  "write_i16 pcm frame channel sample =
     (let i = (frame * 2 + channel) * 2 in copy_at i (i16_le sample) pcm)"

section \<open>One ADPCM step\<close>

text \<open>
  The two \<open>&mut i32\<close> arguments \<open>pred\<close> and \<open>index\<close> are the state \<open>(pred, index)\<close>, returned updated.
  \<open>step >> k\<close> on a positive \<open>i32\<close> is division by \<open>2 ^ k\<close>.
\<close>

type_synonym adpcm_state = "int \<times> int"

fun encode_nibble :: "u16 \<Rightarrow> adpcm_state \<Rightarrow> byte \<times> adpcm_state" where
  "encode_nibble sample (pred, index) =
     (let step = STEP_TABLE ! nat index;
          delta = sint sample - pred;
          (nibble, delta) = (if delta < 0 then (8 :: byte, - delta) else (0, delta));
          vpdiff = step div 8;
          (nibble, delta, vpdiff) =
            (if step \<le> delta then (nibble OR 4, delta - step, vpdiff + step)
             else (nibble, delta, vpdiff));
          (nibble, delta, vpdiff) =
            (if step div 2 \<le> delta then (nibble OR 2, delta - step div 2, vpdiff + step div 2)
             else (nibble, delta, vpdiff));
          (nibble, vpdiff) =
            (if step div 4 \<le> delta then (nibble OR 1, vpdiff + step div 4)
             else (nibble, vpdiff));
          pred = (if nibble AND 8 \<noteq> 0 then pred - vpdiff else pred + vpdiff);
          pred = clamp (- 32768) 32767 pred;
          index = clamp 0 88 (index + INDEX_TABLE ! unat nibble)
      in (nibble, pred, index))"

fun decode_nibble :: "byte \<Rightarrow> adpcm_state \<Rightarrow> u16 \<times> adpcm_state" where
  "decode_nibble nibble (pred, index) =
     (let step = STEP_TABLE ! nat index;
          n = nibble AND 15;
          diff = step div 8;
          diff = (if n AND 1 \<noteq> 0 then diff + step div 4 else diff);
          diff = (if n AND 2 \<noteq> 0 then diff + step div 2 else diff);
          diff = (if n AND 4 \<noteq> 0 then diff + step else diff);
          pred = (if n AND 8 \<noteq> 0 then pred - diff else pred + diff);
          pred = clamp (- 32768) 32767 pred;
          index = clamp 0 88 (index + INDEX_TABLE ! unat n)
      in (word_of_int pred, pred, index))"

declare encode_nibble.simps [simp del] decode_nibble.simps [simp del]

section \<open>48 kHz stereo\<close>

text \<open>The \<open>for frame in 0..240\<close> loop, over the list of frame numbers still to encode.\<close>

fun encode_stereo_loop :: "byte list \<Rightarrow> nat list \<Rightarrow> adpcm_state \<Rightarrow> adpcm_state \<Rightarrow> byte list" where
  "encode_stereo_loop pcm [] l r = []"
| "encode_stereo_loop pcm (frame # frames) l r =
     (let (nl, l') = encode_nibble (read_i16 pcm frame 0) l;
          (nr, r') = encode_nibble (read_i16 pcm frame 1) r
      in (nl OR push_bit 4 nr) # encode_stereo_loop pcm frames l' r')"

definition encode_adpcm_stereo :: "byte list \<Rightarrow> byte list" where
  "encode_adpcm_stereo pcm =
     (let pred_l = sint (read_i16 pcm 0 0); pred_r = sint (read_i16 pcm 0 1)
      in i16_le (word_of_int pred_l) @ [0] @ i16_le (word_of_int pred_r) @ [0]
         @ encode_stereo_loop pcm [0..<WIRE_FRAME_SAMPLES] (pred_l, 0) (pred_r, 0))"

fun decode_stereo_loop ::
  "byte list \<Rightarrow> nat \<Rightarrow> byte list \<Rightarrow> adpcm_state \<Rightarrow> adpcm_state \<Rightarrow> byte list option" where
  "decode_stereo_loop pcm frame [] l r = Some pcm"
| "decode_stereo_loop pcm frame (b # bs) l r =
     (if WIRE_FRAME_SAMPLES \<le> frame then None
      else
        (let (sl, l') = decode_nibble (b AND 15) l;
             (sr, r') = decode_nibble (drop_bit 4 b) r
         in decode_stereo_loop (write_i16 (write_i16 pcm frame 0 sl) frame 1 sr) (frame + 1) bs l' r'))"

definition decode_adpcm_stereo :: "byte list \<Rightarrow> byte list option" where
  "decode_adpcm_stereo payload =
     (if length payload \<noteq> ADPCM48_BYTES then None
      else decode_stereo_loop (replicate MAX_PCM_CHUNK 0) 0 (drop 6 payload)
        (sint (i16_from_le (payload ! 0) (payload ! 1)), clamp 0 88 (int (unat (payload ! 2))))
        (sint (i16_from_le (payload ! 3) (payload ! 4)), clamp 0 88 (int (unat (payload ! 5)))))"

section \<open>24 kHz mono\<close>

text \<open>
  The \<open>i32\<close> division by 4 of \<open>downsample_24k_mono\<close> truncates towards zero, as Rust's \<open>/\<close> does.
\<close>

definition trunc_div :: "int \<Rightarrow> int \<Rightarrow> int" where
  "trunc_div a b = sgn a * sgn b * (\<bar>a\<bar> div \<bar>b\<bar>)"

definition downsample_24k_mono :: "byte list \<Rightarrow> u16 list" where
  "downsample_24k_mono pcm =
     map (\<lambda>i. let a = sint (read_i16 pcm (i * 2) 0) + sint (read_i16 pcm (i * 2) 1);
                  b = sint (read_i16 pcm (i * 2 + 1) 0) + sint (read_i16 pcm (i * 2 + 1) 1)
              in word_of_int (trunc_div (a + b) 4))
       [0..<MONO_24K_SAMPLES]"

fun upsample_loop :: "nat \<Rightarrow> u16 list \<Rightarrow> byte list \<Rightarrow> byte list" where
  "upsample_loop i [] pcm = pcm"
| "upsample_loop i (s # ss) pcm =
     upsample_loop (i + 1) ss
       (write_i16 (write_i16 (write_i16 (write_i16 pcm (i * 2) 0 s) (i * 2) 1 s)
          (i * 2 + 1) 0 s) (i * 2 + 1) 1 s)"

definition upsample_24k_mono :: "u16 list \<Rightarrow> byte list \<Rightarrow> byte list" where
  "upsample_24k_mono mono24 pcm = upsample_loop 0 mono24 pcm"

text \<open>The \<open>byte\<close>/\<open>which\<close> pair of the mono encoder: \<open>which = 0\<close> keeps the nibble, \<open>1\<close> emits a byte.\<close>

fun encode_mono_loop :: "u16 list \<Rightarrow> adpcm_state \<Rightarrow> byte \<Rightarrow> nat \<Rightarrow> byte list" where
  "encode_mono_loop [] s byt which = []"
| "encode_mono_loop (sample # samples) s byt which =
     (let (n, s') = encode_nibble sample s
      in if which = 0 then encode_mono_loop samples s' n 1
         else (byt OR push_bit 4 n) # encode_mono_loop samples s' byt 0)"

definition encode_adpcm_mono24 :: "byte list \<Rightarrow> byte list" where
  "encode_adpcm_mono24 pcm =
     (let mono24 = downsample_24k_mono pcm; pred = sint (mono24 ! 0)
      in i16_le (word_of_int pred) @ [0] @ [0] @ encode_mono_loop mono24 (pred, 0) 0 0)"

fun decode_mono_loop ::
  "u16 list \<Rightarrow> nat \<Rightarrow> byte list \<Rightarrow> adpcm_state \<Rightarrow> (u16 list \<times> nat) option" where
  "decode_mono_loop mono24 n [] s = Some (mono24, n)"
| "decode_mono_loop mono24 n (b # bs) s =
     (if MONO_24K_SAMPLES \<le> n + 1 then None
      else
        (let (s0, s') = decode_nibble (b AND 15) s;
             (s1, s'') = decode_nibble (drop_bit 4 b) s'
         in decode_mono_loop ((mono24[n := s0])[n + 1 := s1]) (n + 2) bs s''))"

definition decode_adpcm_mono24 :: "byte list \<Rightarrow> byte list option" where
  "decode_adpcm_mono24 payload =
     (if length payload \<noteq> ADPCM24_BYTES then None
      else
        (case decode_mono_loop (replicate MONO_24K_SAMPLES 0) 0 (drop 4 payload)
            (sint (i16_from_le (payload ! 0) (payload ! 1)), clamp 0 88 (int (unat (payload ! 2)))) of
           None \<Rightarrow> None
         | Some (mono24, n) \<Rightarrow>
             if n \<noteq> MONO_24K_SAMPLES then None
             else Some (upsample_24k_mono mono24 (replicate MAX_PCM_CHUNK 0))))"

section \<open>Dispatch\<close>

definition encode_canonical :: "byte \<Rightarrow> byte list \<Rightarrow> byte list option" where
  "encode_canonical codec pcm960 =
     (if length pcm960 \<noteq> MAX_PCM_CHUNK then None
      else if codec = CODEC_PCM then Some pcm960
      else if codec = CODEC_ADPCM48 then Some (encode_adpcm_stereo pcm960)
      else if codec = CODEC_ADPCM24 then Some (encode_adpcm_mono24 pcm960)
      else None)"

definition decode_canonical :: "byte \<Rightarrow> byte list \<Rightarrow> byte list option" where
  "decode_canonical codec payload =
     (if codec = CODEC_PCM \<and> length payload = MAX_PCM_CHUNK then Some payload
      else if codec = CODEC_ADPCM48 \<and> length payload = ADPCM48_BYTES then decode_adpcm_stereo payload
      else if codec = CODEC_ADPCM24 \<and> length payload = ADPCM24_BYTES then decode_adpcm_mono24 payload
      else None)"

section \<open>The step contract: the decoder follows the encoder\<close>

text \<open>
  What packet-local ADPCM rests on: a decoder step on the nibble an encoder step produced, from
  the same state, reaches the same state and outputs that state's sample. \<open>encode_all\<close> and
  \<open>decode_all\<close> run a step over a packet; \<open>reconstruct\<close> is the list of samples the encoder
  itself tracks.
\<close>

fun encode_all :: "('x \<Rightarrow> 's \<Rightarrow> 'n \<times> 's) \<Rightarrow> 'x list \<Rightarrow> 's \<Rightarrow> 'n list" where
  "encode_all enc [] s = []"
| "encode_all enc (x # xs) s = (let (n, s') = enc x s in n # encode_all enc xs s')"

fun decode_all :: "('n \<Rightarrow> 's \<Rightarrow> 'y \<times> 's) \<Rightarrow> 'n list \<Rightarrow> 's \<Rightarrow> 'y list" where
  "decode_all dec [] s = []"
| "decode_all dec (n # ns) s = (let (y, s') = dec n s in y # decode_all dec ns s')"

fun reconstruct :: "('x \<Rightarrow> 's \<Rightarrow> 'n \<times> 's) \<Rightarrow> ('s \<Rightarrow> 'y) \<Rightarrow> 'x list \<Rightarrow> 's \<Rightarrow> 'y list" where
  "reconstruct enc out [] s = []"
| "reconstruct enc out (x # xs) s = (let s' = snd (enc x s) in out s' # reconstruct enc out xs s')"

locale lockstep_codec =
  fixes enc :: "'x \<Rightarrow> 's \<Rightarrow> 'n \<times> 's"
    and dec :: "'n \<Rightarrow> 's \<Rightarrow> 'y \<times> 's"
    and out :: "'s \<Rightarrow> 'y"
    and valid :: "'s \<Rightarrow> bool"
  assumes lockstep: "dec (fst (enc x s)) s = (out (snd (enc x s)), snd (enc x s))"
    and enc_valid: "valid s \<Longrightarrow> valid (snd (enc x s))"
    and dec_valid: "valid s \<Longrightarrow> valid (snd (dec n s))"
begin

lemma decode_encode_all: "decode_all dec (encode_all enc xs s) s = reconstruct enc out xs s"
proof (induction xs arbitrary: s)
  case Nil
  then show ?case by simp
next
  case (Cons x xs)
  then show ?case
    using lockstep[of x s] by (cases "enc x s") simp
qed

lemma length_encode_all [simp]: "length (encode_all enc xs s) = length xs"
  by (induction xs arbitrary: s) (simp_all split: prod.splits)

lemma length_decode_all [simp]: "length (decode_all dec ns s) = length ns"
  by (induction ns arbitrary: s) (simp_all split: prod.splits)

lemma length_reconstruct [simp]: "length (reconstruct enc out xs s) = length xs"
  by (induction xs arbitrary: s) (simp_all add: Let_def)

end

section \<open>Facts of one step\<close>

definition adpcm_ok :: "adpcm_state \<Rightarrow> bool" where
  "adpcm_ok s \<longleftrightarrow> - 32768 \<le> fst s \<and> fst s \<le> 32767 \<and> 0 \<le> snd s \<and> snd s \<le> 88"

definition adpcm_out :: "adpcm_state \<Rightarrow> u16" where
  "adpcm_out s = word_of_int (fst s)"

text \<open>
  The branches of a step gathered into four bits: the sign and the three quotient bits. Both
  directions are then the same move of the predictor, read from the same nibble.
\<close>

definition nibble_of :: "bool \<Rightarrow> bool \<Rightarrow> bool \<Rightarrow> bool \<Rightarrow> byte" where
  "nibble_of neg b4 b2 b1 =
     (if neg then 8 else 0) OR (if b4 then 4 else 0) OR (if b2 then 2 else 0) OR (if b1 then 1 else 0)"

definition step_diff :: "int \<Rightarrow> bool \<Rightarrow> bool \<Rightarrow> bool \<Rightarrow> int" where
  "step_diff step b4 b2 b1 =
     step div 8 + (if b4 then step else 0) + (if b2 then step div 2 else 0) + (if b1 then step div 4 else 0)"

definition step_move :: "byte \<Rightarrow> int \<Rightarrow> bool \<Rightarrow> adpcm_state \<Rightarrow> adpcm_state" where
  "step_move nibble diff neg s =
     (clamp (- 32768) 32767 (if neg then fst s - diff else fst s + diff),
      clamp 0 88 (snd s + INDEX_TABLE ! unat nibble))"

lemma nibble_of_cases: "nibble_of neg b4 b2 b1 AND 15 = nibble_of neg b4 b2 b1"
  by (cases neg; cases b4; cases b2; cases b1) (simp_all add: nibble_of_def)

lemma nibble_of_bits:
  "nibble_of neg b4 b2 b1 AND 8 \<noteq> 0 \<longleftrightarrow> neg" "nibble_of neg b4 b2 b1 AND 4 \<noteq> 0 \<longleftrightarrow> b4"
  "nibble_of neg b4 b2 b1 AND 2 \<noteq> 0 \<longleftrightarrow> b2" "nibble_of neg b4 b2 b1 AND 1 \<noteq> 0 \<longleftrightarrow> b1"
  by (cases neg; cases b4; cases b2; cases b1; simp add: nibble_of_def)+

lemma encode_nibble_form:
  fixes s :: adpcm_state and x :: u16
  defines "step \<equiv> STEP_TABLE ! nat (snd s)" and "delta \<equiv> sint x - fst s"
  defines "b4 \<equiv> step \<le> \<bar>delta\<bar>"
  defines "d2 \<equiv> \<bar>delta\<bar> - (if b4 then step else 0)"
  defines "b2 \<equiv> step div 2 \<le> d2"
  defines "d1 \<equiv> d2 - (if b2 then step div 2 else 0)"
  defines "b1 \<equiv> step div 4 \<le> d1"
  defines "n \<equiv> nibble_of (delta < 0) b4 b2 b1"
  shows "encode_nibble x s = (n, step_move n (step_diff step b4 b2 b1) (delta < 0) s)"
proof -
  obtain p i where s: "s = (p, i)" by (cases s)
  have step: "STEP_TABLE ! nat i = step" and delta: "sint x - p = delta"
    by (simp_all add: s step_def delta_def)
  have neg: "(if delta < 0 then (8 :: byte, - delta) else (0, delta)) = (if delta < 0 then 8 else 0, \<bar>delta\<bar>)"
    by simp
  have if4: "(if step \<le> \<bar>delta\<bar> then (m OR 4, \<bar>delta\<bar> - step, v + step) else (m, \<bar>delta\<bar>, v))
      = (m OR (if b4 then 4 else 0), d2, v + (if b4 then step else 0))" for m :: byte and v
    by (simp add: b4_def d2_def)
  have if2: "(if step div 2 \<le> d2 then (m OR 2, d2 - step div 2, v + step div 2) else (m, d2, v))
      = (m OR (if b2 then 2 else 0), d1, v + (if b2 then step div 2 else 0))" for m :: byte and v
    by (simp add: b2_def d1_def)
  have if1: "(if step div 4 \<le> d1 then (m OR 1, v + step div 4) else (m, v))
      = (m OR (if b1 then 1 else 0), v + (if b1 then step div 4 else 0))" for m :: byte and v
    by (simp add: b1_def)
  have n: "(if delta < 0 then 8 else 0) OR (if b4 then 4 else 0) OR (if b2 then 2 else 0) OR (if b1 then 1 else 0) = n"
    by (simp add: n_def nibble_of_def)
  have n8: "n AND 8 \<noteq> 0 \<longleftrightarrow> delta < 0"
    by (simp only: n_def nibble_of_bits)
  show ?thesis
    unfolding s encode_nibble.simps Let_def step delta neg prod.case if4 if2 if1
    by (simp only: n n8 step_move_def step_diff_def fst_conv snd_conv or.assoc prod.case)
qed

lemma decode_nibble_form:
  "decode_nibble (nibble_of neg b4 b2 b1) s =
     (let s' = step_move (nibble_of neg b4 b2 b1) (step_diff (STEP_TABLE ! nat (snd s)) b4 b2 b1) neg s
      in (adpcm_out s', s'))"
  by (cases s) (simp only: decode_nibble.simps nibble_of_cases nibble_of_bits Let_def step_move_def
      step_diff_def adpcm_out_def fst_conv snd_conv, cases b4; cases b2; cases b1; simp add: ac_simps)

lemma encode_nibble_low: "fst (encode_nibble x s) AND 15 = fst (encode_nibble x s)"
  by (simp only: encode_nibble_form fst_conv nibble_of_cases)

lemma nibble_lockstep:
  "decode_nibble (fst (encode_nibble x s)) s = (adpcm_out (snd (encode_nibble x s)), snd (encode_nibble x s))"
  by (simp only: encode_nibble_form fst_conv snd_conv decode_nibble_form Let_def)

lemma step_move_ok: "adpcm_ok (step_move n d neg s)"
  by (simp add: adpcm_ok_def step_move_def clamp_def)

lemma encode_nibble_ok: "adpcm_ok (snd (encode_nibble x s))"
  by (simp only: encode_nibble_form snd_conv step_move_ok)

lemma decode_nibble_ok: "adpcm_ok (snd (decode_nibble n s))"
  by (cases s) (simp add: decode_nibble.simps Let_def adpcm_ok_def clamp_def)

interpretation ima: lockstep_codec encode_nibble decode_nibble adpcm_out adpcm_ok
  by unfold_locales (simp_all add: nibble_lockstep encode_nibble_ok decode_nibble_ok)

lemma pack_nibbles:
  fixes x y :: byte
  assumes "x AND 15 = x" and "y AND 15 = y"
  shows "(x OR push_bit 4 y) AND 15 = x" and "drop_bit 4 (x OR push_bit 4 y) = y"
proof -
  have m: "(15 :: byte) = mask 4" by (simp add: mask_numeral)
  have hi: "n < 4" if "z AND 15 = z" and "bit z n" for z :: byte and n
  proof -
    have "bit (z AND 15) n" using that by simp
    then show ?thesis unfolding m by (simp add: bit_and_iff bit_mask_iff)
  qed
  show "(x OR push_bit 4 y) AND 15 = x"
    using hi[OF assms(1)] unfolding m
    by (intro bit_word_eqI) (auto simp: bit_simps not_le)
  show "drop_bit 4 (x OR push_bit 4 y) = y"
  proof (rule bit_word_eqI)
    fix n
    assume "n < LENGTH(8)"
    show "bit (drop_bit 4 (x OR push_bit 4 y)) n = bit y n"
      using hi[OF assms(1), of "n + 4"] hi[OF assms(2), of n] by (auto simp: bit_simps add.commute)
  qed
qed

lemma step_table_range:
  assumes "0 \<le> i" and "i \<le> 88"
  shows "nat i < length STEP_TABLE" and "7 \<le> STEP_TABLE ! nat i" and "STEP_TABLE ! nat i \<le> 32767"
proof -
  have len: "length STEP_TABLE = 89" by (simp add: STEP_TABLE_def)
  then show "nat i < length STEP_TABLE" using assms by simp
  then have "STEP_TABLE ! nat i \<in> set STEP_TABLE" by (rule nth_mem)
  moreover have "\<forall>v \<in> set STEP_TABLE. 7 \<le> v \<and> v \<le> 32767" by (simp add: STEP_TABLE_def)
  ultimately show "7 \<le> STEP_TABLE ! nat i" "STEP_TABLE ! nat i \<le> 32767" by auto
qed

text \<open>Reading is the inverse of writing, and writes to other samples do not interfere.\<close>

lemma length_write_i16 [simp]:
  "(frame * 2 + channel) * 2 + 2 \<le> length pcm \<Longrightarrow> length (write_i16 pcm frame channel s) = length pcm"
  by (simp add: write_i16_def)

lemma read_write_i16:
  assumes "(frame * 2 + channel) * 2 + 2 \<le> length pcm" and "(frame' * 2 + channel') * 2 + 2 \<le> length pcm"
  shows "read_i16 (write_i16 pcm frame channel s) frame' channel'
    = (if frame * 2 + channel = frame' * 2 + channel' then s else read_i16 pcm frame' channel')"
proof -
  let ?i = "(frame * 2 + channel) * 2" and ?j = "(frame' * 2 + channel') * 2"
  have nth: "copy_at ?i (i16_le s) pcm ! k
      = (if ?i \<le> k \<and> k < ?i + 2 then i16_le s ! (k - ?i) else pcm ! k)" if "k < length pcm" for k
    using assms that copy_at_nth[of ?i "i16_le s" pcm k] by simp
  show ?thesis
  proof (cases "?i = ?j")
    case True
    then have eq: "frame * 2 + channel = frame' * 2 + channel'" by simp
    have "copy_at ?i (i16_le s) pcm ! ?j = i16_le s ! 0" "copy_at ?i (i16_le s) pcm ! (?j + 1) = i16_le s ! 1"
      using assms nth[of ?j] nth[of "?j + 1"] True by simp_all
    then show ?thesis using eq by (simp only: read_i16_def write_i16_def Let_def i16_from_le_le if_True refl)
  next
    case False
    then have ne: "frame * 2 + channel \<noteq> frame' * 2 + channel'" by simp
    then have "copy_at ?i (i16_le s) pcm ! ?j = pcm ! ?j" "copy_at ?i (i16_le s) pcm ! (?j + 1) = pcm ! (?j + 1)"
      using assms nth[of ?j] nth[of "?j + 1"] by auto
    then show ?thesis using ne by (simp only: read_i16_def write_i16_def Let_def if_False)
  qed
qed

section \<open>Round trip of a stereo packet\<close>

lemma encode_stereo_loop_pack:
  "encode_stereo_loop pcm frames l r =
     map2 (\<lambda>a b. a OR push_bit 4 b)
       (encode_all encode_nibble (map (\<lambda>f. read_i16 pcm f 0) frames) l)
       (encode_all encode_nibble (map (\<lambda>f. read_i16 pcm f 1) frames) r)"
  by (induction frames arbitrary: l r) (simp_all add: Let_def split: prod.splits)

lemma encode_all_low:
  "n \<in> set (encode_all encode_nibble xs s) \<Longrightarrow> n AND 15 = n"
proof (induction xs arbitrary: s)
  case Nil
  then show ?case by simp
next
  case (Cons x xs)
  then show ?case using encode_nibble_low[of x s] by (cases "encode_nibble x s") auto
qed

lemma unpack_map2:
  assumes "length xs = length ys" and "\<And>n. n \<in> set xs \<Longrightarrow> n AND 15 = n"
    and "\<And>n. n \<in> set ys \<Longrightarrow> n AND 15 = n"
  shows "map (\<lambda>b. b AND 15) (map2 (\<lambda>a b. a OR push_bit 4 b) xs ys) = xs
    \<and> map (drop_bit 4) (map2 (\<lambda>a b. a OR push_bit 4 b) xs ys) = (ys :: byte list)"
  using assms
proof (induction xs ys rule: list_induct2)
  case Nil
  then show ?case by simp
next
  case (Cons x xs y ys)
  have xy: "x AND 15 = x" "y AND 15 = y" using Cons.prems by simp_all
  have "map (\<lambda>b. b AND 15) (map2 (\<lambda>a b. a OR push_bit 4 b) xs ys) = xs
    \<and> map (drop_bit 4) (map2 (\<lambda>a b. a OR push_bit 4 b) xs ys) = ys"
    using Cons.prems by (intro Cons.IH) simp_all
  then show ?case
    by (simp only: list.map zip_Cons_Cons prod.case pack_nibbles[OF xy])
qed

lemma decode_stereo_loop_writes:
  assumes "length pcm = MAX_PCM_CHUNK" and "frame + length bs \<le> WIRE_FRAME_SAMPLES"
  shows "\<exists>out. decode_stereo_loop pcm frame bs l r = Some out \<and> length out = MAX_PCM_CHUNK
    \<and> (\<forall>f c. f < WIRE_FRAME_SAMPLES \<longrightarrow> c < 2 \<longrightarrow> read_i16 out f c =
         (if frame \<le> f \<and> f < frame + length bs
          then (if c = 0 then decode_all decode_nibble (map (\<lambda>b. b AND 15) bs) l ! (f - frame)
                else decode_all decode_nibble (map (drop_bit 4) bs) r ! (f - frame))
          else read_i16 pcm f c))"
  using assms
proof (induction bs arbitrary: pcm frame l r)
  case Nil
  then show ?case by (auto dest: leD)
next
  case (Cons b bs)
  obtain sl l' where l: "decode_nibble (b AND 15) l = (sl, l')" by (cases "decode_nibble (b AND 15) l")
  obtain sr r' where r: "decode_nibble (drop_bit 4 b) r = (sr, r')" by (cases "decode_nibble (drop_bit 4 b) r")
  let ?pcm = "write_i16 (write_i16 pcm frame 0 sl) frame 1 sr"
  have room: "frame < WIRE_FRAME_SAMPLES" using Cons.prems by simp
  have len: "length ?pcm = MAX_PCM_CHUNK"
    using Cons.prems room by (simp add: codec_consts)
  have rd: "read_i16 ?pcm f c = (if f = frame then (if c = 0 then sl else sr) else read_i16 pcm f c)"
    if "f < WIRE_FRAME_SAMPLES" "c < 2" for f c
  proof -
    have c: "c = 0 \<or> c = 1" using that by auto
    then show ?thesis
      using that Cons.prems room by (auto simp: read_write_i16 codec_consts)
  qed
  from Cons.IH[of ?pcm "frame + 1" l' r'] len Cons.prems obtain out where
    out: "decode_stereo_loop ?pcm (frame + 1) bs l' r' = Some out" "length out = MAX_PCM_CHUNK" and
    vals: "\<And>f c. f < WIRE_FRAME_SAMPLES \<Longrightarrow> c < 2 \<Longrightarrow> read_i16 out f c =
         (if frame + 1 \<le> f \<and> f < frame + 1 + length bs
          then (if c = 0 then decode_all decode_nibble (map (\<lambda>b. b AND 15) bs) l' ! (f - (frame + 1))
                else decode_all decode_nibble (map (drop_bit 4) bs) r' ! (f - (frame + 1)))
          else read_i16 ?pcm f c)" by auto
  have "decode_stereo_loop pcm frame (b # bs) l r = Some out"
    using room out l r by simp
  moreover have "read_i16 out f c =
         (if frame \<le> f \<and> f < frame + length (b # bs)
          then (if c = 0 then decode_all decode_nibble (map (\<lambda>b. b AND 15) (b # bs)) l ! (f - frame)
                else decode_all decode_nibble (map (drop_bit 4) (b # bs)) r ! (f - frame))
          else read_i16 pcm f c)" if "f < WIRE_FRAME_SAMPLES" "c < 2" for f c
    using vals[OF that] rd[OF that] l r by (cases "f = frame") (auto simp: nth_Cons')
  ultimately show ?case using out(2) by blast
qed

text \<open>The samples a decoder hears on one channel: what the encoder tracked while packing it.\<close>

definition tracked :: "u16 list \<Rightarrow> u16 list" where
  "tracked samples = reconstruct encode_nibble adpcm_out samples (sint (hd samples), 0)"

definition channel_samples :: "byte list \<Rightarrow> nat \<Rightarrow> u16 list" where
  "channel_samples pcm c = map (\<lambda>f. read_i16 pcm f c) [0..<WIRE_FRAME_SAMPLES]"

lemma hd_channel: "hd (channel_samples pcm c) = read_i16 pcm 0 c"
  by (simp add: channel_samples_def WIRE_FRAME_SAMPLES_def hd_map)

lemma length_tracked [simp]: "length (tracked xs) = length xs"
  by (simp add: tracked_def)

lemma length_encode_adpcm_stereo: "length (encode_adpcm_stereo pcm) = ADPCM48_BYTES"
  by (simp add: encode_adpcm_stereo_def encode_stereo_loop_pack codec_consts Let_def)

lemma i16_of_sint: "(word_of_int (sint w) :: u16) = w"
  by simp

lemma decode_encode_stereo:
  obtains out where "decode_adpcm_stereo (encode_adpcm_stereo pcm) = Some out"
    and "length out = MAX_PCM_CHUNK"
    and "\<And>f c. f < WIRE_FRAME_SAMPLES \<Longrightarrow> c < 2 \<Longrightarrow>
      read_i16 out f c = tracked (channel_samples pcm c) ! f"
proof -
  let ?w = "\<lambda>c. read_i16 pcm 0 c"
  let ?s = "\<lambda>c. (sint (?w c), 0 :: int)"
  let ?e = "\<lambda>c. encode_all encode_nibble (channel_samples pcm c) (?s c)"
  let ?bs = "map2 (\<lambda>a b. a OR push_bit 4 b) (?e 0) (?e 1)"
  have enc: "encode_adpcm_stereo pcm = i16_le (?w 0) @ [0] @ i16_le (?w 1) @ [0] @ ?bs"
    by (simp add: encode_adpcm_stereo_def encode_stereo_loop_pack channel_samples_def Let_def)
  let ?p = "encode_adpcm_stereo pcm"
  have hdr: "i16_from_le (?p ! 0) (?p ! 1) = ?w 0" "?p ! 2 = 0"
    "i16_from_le (?p ! 3) (?p ! 4) = ?w 1" "?p ! 5 = 0" "drop 6 ?p = ?bs"
    using i16_from_le_le[of "?w 0"] i16_from_le_le[of "?w 1"]
    by (simp_all add: enc i16_le_def)
  have len: "length ?bs = WIRE_FRAME_SAMPLES"
    by (simp add: channel_samples_def)
  have un: "map (\<lambda>b. b AND 15) ?bs = ?e 0" "map (drop_bit 4) ?bs = ?e 1"
    using unpack_map2[of "?e 0" "?e 1"] encode_all_low by (auto simp: channel_samples_def)
  have dec: "decode_all decode_nibble (?e c) (?s c) = tracked (channel_samples pcm c)" for c
    by (simp only: ima.decode_encode_all tracked_def hd_channel)
  have start: "decode_adpcm_stereo ?p
      = decode_stereo_loop (replicate MAX_PCM_CHUNK 0) 0 ?bs (?s 0) (?s 1)"
    using length_encode_adpcm_stereo[of pcm] by (simp add: decode_adpcm_stereo_def hdr hdr[unfolded One_nat_def])
  obtain out where out: "decode_stereo_loop (replicate MAX_PCM_CHUNK 0) 0 ?bs (?s 0) (?s 1) = Some out"
      "length out = MAX_PCM_CHUNK" and
    rd: "\<forall>f c. f < WIRE_FRAME_SAMPLES \<longrightarrow> c < 2 \<longrightarrow> read_i16 out f c =
         (if 0 \<le> f \<and> f < 0 + length ?bs
          then (if c = 0 then decode_all decode_nibble (map (\<lambda>b. b AND 15) ?bs) (?s 0) ! (f - 0)
                else decode_all decode_nibble (map (drop_bit 4) ?bs) (?s 1) ! (f - 0))
          else read_i16 (replicate MAX_PCM_CHUNK 0) f c)"
    using decode_stereo_loop_writes[of "replicate MAX_PCM_CHUNK 0" 0 ?bs "?s 0" "?s 1"] len
    by (metis add_0 length_replicate order_refl)
  have "read_i16 out f c = tracked (channel_samples pcm c) ! f" if "f < WIRE_FRAME_SAMPLES" "c < 2" for f c
  proof -
    have "c = 0 \<or> c = 1" using that by auto
    then show ?thesis using that rd dec[of 0] dec[of 1] unfolding un len by auto
  qed
  then show ?thesis using out start that by simp
qed

lemma first_step_exact: "encode_nibble x (sint x, 0) = (0, (sint x, 0))"
proof -
  have "- 32768 \<le> sint x" "sint x \<le> 32767"
    using sint_greater_eq[of x] sint_less[of x] by simp_all
  then show ?thesis
    by (simp add: encode_nibble.simps STEP_TABLE_def INDEX_TABLE_def Let_def clamp_def)
qed

lemma tracked_hd: "xs \<noteq> [] \<Longrightarrow> tracked xs ! 0 = hd xs"
  by (cases xs) (simp_all add: tracked_def first_step_exact adpcm_out_def)

text \<open>
  C12. Stereo ADPCM round trip. Every 960-byte PCM packet encodes to 246 bytes, those bytes decode
  to 960 bytes of PCM, and on each channel the decoder outputs sample for sample the values the
  encoder tracked while it quantised (so encoder and decoder never drift apart inside a packet);
  the first sample of each channel is reproduced exactly.
\<close>

theorem adpcm48_roundtrip:
  assumes "length pcm = MAX_PCM_CHUNK"
  shows "\<exists>payload out. encode_canonical CODEC_ADPCM48 pcm = Some payload
    \<and> length payload = ADPCM48_BYTES
    \<and> decode_canonical CODEC_ADPCM48 payload = Some out \<and> length out = MAX_PCM_CHUNK
    \<and> channel_samples out 0 = tracked (channel_samples pcm 0)
    \<and> channel_samples out 1 = tracked (channel_samples pcm 1)
    \<and> read_i16 out 0 0 = read_i16 pcm 0 0 \<and> read_i16 out 0 1 = read_i16 pcm 0 1"
proof -
  obtain out where out: "decode_adpcm_stereo (encode_adpcm_stereo pcm) = Some out"
      "length out = MAX_PCM_CHUNK" and
    rd: "\<And>f c. f < WIRE_FRAME_SAMPLES \<Longrightarrow> c < 2 \<Longrightarrow>
      read_i16 out f c = tracked (channel_samples pcm c) ! f"
    using decode_encode_stereo by blast
  have chan: "channel_samples out c = tracked (channel_samples pcm c)" if "c < 2" for c
    using rd that by (intro nth_equalityI) (simp_all add: channel_samples_def)
  have "channel_samples pcm c \<noteq> []" for c
    by (simp add: channel_samples_def WIRE_FRAME_SAMPLES_def)
  then have first: "read_i16 out 0 c = read_i16 pcm 0 c" if "c < 2" for c
    using rd[of 0 c] that tracked_hd[of "channel_samples pcm c"] hd_channel[of pcm c]
    by (simp add: WIRE_FRAME_SAMPLES_def)
  show ?thesis
    using assms out chan[of 0] chan[of 1] first[of 0] first[of 1] length_encode_adpcm_stereo[of pcm]
    by (simp add: encode_canonical_def decode_canonical_def CODEC_PCM_def CODEC_ADPCM48_def)
qed

theorem adpcm48_roundtrip_witness:
  "\<exists>payload out. encode_canonical CODEC_ADPCM48 (replicate 960 7) = Some payload
    \<and> decode_canonical CODEC_ADPCM48 payload = Some out \<and> read_i16 out 0 0 = 1799"
proof -
  have "length (replicate 960 (7 :: byte)) = MAX_PCM_CHUNK" by (simp add: MAX_PCM_CHUNK_def)
  moreover have "read_i16 (replicate 960 7) 0 0 = 1799"
    by (simp add: read_i16_def i16_from_le_def)
  ultimately show ?thesis using adpcm48_roundtrip[of "replicate 960 7"] by metis
qed

lemma clamp_closer: "lo \<le> x \<Longrightarrow> x \<le> hi \<Longrightarrow> \<bar>x - clamp lo hi y\<bar> \<le> \<bar>x - y\<bar>"
  for x :: int
  by (auto simp: clamp_def)

lemma quantise_bound:
  fixes a s q8 q4 q2 :: int
  assumes q: "8 * q8 \<le> s" "s < 8 * q8 + 8" "4 * q4 \<le> s" "s < 4 * q4 + 4" "2 * q2 \<le> s" "s < 2 * q2 + 2"
    and a: "0 \<le> a" "a < 2 * s"
  defines "d2 \<equiv> a - (if s \<le> a then s else 0)"
  defines "d1 \<equiv> d2 - (if q2 \<le> d2 then q2 else 0)"
  shows "\<bar>a - (q8 + (if s \<le> a then s else 0) + (if q2 \<le> d2 then q2 else 0) + (if q4 \<le> d1 then q4 else 0))\<bar> \<le> q8 + 2"
proof -
  have d2: "0 \<le> d2" "d2 < s" "a - (if s \<le> a then s else 0) = d2" using a by (auto simp: d2_def)
  have d1: "0 \<le> d1" "d1 \<le> s - q2 - 1" "d2 - (if q2 \<le> d2 then q2 else 0) = d1"
    using d2 q by (auto simp: d1_def)
  define d0 where "d0 = d1 - (if q4 \<le> d1 then q4 else 0)"
  have d0: "0 \<le> d0" "d0 \<le> 2 * q8 + 2"
    using d1 q by (auto simp: d0_def)
  have "a - (q8 + (if s \<le> a then s else 0) + (if q2 \<le> d2 then q2 else 0) + (if q4 \<le> d1 then q4 else 0)) = d0 - q8"
    using d2(3) d1(3) d0_def by linarith
  then show ?thesis using d0 by linarith
qed

text \<open>
  C37. Quantisation error of one ADPCM step. When the prediction is off by less than twice the
  current step (no slope overload), the new prediction is within an eighth of the step, plus two,
  of the sample.
\<close>

theorem adpcm_step_error:
  assumes "adpcm_ok (p, i)" and "\<bar>sint x - p\<bar> < 2 * STEP_TABLE ! nat i"
  shows "\<bar>sint x - fst (snd (encode_nibble x (p, i)))\<bar> \<le> STEP_TABLE ! nat i div 8 + 2"
proof -
  let ?step = "STEP_TABLE ! nat i"
  have step: "7 \<le> ?step" using assms(1) step_table_range[of i] by (simp add: adpcm_ok_def)
  have x: "- 32768 \<le> sint x" "sint x \<le> 32767"
    using sint_greater_eq[of x] sint_less[of x] by simp_all
  define a where "a = \<bar>sint x - p\<bar>"
  define d2 where "d2 = a - (if ?step \<le> a then ?step else 0)"
  define d1 where "d1 = d2 - (if ?step div 2 \<le> d2 then ?step div 2 else 0)"
  define v where "v = step_diff ?step (?step \<le> a) (?step div 2 \<le> d2) (?step div 4 \<le> d1)"
  have q: "8 * (?step div 8) \<le> ?step" "?step < 8 * (?step div 8) + 8"
    "4 * (?step div 4) \<le> ?step" "?step < 4 * (?step div 4) + 4"
    "2 * (?step div 2) \<le> ?step" "?step < 2 * (?step div 2) + 2"
    by presburger+
  have a: "0 \<le> a" "a < 2 * ?step" using assms(2) by (auto simp: a_def)
  have diff: "\<bar>a - v\<bar> \<le> ?step div 8 + 2"
    unfolding v_def step_diff_def d1_def d2_def using quantise_bound[OF q a] .
  have "fst (snd (encode_nibble x (p, i))) = clamp (- 32768) 32767 (if sint x - p < 0 then p - v else p + v)"
    by (simp only: encode_nibble_form step_move_def fst_conv snd_conv v_def d1_def d2_def a_def)
  then have "\<bar>sint x - fst (snd (encode_nibble x (p, i)))\<bar> \<le> \<bar>a - v\<bar>"
    using clamp_closer[OF x, of "if sint x - p < 0 then p - v else p + v"]
    by (cases "sint x - p < 0") (simp_all add: a_def abs_minus_commute algebra_simps)
  with diff show ?thesis by linarith
qed

lemma adpcm_step_error_witness:
  "\<bar>sint (5 :: u16) - fst (snd (encode_nibble 5 (0, 0)))\<bar> \<le> STEP_TABLE ! 0 div 8 + 2"
  using adpcm_step_error[of 0 0 5] by (simp add: adpcm_ok_def STEP_TABLE_def)

section \<open>Round trip of a mono packet\<close>

fun pack_pairs :: "byte list \<Rightarrow> byte list" where
  "pack_pairs (a # b # ns) = (a OR push_bit 4 b) # pack_pairs ns"
| "pack_pairs ns = []"

fun unpack_pairs :: "byte list \<Rightarrow> byte list" where
  "unpack_pairs [] = []"
| "unpack_pairs (b # bs) = (b AND 15) # drop_bit 4 b # unpack_pairs bs"

lemma encode_mono_loop_pack:
  "encode_mono_loop xs s byt 0 = pack_pairs (encode_all encode_nibble xs s)
   \<and> encode_mono_loop xs s n 1 = pack_pairs (n # encode_all encode_nibble xs s)"
  by (induction xs arbitrary: s byt n) (simp_all add: Let_def split: prod.splits)

lemma unpack_pack_pairs:
  "even (length ns) \<Longrightarrow> (\<And>n. n \<in> set ns \<Longrightarrow> n AND 15 = n) \<Longrightarrow> unpack_pairs (pack_pairs ns) = ns"
proof (induction ns rule: pack_pairs.induct)
  case (1 a b ns)
  have "a AND 15 = a" "b AND 15 = b" using "1.prems"(2) by simp_all
  moreover have "unpack_pairs (pack_pairs ns) = ns" using "1.prems" by (intro "1.IH") simp_all
  ultimately show ?case by (simp only: pack_pairs.simps unpack_pairs.simps pack_nibbles)
qed simp_all

lemma length_pack_pairs: "even (length ns) \<Longrightarrow> length (pack_pairs ns) = length ns div 2"
  by (induction ns rule: pack_pairs.induct) simp_all

lemma decode_mono_loop_writes:
  assumes "length smp = MONO_24K_SAMPLES" and "n + 2 * length bs = MONO_24K_SAMPLES"
  shows "decode_mono_loop smp n bs s
    = Some (take n smp @ decode_all decode_nibble (unpack_pairs bs) s, MONO_24K_SAMPLES)"
  using assms
proof (induction bs arbitrary: smp n s)
  case Nil
  then show ?case by simp
next
  case (Cons b bs)
  obtain s0 s' where s0: "decode_nibble (b AND 15) s = (s0, s')"
    by (cases "decode_nibble (b AND 15) s")
  obtain s1 s'' where s1: "decode_nibble (drop_bit 4 b) s' = (s1, s'')"
    by (cases "decode_nibble (drop_bit 4 b) s'")
  let ?m = "(smp[n := s0])[n + 1 := s1]"
  have n: "n + 1 < length smp" using Cons.prems by simp
  have "take (n + 2) ?m = take n smp @ [s0, s1]"
    using n by (intro nth_equalityI) (auto simp: nth_append nth_list_update less_Suc_eq numeral_2_eq_2)
  moreover have "decode_mono_loop ?m (n + 2) bs s''
      = Some (take (n + 2) ?m @ decode_all decode_nibble (unpack_pairs bs) s'', MONO_24K_SAMPLES)"
    using Cons.prems by (intro Cons.IH) simp_all
  ultimately show ?case using Cons.prems s0 s1 by simp
qed

lemma write_i16_packet:
  assumes "length q = MAX_PCM_CHUNK" and "g < WIRE_FRAME_SAMPLES" "d < 2"
    and "f < WIRE_FRAME_SAMPLES" "c < 2"
  shows "length (write_i16 q g d s) = MAX_PCM_CHUNK
    \<and> read_i16 (write_i16 q g d s) f c = (if g * 2 + d = f * 2 + c then s else read_i16 q f c)"
proof -
  have "(g * 2 + d) * 2 + 2 \<le> length q" "(f * 2 + c) * 2 + 2 \<le> length q"
    using assms unfolding MAX_PCM_CHUNK_def WIRE_FRAME_SAMPLES_def by presburger+
  then show ?thesis using assms(1) by (simp only: read_write_i16 length_write_i16 refl simp_thms)
qed

lemma upsample_loop_reads:
  assumes "length pcm = MAX_PCM_CHUNK" and "i + length ss \<le> MONO_24K_SAMPLES"
  shows "length (upsample_loop i ss pcm) = MAX_PCM_CHUNK
    \<and> (\<forall>f c. f < WIRE_FRAME_SAMPLES \<longrightarrow> c < 2 \<longrightarrow> read_i16 (upsample_loop i ss pcm) f c =
         (if i \<le> f div 2 \<and> f div 2 < i + length ss then ss ! (f div 2 - i) else read_i16 pcm f c))"
  using assms
proof (induction ss arbitrary: pcm i)
  case Nil
  then show ?case by (auto dest: leD)
next
  case (Cons s ss)
  let ?pcm = "write_i16 (write_i16 (write_i16 (write_i16 pcm (i * 2) 0 s) (i * 2) 1 s)
          (i * 2 + 1) 0 s) (i * 2 + 1) 1 s"
  have i: "i < 120" using Cons.prems by (simp add: codec_consts)
  have len: "length ?pcm = MAX_PCM_CHUNK" using Cons.prems i by (simp add: codec_consts)
  have rd: "read_i16 ?pcm f c = (if f div 2 = i then s else read_i16 pcm f c)"
    if fc: "f < WIRE_FRAME_SAMPLES" "c < 2" for f c
  proof -
    note rw = write_i16_packet[OF _ _ _ fc]
    have g: "i * 2 < WIRE_FRAME_SAMPLES" "i * 2 + 1 < WIRE_FRAME_SAMPLES"
      using i by (simp_all add: WIRE_FRAME_SAMPLES_def)
    have "f div 2 = i \<longleftrightarrow> i * 2 * 2 + 0 = f * 2 + c \<or> i * 2 * 2 + 1 = f * 2 + c
        \<or> (i * 2 + 1) * 2 + 0 = f * 2 + c \<or> (i * 2 + 1) * 2 + 1 = f * 2 + c"
    proof -
      have "c = 0 \<or> c = 1" using fc(2) by auto
      moreover have "f div 2 = i \<longleftrightarrow> f = i * 2 \<or> f = i * 2 + 1" by presburger
      ultimately show ?thesis by (elim disjE) (simp, presburger)+
    qed
    moreover have "read_i16 ?pcm f c =
       (if (i * 2 + 1) * 2 + 1 = f * 2 + c then s else if (i * 2 + 1) * 2 + 0 = f * 2 + c then s
        else if i * 2 * 2 + 1 = f * 2 + c then s else if i * 2 * 2 + 0 = f * 2 + c then s
        else read_i16 pcm f c)"
    proof -
      note w1 = rw[OF Cons.prems(1) g(1), of 0 s]
      note w2 = rw[OF conjunct1[OF w1] g(1), of 1 s]
      note w3 = rw[OF conjunct1[OF w2] g(2), of 0 s]
      note w4 = rw[OF conjunct1[OF w3] g(2), of 1 s]
      show ?thesis
        using conjunct2[OF w1] conjunct2[OF w2] conjunct2[OF w3] conjunct2[OF w4]
        by (simp only:)
    qed
    ultimately show ?thesis by argo
  qed
  from Cons.IH[of ?pcm "i + 1"] len Cons.prems have
    L: "length (upsample_loop (i + 1) ss ?pcm) = MAX_PCM_CHUNK" and
    R: "\<And>f c. f < WIRE_FRAME_SAMPLES \<Longrightarrow> c < 2 \<Longrightarrow> read_i16 (upsample_loop (i + 1) ss ?pcm) f c =
         (if i + 1 \<le> f div 2 \<and> f div 2 < i + 1 + length ss then ss ! (f div 2 - (i + 1))
          else read_i16 ?pcm f c)" by auto
  have "read_i16 (upsample_loop (i + 1) ss ?pcm) f c =
         (if i \<le> f div 2 \<and> f div 2 < i + length (s # ss) then (s # ss) ! (f div 2 - i) else read_i16 pcm f c)"
    if "f < WIRE_FRAME_SAMPLES" "c < 2" for f c
    using R[OF that] rd[OF that] by (cases "f div 2 = i") (auto simp: nth_Cons')
  then show ?case using L by simp
qed

lemma length_downsample [simp]: "length (downsample_24k_mono pcm) = MONO_24K_SAMPLES"
  by (simp add: downsample_24k_mono_def)

lemma hd_downsample: "downsample_24k_mono pcm ! 0 = hd (downsample_24k_mono pcm)"
  by (simp add: hd_conv_nth downsample_24k_mono_def MONO_24K_SAMPLES_def del: upt_Suc)

lemma length_encode_adpcm_mono24: "length (encode_adpcm_mono24 pcm) = ADPCM24_BYTES"
  by (simp add: encode_adpcm_mono24_def encode_mono_loop_pack length_pack_pairs Let_def codec_consts)

lemma decode_encode_mono:
  obtains out where "decode_adpcm_mono24 (encode_adpcm_mono24 pcm) = Some out"
    and "length out = MAX_PCM_CHUNK"
    and "\<And>f c. f < WIRE_FRAME_SAMPLES \<Longrightarrow> c < 2 \<Longrightarrow>
      read_i16 out f c = tracked (downsample_24k_mono pcm) ! (f div 2)"
proof -
  let ?m = "downsample_24k_mono pcm" and ?p = "encode_adpcm_mono24 pcm"
  let ?s = "(sint (hd ?m), 0 :: int)"
  let ?ns = "encode_all encode_nibble ?m ?s"
  let ?out = "upsample_24k_mono (tracked ?m) (replicate MAX_PCM_CHUNK 0)"
  have enc: "?p = i16_le (hd ?m) @ [0] @ [0] @ pack_pairs ?ns"
    by (simp add: encode_adpcm_mono24_def encode_mono_loop_pack Let_def hd_downsample)
  have hdr: "i16_from_le (?p ! 0) (?p ! 1) = hd ?m" "?p ! 2 = 0" "drop 4 ?p = pack_pairs ?ns"
    using i16_from_le_le[of "hd ?m"] by (simp_all add: enc i16_le_def)
  have even: "even (length ?ns)" by (simp add: codec_consts)
  have "unpack_pairs (pack_pairs ?ns) = ?ns"
    using even encode_all_low by (rule unpack_pack_pairs)
  then have "decode_mono_loop (replicate MONO_24K_SAMPLES 0) 0 (pack_pairs ?ns) ?s
      = Some (tracked ?m, MONO_24K_SAMPLES)"
    using even by (simp add: decode_mono_loop_writes length_pack_pairs codec_consts
        ima.decode_encode_all tracked_def)
  then have "decode_adpcm_mono24 ?p = Some ?out"
    using length_encode_adpcm_mono24[of pcm]
    by (simp add: decode_adpcm_mono24_def hdr hdr[unfolded One_nat_def])
  moreover have "length ?out = MAX_PCM_CHUNK" and
    "read_i16 ?out f c = tracked ?m ! (f div 2)" if "f < WIRE_FRAME_SAMPLES" "c < 2" for f c
    using upsample_loop_reads[of "replicate MAX_PCM_CHUNK 0" 0 "tracked ?m"] that
    by (auto simp: upsample_24k_mono_def codec_consts)
  moreover have "length ?out = MAX_PCM_CHUNK"
    using upsample_loop_reads[of "replicate MAX_PCM_CHUNK 0" 0 "tracked ?m"]
    by (auto simp: upsample_24k_mono_def codec_consts)
  ultimately show ?thesis using that by blast
qed

lemma length_doubled: "length (concat (map (\<lambda>s. [s, s]) xs)) = 2 * length xs"
  by (induction xs) simp_all

lemma nth_doubled: "k < 2 * length xs \<Longrightarrow> concat (map (\<lambda>s. [s, s]) xs) ! k = xs ! (k div 2)"
proof (induction xs arbitrary: k)
  case Nil
  then show ?case by simp
next
  case (Cons x xs)
  show ?case
  proof (cases "k < 2")
    case True
    then have "k = 0 \<or> k = 1" by auto
    then show ?thesis by auto
  next
    case False
    then obtain m where m: "k = m + 2" by (metis add.commute le_Suc_ex linorder_not_less)
    then show ?thesis using Cons by simp
  qed
qed

text \<open>
  Mono ADPCM round trip. A 960-byte packet encodes to 64 bytes; they decode to 960 bytes in
  which both channels of both frames of every pair carry the same sample, the one the encoder
  tracked for the average of those four input samples.
\<close>

theorem adpcm24_roundtrip:
  assumes "length pcm = MAX_PCM_CHUNK"
  shows "\<exists>payload out. encode_canonical CODEC_ADPCM24 pcm = Some payload
    \<and> length payload = ADPCM24_BYTES
    \<and> decode_canonical CODEC_ADPCM24 payload = Some out \<and> length out = MAX_PCM_CHUNK
    \<and> channel_samples out 0 = concat (map (\<lambda>s. [s, s]) (tracked (downsample_24k_mono pcm)))
    \<and> channel_samples out 1 = channel_samples out 0"
proof -
  let ?t = "tracked (downsample_24k_mono pcm)"
  obtain out where out: "decode_adpcm_mono24 (encode_adpcm_mono24 pcm) = Some out"
      "length out = MAX_PCM_CHUNK" and
    rd: "\<And>f c. f < WIRE_FRAME_SAMPLES \<Longrightarrow> c < 2 \<Longrightarrow> read_i16 out f c = ?t ! (f div 2)"
    using decode_encode_mono by blast
  have chan: "channel_samples out c = concat (map (\<lambda>s. [s, s]) ?t)" if "c < 2" for c
    using rd that by (intro nth_equalityI) (simp_all add: channel_samples_def length_doubled nth_doubled codec_consts)
  show ?thesis
    using assms out chan[of 0] chan[of 1] length_encode_adpcm_mono24[of pcm]
    by (simp add: encode_canonical_def decode_canonical_def CODEC_PCM_def CODEC_ADPCM48_def CODEC_ADPCM24_def)
qed

lemma adpcm24_roundtrip_witness:
  "\<exists>payload. encode_canonical CODEC_ADPCM24 (replicate 960 7) = Some payload
    \<and> length payload = ADPCM24_BYTES"
  using adpcm24_roundtrip[of "replicate 960 7"] by (auto simp: MAX_PCM_CHUNK_def)

section \<open>Totality\<close>

lemma decode_adpcm_stereo_total:
  assumes "length payload = ADPCM48_BYTES"
  shows "\<exists>out. decode_adpcm_stereo payload = Some out \<and> length out = MAX_PCM_CHUNK"
proof -
  have "0 + length (drop 6 payload) \<le> WIRE_FRAME_SAMPLES" using assms by (simp add: codec_consts)
  then have "\<exists>out. decode_stereo_loop (replicate MAX_PCM_CHUNK 0) 0 (drop 6 payload) l r = Some out
      \<and> length out = MAX_PCM_CHUNK" for l r
    using decode_stereo_loop_writes[OF length_replicate] by blast
  then show ?thesis by (simp only: decode_adpcm_stereo_def assms simp_thms if_False)
qed

lemma decode_adpcm_mono24_total:
  assumes "length payload = ADPCM24_BYTES"
  shows "\<exists>out. decode_adpcm_mono24 payload = Some out \<and> length out = MAX_PCM_CHUNK"
proof -
  have unp: "length (unpack_pairs bs) = 2 * length bs" for bs by (induction bs) simp_all
  have "0 + 2 * length (drop 4 payload) = MONO_24K_SAMPLES" using assms by (simp add: codec_consts)
  from decode_mono_loop_writes[OF length_replicate this] show ?thesis
    using assms upsample_loop_reads[of "replicate MAX_PCM_CHUNK 0" 0]
    by (auto simp: decode_adpcm_mono24_def upsample_24k_mono_def unp codec_consts)
qed

text \<open>
  The decoder is total on well-sized payloads and rejects everything else: it returns PCM
  exactly for the three (codec, length) pairs of the protocol, whatever the bytes, and the PCM it
  returns is always one 960-byte packet. PCM payloads are returned unchanged.
\<close>

theorem decode_canonical_total:
  "(decode_canonical codec payload \<noteq> None \<longleftrightarrow>
      (codec, length payload) \<in> {(CODEC_PCM, MAX_PCM_CHUNK), (CODEC_ADPCM48, ADPCM48_BYTES),
        (CODEC_ADPCM24, ADPCM24_BYTES)})
   \<and> (case decode_canonical codec payload of None \<Rightarrow> True | Some out \<Rightarrow> length out = MAX_PCM_CHUNK)
   \<and> decode_canonical CODEC_PCM payload = (if length payload = MAX_PCM_CHUNK then Some payload else None)"
  using decode_adpcm_stereo_total[of payload] decode_adpcm_mono24_total[of payload]
  by (auto simp: decode_canonical_def CODEC_PCM_def CODEC_ADPCM48_def CODEC_ADPCM24_def)

lemma decode_canonical_length: "decode_canonical codec payload = Some out \<Longrightarrow> length out = MAX_PCM_CHUNK"
  using decode_adpcm_stereo_total[of payload] decode_adpcm_mono24_total[of payload]
  by (auto simp: decode_canonical_def split: if_splits)

lemma encode_canonical_length:
  "encode_canonical codec pcm = Some payload \<Longrightarrow> length payload \<le> MAX_PCM_CHUNK"
  by (auto simp: encode_canonical_def length_encode_adpcm_stereo length_encode_adpcm_mono24
      codec_consts split: if_splits)

lemma encode_canonical_known:
  "codec \<in> {CODEC_PCM, CODEC_ADPCM48, CODEC_ADPCM24} \<Longrightarrow>
   encode_canonical codec pcm \<noteq> None \<longleftrightarrow> length pcm = MAX_PCM_CHUNK"
  by (auto simp: encode_canonical_def)

end
