(* ===== verification/Utf8.thy ===== *)
theory Utf8
  imports Prelude
begin

text \<open>
  Rust strings. A \<open>String\<close> is the list of its \<open>char\<close>s (Unicode scalar values, as numbers);
  \<open>utf8\<close> is \<open>as_bytes\<close>, \<open>str_len\<close> is \<open>len()\<close> (bytes, not characters), \<open>from_utf8\<close> is
  \<open>std::str::from_utf8\<close>, which accepts well-formed UTF-8 only (no overlong form, no surrogate,
  nothing above U+10FFFF), and \<open>trim\<close> removes Unicode white space at both ends.
\<close>

type_synonym rstring = "nat list"

definition scalar :: "nat \<Rightarrow> bool" where
  "scalar c \<longleftrightarrow> c < 55296 \<or> (57344 \<le> c \<and> c \<le> 1114111)"

definition valid_string :: "rstring \<Rightarrow> bool" where
  "valid_string s \<longleftrightarrow> list_all scalar s"

definition len_utf8 :: "nat \<Rightarrow> nat" where
  "len_utf8 c = (if c < 128 then 1 else if c < 2048 then 2 else if c < 65536 then 3 else 4)"

definition utf8_char :: "nat \<Rightarrow> byte list" where
  "utf8_char c =
     (if c < 128 then [of_nat c]
      else if c < 2048 then [of_nat (192 + c div 64), of_nat (128 + c mod 64)]
      else if c < 65536 then [of_nat (224 + c div 4096), of_nat (128 + c div 64 mod 64), of_nat (128 + c mod 64)]
      else [of_nat (240 + c div 262144), of_nat (128 + c div 4096 mod 64),
            of_nat (128 + c div 64 mod 64), of_nat (128 + c mod 64)])"

definition utf8 :: "rstring \<Rightarrow> byte list" where
  "utf8 s = concat (map utf8_char s)"

definition str_len :: "rstring \<Rightarrow> nat" where
  "str_len s = length (utf8 s)"

text \<open>A continuation byte and its six payload bits.\<close>

definition cont :: "nat \<Rightarrow> bool" where
  "cont b \<longleftrightarrow> 128 \<le> b \<and> b < 192"

fun decode_char :: "nat list \<Rightarrow> (nat \<times> nat list) option" where
  "decode_char [] = None"
| "decode_char (b0 # bs) =
     (if b0 < 128 then Some (b0, bs)
      else if 194 \<le> b0 \<and> b0 < 224 then
        (case bs of b1 # rest \<Rightarrow>
           if cont b1 then Some ((b0 - 192) * 64 + (b1 - 128), rest) else None
         | _ \<Rightarrow> None)
      else if 224 \<le> b0 \<and> b0 < 240 then
        (case bs of b1 # b2 # rest \<Rightarrow>
           let c = (b0 - 224) * 4096 + (b1 - 128) * 64 + (b2 - 128)
           in if cont b1 \<and> cont b2 \<and> 2048 \<le> c \<and> scalar c then Some (c, rest) else None
         | _ \<Rightarrow> None)
      else if 240 \<le> b0 \<and> b0 < 245 then
        (case bs of b1 # b2 # b3 # rest \<Rightarrow>
           let c = (b0 - 240) * 262144 + (b1 - 128) * 4096 + (b2 - 128) * 64 + (b3 - 128)
           in if cont b1 \<and> cont b2 \<and> cont b3 \<and> 65536 \<le> c \<and> scalar c then Some (c, rest) else None
         | _ \<Rightarrow> None)
      else None)"

lemma decode_char_shorter: "decode_char bs = Some (c, rest) \<Longrightarrow> length rest < length bs"
  by (cases bs) (auto simp: Let_def split: if_splits list.splits)

function decode_chars :: "nat list \<Rightarrow> rstring option" where
  "decode_chars bs =
     (if bs = [] then Some []
      else (case decode_char bs of
              None \<Rightarrow> None
            | Some (c, rest) \<Rightarrow> map_option ((#) c) (decode_chars rest)))"
  by pat_completeness auto
termination
  by (relation "measure length") (auto dest: decode_char_shorter)

declare decode_chars.simps [simp del]
declare decode_char.simps [simp del]

definition from_utf8 :: "byte list \<Rightarrow> rstring option" where
  "from_utf8 bs = decode_chars (map unat bs)"

text \<open>\<open>char::is_whitespace\<close> (the Unicode \<open>White_Space\<close> property) and \<open>str::trim\<close>.\<close>

definition is_whitespace :: "nat \<Rightarrow> bool" where
  "is_whitespace c \<longleftrightarrow> (9 \<le> c \<and> c \<le> 13) \<or> c = 32 \<or> c = 133 \<or> c = 160 \<or> c = 5760
     \<or> (8192 \<le> c \<and> c \<le> 8202) \<or> c = 8232 \<or> c = 8233 \<or> c = 8239 \<or> c = 8287 \<or> c = 12288"

definition trim :: "rstring \<Rightarrow> rstring" where
  "trim s = rev (dropWhile is_whitespace (rev (dropWhile is_whitespace s)))"

section \<open>Encoding and decoding are inverse\<close>

lemma length_utf8_char: "length (utf8_char c) = len_utf8 c"
  by (simp add: utf8_char_def len_utf8_def)

lemma len_utf8_pos [simp]: "0 < len_utf8 c"
  by (simp add: len_utf8_def)

lemma str_len_simps [simp]:
  "str_len [] = 0" "str_len (c # s) = len_utf8 c + str_len s" "str_len (s @ t) = str_len s + str_len t"
  by (simp_all add: str_len_def utf8_def length_utf8_char)

lemma unat_byte_of: "n < 256 \<Longrightarrow> unat (of_nat n :: byte) = n"
  by (simp only: unat_of_nat_byte mod_less)

lemma six_bits3: "c div 4096 * 4096 + c div 64 mod 64 * 64 + c mod 64 = c" for c :: nat
proof -
  have "c div 4096 = c div 64 div 64" by (simp add: div_mult2_eq[symmetric])
  moreover have "c div 64 div 64 * 64 + c div 64 mod 64 = c div 64" by (rule div_mult_mod_eq)
  moreover have "c div 64 * 64 + c mod 64 = c" by (rule div_mult_mod_eq)
  ultimately show ?thesis by linarith
qed

lemma six_bits4:
  "c div 262144 * 262144 + c div 4096 mod 64 * 4096 + c div 64 mod 64 * 64 + c mod 64 = c" for c :: nat
proof -
  have "c div 262144 = c div 4096 div 64" by (simp add: div_mult2_eq[symmetric])
  moreover have "c div 4096 div 64 * 64 + c div 4096 mod 64 = c div 4096" by (rule div_mult_mod_eq)
  moreover note six_bits3[of c]
  ultimately show ?thesis by linarith
qed

lemma decode_char_utf8:
  assumes "scalar c"
  shows "decode_char (map unat (utf8_char c) @ rest) = Some (c, rest)"
proof -
  have c: "c < 1114112" using assms by (auto simp: scalar_def)
  have m: "cont (128 + k mod 64)" for k by (simp add: cont_def)
  consider "c < 128" | "128 \<le> c" "c < 2048" | "2048 \<le> c" "c < 65536" | "65536 \<le> c" by linarith
  then show ?thesis
  proof cases
    case 1
    then have "map unat (utf8_char c) = [c]" by (simp only: utf8_char_def if_True list.map unat_byte_of)
    with 1 show ?thesis by (simp add: decode_char.simps)
  next
    case 2
    have lo: "2 \<le> c div 64" using 2 div_le_mono[of 128 c 64] by simp
    have hi: "c div 64 < 32" using 2 by (intro less_mult_imp_div_less) simp
    have md: "c mod 64 < 64" by simp
    have b: "192 + c div 64 < 256" "128 + c mod 64 < 256" "194 \<le> 192 + c div 64" "192 + c div 64 < 224"
      using lo hi md by linarith+
    have nl: "\<not> c < 128" using 2 by simp
    have "map unat (utf8_char c) = [192 + c div 64, 128 + c mod 64]"
      using 2 nl by (simp only: utf8_char_def if_True if_False list.map
          unat_byte_of[OF b(1)] unat_byte_of[OF b(2)])
    with b m show ?thesis by (simp add: decode_char.simps)
  next
    case 3
    have hi: "c div 4096 < 16" using 3 by (intro less_mult_imp_div_less) simp
    have md: "c mod 64 < 64" "c div 64 mod 64 < 64" by simp_all
    have b: "224 + c div 4096 < 256" "128 + c div 64 mod 64 < 256" "128 + c mod 64 < 256"
      "224 \<le> 224 + c div 4096" "224 + c div 4096 < 240"
      using hi md by linarith+
    have e: "c div 4096 * 4096 + c div 64 mod 64 * 64 + c mod 64 = c" by (rule six_bits3)
    have nl: "\<not> c < 128" "\<not> c < 2048" using 3 by simp_all
    have "map unat (utf8_char c) = [224 + c div 4096, 128 + c div 64 mod 64, 128 + c mod 64]"
      using 3 nl by (simp only: utf8_char_def if_True if_False list.map
          unat_byte_of[OF b(1)] unat_byte_of[OF b(2)] unat_byte_of[OF b(3)])
    with b m e 3 assms show ?thesis by (simp add: decode_char.simps Let_def)
  next
    case 4
    have hi: "c div 262144 < 5" using c by (intro less_mult_imp_div_less) simp
    have md: "c mod 64 < 64" "c div 64 mod 64 < 64" "c div 4096 mod 64 < 64" by simp_all
    have b: "240 + c div 262144 < 256" "128 + c div 4096 mod 64 < 256" "128 + c div 64 mod 64 < 256"
      "128 + c mod 64 < 256" "240 \<le> 240 + c div 262144" "240 + c div 262144 < 245"
      using hi md by linarith+
    have e: "c div 262144 * 262144 + c div 4096 mod 64 * 4096 + c div 64 mod 64 * 64 + c mod 64 = c"
      by (rule six_bits4)
    have nl: "\<not> c < 128" "\<not> c < 2048" "\<not> c < 65536" using 4 by simp_all
    have "map unat (utf8_char c)
        = [240 + c div 262144, 128 + c div 4096 mod 64, 128 + c div 64 mod 64, 128 + c mod 64]"
      using nl by (simp only: utf8_char_def if_True if_False list.map
          unat_byte_of[OF b(1)] unat_byte_of[OF b(2)] unat_byte_of[OF b(3)] unat_byte_of[OF b(4)])
    with b m e 4 assms show ?thesis by (simp add: decode_char.simps Let_def)
  qed
qed

lemma from_utf8_utf8: "valid_string s \<Longrightarrow> from_utf8 (utf8 s) = Some s"
proof (induction s)
  case Nil
  then show ?case by (simp add: from_utf8_def utf8_def decode_chars.simps)
next
  case (Cons c s)
  have ne: "map unat (utf8_char c) @ map unat (utf8 s) \<noteq> []"
    using length_utf8_char[of c] len_utf8_pos[of c] by (cases "utf8_char c") auto
  have "decode_char (map unat (utf8_char c) @ map unat (utf8 s)) = Some (c, map unat (utf8 s))"
    using Cons.prems by (intro decode_char_utf8) (simp add: valid_string_def)
  then have "decode_chars (map unat (utf8_char c) @ map unat (utf8 s))
      = map_option ((#) c) (decode_chars (map unat (utf8 s)))"
    using ne by (subst decode_chars.simps) (simp only: if_False option.case prod.case)
  moreover have "decode_chars (map unat (utf8 s)) = Some s"
    using Cons by (simp add: valid_string_def from_utf8_def)
  ultimately show ?case by (simp add: from_utf8_def utf8_def)
qed

lemma div_mod_digits:
  "y < 64 \<Longrightarrow> (x * 64 + y) div 64 = x" "y < 64 \<Longrightarrow> (x * 64 + y) mod 64 = (y :: nat)"
  by simp_all

lemma decode_char_sound:
  assumes "decode_char ns = Some (c, rest)"
  shows "scalar c \<and> (map unat (utf8_char c) @ rest = ns)"
proof (cases ns)
  case Nil
  with assms show ?thesis by (simp add: decode_char.simps)
next
  case (Cons b0 bs)
  note dc = assms[unfolded Cons decode_char.simps]
  consider "b0 < 128" | "194 \<le> b0" "b0 < 224" | "224 \<le> b0" "b0 < 240" | "240 \<le> b0" "b0 < 245"
    using dc by (auto split: if_splits)
  then show ?thesis
  proof cases
    case 1
    with dc have "c = b0" "rest = bs" by simp_all
    with 1 show ?thesis using unat_byte_of[of b0] by (simp add: utf8_char_def scalar_def Cons)
  next
    case 2
    with dc obtain b1 where bs: "bs = b1 # rest" "cont b1" "c = (b0 - 192) * 64 + (b1 - 128)"
      by (auto split: list.splits if_splits)
    define x y where "x = b0 - 192" and "y = b1 - 128"
    have xy: "b0 = 192 + x" "b1 = 128 + y" "y < 64" "2 \<le> x" "x < 32" "c = x * 64 + y"
      using 2 bs by (auto simp: x_def y_def cont_def)
    have d: "c div 64 = x" "c mod 64 = y" using xy by simp_all
    have r: "\<not> c < 128" "c < 2048" using xy by linarith+
    have b: "192 + x < 256" "128 + y < 256" using xy by linarith+
    have "map unat (utf8_char c) = [192 + x, 128 + y]"
      using r by (simp only: utf8_char_def if_True if_False list.map d unat_byte_of[OF b(1)] unat_byte_of[OF b(2)])
    with r xy bs show ?thesis by (simp add: Cons scalar_def)
  next
    case 3
    with dc obtain b1 b2 where bs: "bs = b1 # b2 # rest" "cont b1" "cont b2" "2048 \<le> c" "scalar c"
        "c = (b0 - 224) * 4096 + (b1 - 128) * 64 + (b2 - 128)"
      by (auto simp: Let_def split: list.splits if_splits)
    define x y z where "x = b0 - 224" and "y = b1 - 128" and "z = b2 - 128"
    have c0: "c = x * 4096 + y * 64 + z" by (simp only: bs(6) x_def y_def z_def)
    then have c: "c = (x * 64 + y) * 64 + z" by simp
    have "b0 = 224 + x" "b1 = 128 + y" "b2 = 128 + z" "y < 64" "z < 64" "x < 16"
      using 3 bs(2,3) by (auto simp: x_def y_def z_def cont_def)
    note xy = this c
    have q: "c div 64 = x * 64 + y" "c mod 64 = z" using xy(5) by (simp_all only: c div_mod_digits)
    have "c div 4096 = c div 64 div 64" by (simp add: div_mult2_eq[symmetric])
    then have d: "c div 4096 = x" "c div 64 mod 64 = y" using xy by (simp_all only: q div_mod_digits)
    have r: "\<not> c < 128" "\<not> c < 2048"
      using bs(4) by linarith+
    have r2: "c < 65536" using xy(4-6) c0 by linarith
    have b: "224 + x < 256" "128 + y < 256" "128 + z < 256" using xy by linarith+
    have "map unat (utf8_char c) = [224 + x, 128 + y, 128 + z]"
      using r r2 by (simp only: utf8_char_def if_True if_False list.map d q(2) unat_byte_of[OF b(1)]
          unat_byte_of[OF b(2)] unat_byte_of[OF b(3)])
    with xy bs show ?thesis by (simp add: Cons)
  next
    case 4
    with dc obtain b1 b2 b3 where bs: "bs = b1 # b2 # b3 # rest" "cont b1" "cont b2" "cont b3"
        "65536 \<le> c" "scalar c"
        "c = (b0 - 240) * 262144 + (b1 - 128) * 4096 + (b2 - 128) * 64 + (b3 - 128)"
      by (auto simp: Let_def split: list.splits if_splits)
    define x y z w where "x = b0 - 240" and "y = b1 - 128" and "z = b2 - 128" and "w = b3 - 128"
    have "c = x * 262144 + y * 4096 + z * 64 + w" by (simp only: bs(7) x_def y_def z_def w_def)
    then have c: "c = ((x * 64 + y) * 64 + z) * 64 + w" by simp
    have "b0 = 240 + x" "b1 = 128 + y" "b2 = 128 + z" "b3 = 128 + w" "y < 64" "z < 64" "w < 64" "x < 5"
      using 4 bs(2-4) by (auto simp: x_def y_def z_def w_def cont_def)
    note xy = this c
    have q: "c div 64 = (x * 64 + y) * 64 + z" "c mod 64 = w" using xy(7) by (simp_all only: c div_mod_digits)
    have "c div 4096 = c div 64 div 64" by (simp add: div_mult2_eq[symmetric])
    then have q2: "c div 4096 = x * 64 + y" "c div 64 mod 64 = z"
      using xy(6) by (simp_all only: q div_mod_digits)
    have "c div 262144 = c div 4096 div 64" by (simp add: div_mult2_eq[symmetric])
    then have d: "c div 262144 = x" "c div 4096 mod 64 = y"
      using xy(5) by (simp_all only: q2 div_mod_digits)
    have r: "\<not> c < 128" "\<not> c < 2048" "\<not> c < 65536" using bs(5) by linarith+
    have b: "240 + x < 256" "128 + y < 256" "128 + z < 256" "128 + w < 256" using xy by linarith+
    have "map unat (utf8_char c) = [240 + x, 128 + y, 128 + z, 128 + w]"
      using r by (simp only: utf8_char_def if_True if_False list.map d q2(2) q(2) unat_byte_of[OF b(1)]
          unat_byte_of[OF b(2)] unat_byte_of[OF b(3)] unat_byte_of[OF b(4)])
    with xy bs show ?thesis by (simp add: Cons)
  qed
qed

lemma decode_chars_sound:
  "decode_chars ns = Some s \<Longrightarrow> valid_string s \<and> map unat (utf8 s) = ns"
proof (induction ns arbitrary: s rule: decode_chars.induct)
  case (1 ns)
  show ?case
  proof (cases "ns = []")
    case True
    with "1.prems" show ?thesis by (simp add: decode_chars.simps valid_string_def utf8_def)
  next
    case False
    with "1.prems" obtain c rest s' where dc: "decode_char ns = Some (c, rest)"
      and s': "decode_chars rest = Some s'" "s = c # s'"
      by (subst (asm) decode_chars.simps) (auto split: option.splits)
    have "valid_string s' \<and> map unat (utf8 s') = rest"
      using False dc s'(1) by (intro "1.IH") simp_all
    with decode_char_sound[OF dc] s' show ?thesis
      by (simp add: valid_string_def utf8_def)
  qed
qed

lemma from_utf8_sound: "from_utf8 bs = Some s \<Longrightarrow> valid_string s \<and> utf8 s = bs"
  using decode_chars_sound[of "map unat bs" s]
  by (auto simp: from_utf8_def inj_map_eq_map[of unat] inj_def word_unat_eq_iff)

end
