(* ===== verification/Wire.thy ===== *)
theory Wire
  imports Audio_Format Utf8 "HOL-Library.Monad_Syntax"
begin

text \<open>
  \<open>src/src/protocol/wire.rs\<close>: the 46-byte packet header and the four packet bodies. An array
  \<open>[u8; 16]\<close> or \<open>[u32; 5]\<close> is a list; the \<open>wf_\<close> predicates give the lengths that the Rust types
  enforce. \<open>?\<close> on an \<open>Option\<close> is the bind of the option monad.
\<close>

section \<open>Constants\<close>

definition MAGIC :: "byte list" where "MAGIC = [82, 65, 85, 50]"
definition VERSION :: byte where "VERSION = 2"
definition HEADER_LEN :: nat where "HEADER_LEN = 46"
definition KIND_HELLO :: byte where "KIND_HELLO = 1"
definition KIND_AUDIO :: byte where "KIND_AUDIO = 2"
definition KIND_FEEDBACK :: byte where "KIND_FEEDBACK = 3"
definition KIND_PROBE :: byte where "KIND_PROBE = 4"
definition AUDIO_PREFIX :: nat where "AUDIO_PREFIX = 19"
definition FEEDBACK_BODY_LEN :: nat where "FEEDBACK_BODY_LEN = 82"

lemmas kind_defs = KIND_HELLO_def KIND_AUDIO_def KIND_FEEDBACK_def KIND_PROBE_def
lemmas wire_consts = HEADER_LEN_def MAX_DATAGRAM_def AUDIO_PREFIX_def FEEDBACK_BODY_LEN_def

section \<open>Bodies and header\<close>

record audio_body =
  seq :: u64
  send_ts_us :: u64
  codec :: byte
  buffer_ms :: u16
  payload :: "byte list"

record feedback_body =
  echo_send_ts_us :: u64
  delay_us :: u32
  echo_seq :: u64
  received :: u32
  lost :: u32
  jitter_us :: u32
  underruns :: u32
  fb_buffer_ms :: u16
  probe_gen :: u32
  probe_bytes :: "u32 list"
  probe_recv_span_us :: "u32 list"

record probe_body =
  gen :: u32
  step :: byte
  probe_send_ts_us :: u64
  probe_payload :: "byte list"

record header_view =
  kind :: byte
  epoch :: "byte list"
  session :: "byte list"
  counter :: u64
  aad :: "byte list"
  ciphertext :: "byte list"

definition wf_feedback :: "feedback_body \<Rightarrow> bool" where
  "wf_feedback b \<longleftrightarrow> length (probe_bytes b) = 5 \<and> length (probe_recv_span_us b) = 5"

section \<open>Packets\<close>

definition parse_packet :: "byte list \<Rightarrow> header_view option" where
  "parse_packet pkt =
     (if length pkt < HEADER_LEN + 16 \<or> MAX_DATAGRAM < length pkt then None
      else do {
        magic \<leftarrow> get_range pkt 0 4;
        version \<leftarrow> get_at pkt 4;
        if magic \<noteq> MAGIC \<or> version \<noteq> VERSION then None
        else do {
          knd \<leftarrow> get_at pkt 5;
          if \<not> (KIND_HELLO \<le> knd \<and> knd \<le> KIND_PROBE) then None
          else do {
            ep \<leftarrow> get_range pkt 6 22;
            sess \<leftarrow> get_range pkt 22 38;
            cnt \<leftarrow> get_range pkt 38 46;
            let ctr = u64_from_be cnt;
            if ctr = 0 then None
            else Some \<lparr>kind = knd, epoch = ep, session = sess, counter = ctr,
                   aad = take HEADER_LEN pkt, ciphertext = drop HEADER_LEN pkt\<rparr>
          }
        }
      })"

definition assemble ::
  "byte \<Rightarrow> byte list \<Rightarrow> byte list \<Rightarrow> u64 \<Rightarrow> byte list \<Rightarrow> byte list option" where
  "assemble knd ep sess ctr ct =
     (if ctr = 0 \<or> MAX_DATAGRAM < HEADER_LEN + length ct then None
      else
        let out = replicate (HEADER_LEN + length ct) 0;
            out = copy_at 0 MAGIC out;
            out = out[4 := VERSION];
            out = out[5 := knd];
            out = copy_at 6 ep out;
            out = copy_at 22 sess out;
            out = copy_at 38 (u64_be ctr) out;
            out = copy_at HEADER_LEN ct out
        in Some out)"

section \<open>Names\<close>

text \<open>The loop of \<open>clip_name\<close>: characters are pushed while the result stays within 64 bytes.\<close>

fun clip_loop :: "rstring \<Rightarrow> rstring \<Rightarrow> rstring" where
  "clip_loop out [] = out"
| "clip_loop out (ch # chs) =
     (if 64 < str_len out + len_utf8 ch then out else clip_loop (out @ [ch]) chs)"

definition clip_name :: "rstring \<Rightarrow> rstring" where
  "clip_name name = clip_loop [] name"

definition encode_hello :: "rstring \<Rightarrow> byte list option" where
  "encode_hello name =
     (let name = clip_name name
      in if 64 < str_len name then None
         else if 255 < str_len name then None
         else Some (of_nat (str_len name) # utf8 name))"

definition decode_hello :: "byte list \<Rightarrow> rstring option" where
  "decode_hello body = do {
     b \<leftarrow> get_at body 0;
     let n = unat b;
     if length body \<noteq> 1 + n \<or> 64 < n then None
     else do { raw \<leftarrow> get_range body 1 (1 + n); from_utf8 raw }
   }"

section \<open>Audio, feedback and probe bodies\<close>

definition encode_audio :: "audio_body \<Rightarrow> byte list option" where
  "encode_audio b =
     (if MAX_DATAGRAM < length (payload b) then None
      else Some (u64_be (seq b) @ u64_be (send_ts_us b) @ [codec b] @ u16_be (buffer_ms b) @ payload b))"

definition decode_audio :: "byte list \<Rightarrow> audio_body option" where
  "decode_audio body =
     (if length body < AUDIO_PREFIX \<or> MAX_DATAGRAM < length body then None
      else do {
        pl \<leftarrow> get_range body AUDIO_PREFIX (length body);
        s \<leftarrow> get_range body 0 8;
        ts \<leftarrow> get_range body 8 16;
        c \<leftarrow> get_at body 16;
        bm \<leftarrow> get_range body 17 19;
        Some \<lparr>seq = u64_from_be s, send_ts_us = u64_from_be ts, codec = c,
              buffer_ms = u16_from_be bm, payload = pl\<rparr>
      })"

definition encode_feedback :: "feedback_body \<Rightarrow> byte list" where
  "encode_feedback b =
     u64_be (echo_send_ts_us b) @ u32_be (delay_us b) @ u64_be (echo_seq b) @ u32_be (received b)
     @ u32_be (lost b) @ u32_be (jitter_us b) @ u32_be (underruns b) @ u16_be (fb_buffer_ms b)
     @ u32_be (probe_gen b) @ concat (map u32_be (probe_bytes b))
     @ concat (map u32_be (probe_recv_span_us b))"

text \<open>The two slot loops: slot \<open>i\<close> is read at offset \<open>base + 4 * i\<close>.\<close>

fun read_slots :: "byte list \<Rightarrow> nat \<Rightarrow> nat list \<Rightarrow> u32 list option" where
  "read_slots body base [] = Some []"
| "read_slots body base (i # is) =
     do { raw \<leftarrow> get_range body (base + i * 4) (base + i * 4 + 4);
          rest \<leftarrow> read_slots body base is;
          Some (u32_from_be raw # rest) }"

definition decode_feedback :: "byte list \<Rightarrow> feedback_body option" where
  "decode_feedback body =
     (if length body \<noteq> FEEDBACK_BODY_LEN then None
      else do {
        pb \<leftarrow> read_slots body 42 [0..<5];
        pr \<leftarrow> read_slots body 62 [0..<5];
        a \<leftarrow> get_range body 0 8;
        d \<leftarrow> get_range body 8 12;
        s \<leftarrow> get_range body 12 20;
        r \<leftarrow> get_range body 20 24;
        l \<leftarrow> get_range body 24 28;
        j \<leftarrow> get_range body 28 32;
        u \<leftarrow> get_range body 32 36;
        bm \<leftarrow> get_range body 36 38;
        g \<leftarrow> get_range body 38 42;
        Some \<lparr>echo_send_ts_us = u64_from_be a, delay_us = u32_from_be d, echo_seq = u64_from_be s,
          received = u32_from_be r, lost = u32_from_be l, jitter_us = u32_from_be j,
          underruns = u32_from_be u, fb_buffer_ms = u16_from_be bm, probe_gen = u32_from_be g,
          probe_bytes = pb, probe_recv_span_us = pr\<rparr>
      })"

definition encode_probe :: "probe_body \<Rightarrow> byte list option" where
  "encode_probe b =
     (if 1000 < length (probe_payload b) \<or> 4 < step b then None
      else Some (u32_be (gen b) @ [step b] @ u64_be (probe_send_ts_us b) @ probe_payload b))"

definition decode_probe :: "byte list \<Rightarrow> probe_body option" where
  "decode_probe body =
     (if length body < 13 \<or> 13 + 1000 < length body then None
      else do {
        st \<leftarrow> get_at body 4;
        if 4 < st then None
        else do {
          g \<leftarrow> get_range body 0 4;
          ts \<leftarrow> get_range body 5 13;
          pl \<leftarrow> get_range body 13 (length body);
          Some \<lparr>gen = u32_from_be g, step = st, probe_send_ts_us = u64_from_be ts, probe_payload = pl\<rparr>
        }
      })"

section \<open>Reading fields back\<close>

lemma get_range_field:
  "length xs = a \<Longrightarrow> b = a + length ys \<Longrightarrow> get_range (xs @ ys @ zs) a b = Some ys"
  by (simp add: get_range_def subslice_def)

lemma get_range_iff: "get_range xs a b = Some ys \<longleftrightarrow> a \<le> b \<and> b \<le> length xs \<and> ys = subslice a b xs"
  by (auto simp: get_range_def)

lemma get_at_iff: "get_at xs i = Some y \<longleftrightarrow> i < length xs \<and> y = xs ! i"
  by (auto simp: get_at_def)

lemma subslice_single: "i < length xs \<Longrightarrow> subslice i (i + 1) xs = [xs ! i]"
  by (simp add: subslice_def take_Suc_conv_app_nth flip: One_nat_def)
    (metis Cons_nth_drop_Suc One_nat_def take_Suc_Cons take0)

lemma subslice_0: "subslice 0 n xs = take n xs"
  by (simp add: subslice_def)

lemma subslice_end: "subslice n (length xs) xs = drop n xs"
  by (simp add: subslice_def)

text \<open>Consecutive slices glue together; used from the right end inwards.\<close>

lemma subslice_join: "a \<le> b \<Longrightarrow> b \<le> c \<Longrightarrow> subslice a b xs @ subslice b c xs = subslice a c xs"
  by (simp add: subslice_split[of a b c])

lemma be_subslice:
  "a + 2 \<le> length xs \<Longrightarrow> u16_be (u16_from_be (subslice a (a + 2) xs)) = subslice a (a + 2) xs"
  "a + 4 \<le> length xs \<Longrightarrow> u32_be (u32_from_be (subslice a (a + 4) xs)) = subslice a (a + 4) xs"
  "a + 8 \<le> length xs \<Longrightarrow> u64_be (u64_from_be (subslice a (a + 8) xs)) = subslice a (a + 8) xs"
  by (simp_all add: word_be_from_be)

section \<open>The header\<close>

lemma assemble_layout:
  assumes "length ep = 16" and "length sess = 16"
  shows "assemble knd ep sess ctr ct =
     (if ctr = 0 \<or> MAX_DATAGRAM < HEADER_LEN + length ct then None
      else Some (MAGIC @ [VERSION, knd] @ ep @ sess @ u64_be ctr @ ct))"
  using assms
  by (simp add: assemble_def copy_at_def HEADER_LEN_def MAGIC_def upd_conv_take_nth_drop Let_def)

lemma length_assemble:
  assumes "length ep = 16" and "length sess = 16" and "assemble knd ep sess ctr ct = Some pkt"
  shows "length pkt = HEADER_LEN + length ct" and "length pkt \<le> MAX_DATAGRAM"
  using assms by (auto simp: assemble_layout MAGIC_def wire_consts split: if_splits)

lemma parse_assemble:
  assumes "length ep = 16" and "length sess = 16" and "16 \<le> length ct"
    and "KIND_HELLO \<le> knd" and "knd \<le> KIND_PROBE"
    and "assemble knd ep sess ctr ct = Some pkt"
  shows "parse_packet pkt = Some \<lparr>kind = knd, epoch = ep, session = sess, counter = ctr,
    aad = MAGIC @ [VERSION, knd] @ ep @ sess @ u64_be ctr, ciphertext = ct\<rparr>"
proof -
  let ?hdr = "MAGIC @ [VERSION, knd] @ ep @ sess @ u64_be ctr"
  have pkt: "pkt = ?hdr @ ct" and ctr: "ctr \<noteq> 0" and max: "46 + length ct \<le> 1200"
    using assms by (auto simp: assemble_layout wire_consts split: if_splits)
  have hdr: "length ?hdr = 46" using assms by (simp add: MAGIC_def)
  have 1: "get_range pkt 0 4 = Some MAGIC" "get_at pkt 4 = Some VERSION" "get_at pkt 5 = Some knd"
    using assms by (simp_all add: pkt get_range_def get_at_def subslice_def MAGIC_def)
  have 2: "get_range pkt 6 22 = Some ep"
    using get_range_field[of "MAGIC @ [VERSION, knd]" 6 22 ep "sess @ u64_be ctr @ ct"] assms
    by (simp add: pkt MAGIC_def)
  have 3: "get_range pkt 22 38 = Some sess"
    using get_range_field[of "MAGIC @ [VERSION, knd] @ ep" 22 38 sess "u64_be ctr @ ct"] assms
    by (simp add: pkt MAGIC_def)
  have 4: "get_range pkt 38 46 = Some (u64_be ctr)"
    using get_range_field[of "MAGIC @ [VERSION, knd] @ ep @ sess" 38 46 "u64_be ctr" ct] assms
    by (simp add: pkt MAGIC_def)
  have 5: "take HEADER_LEN pkt = ?hdr" "drop HEADER_LEN pkt = ct"
    using hdr by (simp_all add: pkt HEADER_LEN_def del: append_assoc append_Cons append_Nil)
  have len: "\<not> (length pkt < HEADER_LEN + 16 \<or> MAX_DATAGRAM < length pkt)"
    using hdr max assms(3) by (simp add: pkt wire_consts)
  show ?thesis
    using len ctr assms(4,5) by (simp add: parse_packet_def 1 2 3 4 5 Let_def)
qed

lemma assemble_parse:
  assumes "parse_packet pkt = Some v"
  shows "assemble (kind v) (epoch v) (session v) (counter v) (ciphertext v) = Some pkt"
    and "length (epoch v) = 16" "length (session v) = 16" "16 \<le> length (ciphertext v)"
    and "KIND_HELLO \<le> kind v" "kind v \<le> KIND_PROBE" "counter v \<noteq> 0"
    and "aad v = take HEADER_LEN pkt"
proof -
  have len: "62 \<le> length pkt" "length pkt \<le> 1200"
    using assms by (auto simp: parse_packet_def wire_consts split: if_splits)
  have v: "take 4 pkt = MAGIC" "pkt ! 4 = VERSION" "KIND_HELLO \<le> pkt ! 5" "pkt ! 5 \<le> KIND_PROBE"
    "u64_from_be (subslice 38 46 pkt) \<noteq> 0"
    "v = \<lparr>kind = pkt ! 5, epoch = subslice 6 22 pkt, session = subslice 22 38 pkt,
       counter = u64_from_be (subslice 38 46 pkt), aad = take 46 pkt, ciphertext = drop 46 pkt\<rparr>"
    using assms len
    by (auto simp: parse_packet_def Let_def get_range_def get_at_def wire_consts subslice_0
        split: if_splits)
  have "subslice 4 6 pkt = [VERSION, pkt ! 5]"
    using len subslice_join[of 4 5 6 pkt] subslice_single[of 4 pkt] subslice_single[of 5 pkt] v(2)
    by simp
  moreover have "u64_be (u64_from_be (subslice 38 46 pkt)) = subslice 38 46 pkt"
    using be_subslice(3)[of 38 pkt] len by simp
  moreover have "take 4 pkt @ subslice 4 6 pkt @ subslice 6 22 pkt @ subslice 22 38 pkt
      @ subslice 38 46 pkt @ drop 46 pkt = pkt"
    using len by (simp add: subslice_join subslice_end[symmetric] subslice_0[symmetric])
  ultimately have "MAGIC @ [VERSION, pkt ! 5] @ subslice 6 22 pkt @ subslice 22 38 pkt
      @ u64_be (u64_from_be (subslice 38 46 pkt)) @ drop 46 pkt = pkt"
    using v(1) by (simp del: append_Cons)
  then show "assemble (kind v) (epoch v) (session v) (counter v) (ciphertext v) = Some pkt"
    using len v by (simp add: assemble_layout wire_consts)
  show "length (epoch v) = 16" "length (session v) = 16" "16 \<le> length (ciphertext v)"
    "KIND_HELLO \<le> kind v" "kind v \<le> KIND_PROBE" "counter v \<noteq> 0" "aad v = take HEADER_LEN pkt"
    using v len by (simp_all add: HEADER_LEN_def)
qed

text \<open>
  C13. Header round trip, both directions at once. A datagram parses to a view exactly when
  assembling the view's fields gives that datagram back, the kind is one of the four, the ids have
  16 bytes, there is room for the 16-byte tag, and the associated data is the 46-byte header
  itself: nothing in the header is outside the authenticated bytes.
\<close>

theorem parse_packet_iff:
  "parse_packet pkt = Some v \<longleftrightarrow>
     assemble (kind v) (epoch v) (session v) (counter v) (ciphertext v) = Some pkt
     \<and> KIND_HELLO \<le> kind v \<and> kind v \<le> KIND_PROBE
     \<and> length (epoch v) = 16 \<and> length (session v) = 16 \<and> 16 \<le> length (ciphertext v)
     \<and> aad v = take HEADER_LEN pkt"
proof
  assume "parse_packet pkt = Some v"
  then show "assemble (kind v) (epoch v) (session v) (counter v) (ciphertext v) = Some pkt
     \<and> KIND_HELLO \<le> kind v \<and> kind v \<le> KIND_PROBE
     \<and> length (epoch v) = 16 \<and> length (session v) = 16 \<and> 16 \<le> length (ciphertext v)
     \<and> aad v = take HEADER_LEN pkt"
    using assemble_parse[of pkt v] by blast
next
  assume a: "assemble (kind v) (epoch v) (session v) (counter v) (ciphertext v) = Some pkt
     \<and> KIND_HELLO \<le> kind v \<and> kind v \<le> KIND_PROBE
     \<and> length (epoch v) = 16 \<and> length (session v) = 16 \<and> 16 \<le> length (ciphertext v)
     \<and> aad v = take HEADER_LEN pkt"
  then have p: "parse_packet pkt = Some \<lparr>kind = kind v, epoch = epoch v, session = session v,
      counter = counter v, aad = MAGIC @ [VERSION, kind v] @ epoch v @ session v @ u64_be (counter v),
      ciphertext = ciphertext v\<rparr>"
    by (intro parse_assemble) simp_all
  from assemble_parse(8)[OF p] a p show "parse_packet pkt = Some v" by (cases v) simp
qed

lemma parse_packet_ctr: "parse_packet pkt = Some v \<Longrightarrow> counter v \<noteq> 0"
  by (rule assemble_parse)

section \<open>Bodies\<close>

lemma audio_body_inverse:
  "decode_audio bs = Some b \<longleftrightarrow> encode_audio b = Some bs \<and> length bs \<le> MAX_DATAGRAM"
proof
  assume dec: "decode_audio bs = Some b"
  then have len: "19 \<le> length bs" "length bs \<le> 1200"
    by (auto simp: decode_audio_def wire_consts split: if_splits)
  have b: "b = \<lparr>seq = u64_from_be (subslice 0 8 bs), send_ts_us = u64_from_be (subslice 8 16 bs),
      codec = bs ! 16, buffer_ms = u16_from_be (subslice 17 19 bs), payload = subslice 19 (length bs) bs\<rparr>"
    using dec len by (auto simp: decode_audio_def get_range_def get_at_def wire_consts)
  have "subslice 0 8 bs @ subslice 8 16 bs @ [bs ! 16] @ subslice 17 19 bs @ subslice 19 (length bs) bs = bs"
    using len subslice_single[of 16 bs, symmetric]
    by (simp add: subslice_join del: append_Cons append_Nil)
  moreover have "u64_be (u64_from_be (subslice 0 8 bs)) = subslice 0 8 bs"
    "u64_be (u64_from_be (subslice 8 16 bs)) = subslice 8 16 bs"
    "u16_be (u16_from_be (subslice 17 19 bs)) = subslice 17 19 bs"
    using len be_subslice(3)[of 0 bs] be_subslice(3)[of 8 bs] be_subslice(1)[of 17 bs] by simp_all
  ultimately show "encode_audio b = Some bs \<and> length bs \<le> MAX_DATAGRAM"
    using len by (simp add: encode_audio_def b wire_consts del: append_Cons)
next
  assume enc: "encode_audio b = Some bs \<and> length bs \<le> MAX_DATAGRAM"
  then have bs: "bs = u64_be (seq b) @ u64_be (send_ts_us b) @ [codec b] @ u16_be (buffer_ms b) @ payload b"
    by (simp add: encode_audio_def split: if_splits)
  then have len: "length bs = 19 + length (payload b)" by simp
  have "get_range bs 0 8 = Some (u64_be (seq b))" "get_range bs 8 16 = Some (u64_be (send_ts_us b))"
    "get_at bs 16 = Some (codec b)" "get_range bs 17 19 = Some (u16_be (buffer_ms b))"
    "get_range bs 19 (length bs) = Some (payload b)"
    by (simp_all add: len) (simp_all add: bs get_range_def get_at_def subslice_def nth_append)
  then show "decode_audio bs = Some b"
    using enc len by (simp add: decode_audio_def wire_consts)
qed

text \<open>
  The audio body round trip: a body decodes to a value exactly when the value encodes to it
  and it fits a datagram; so decoding never invents a field and every encoded body that fits is
  read back unchanged.
\<close>

theorem decode_audio_iff:
  "decode_audio bs = Some b \<longleftrightarrow> encode_audio b = Some bs \<and> length bs \<le> MAX_DATAGRAM"
  by (rule audio_body_inverse)

lemma upt5: "[0..<5] = [0, 1, 2, 3, 4 :: nat]"
  by (simp add: upt_rec)

lemma list5: "length xs = 5 \<Longrightarrow> \<exists>a b c d e. xs = [a, b, c, d, e]"
  by (auto simp: numeral_eq_Suc length_Suc_conv)

lemma feedback_body_inverse:
  "decode_feedback bs = Some b \<longleftrightarrow> wf_feedback b \<and> encode_feedback b = bs"
proof
  assume dec: "decode_feedback bs = Some b"
  then have len: "length bs = 82" by (auto simp: decode_feedback_def wire_consts split: if_splits)
  let ?w = "\<lambda>k. u32_from_be (subslice k (k + 4) bs)"
  have b: "b = \<lparr>echo_send_ts_us = u64_from_be (subslice 0 8 bs), delay_us = ?w 8,
      echo_seq = u64_from_be (subslice 12 20 bs), received = ?w 20, lost = ?w 24, jitter_us = ?w 28,
      underruns = ?w 32, fb_buffer_ms = u16_from_be (subslice 36 38 bs), probe_gen = ?w 38,
      probe_bytes = [?w 42, ?w 46, ?w 50, ?w 54, ?w 58],
      probe_recv_span_us = [?w 62, ?w 66, ?w 70, ?w 74, ?w 78]\<rparr>"
    using dec len by (simp add: decode_feedback_def get_range_def upt5 wire_consts)
  have w: "u32_be (?w k) = subslice k (k + 4) bs" if "k + 4 \<le> 82" for k
    using that len be_subslice(2)[of k bs] by simp
  have "u64_be (u64_from_be (subslice 0 8 bs)) = subslice 0 8 bs"
    "u64_be (u64_from_be (subslice 12 20 bs)) = subslice 12 20 bs"
    "u16_be (u16_from_be (subslice 36 38 bs)) = subslice 36 38 bs"
    using len be_subslice(3)[of 0 bs] be_subslice(3)[of 12 bs] be_subslice(1)[of 36 bs] by simp_all
  moreover have "subslice 0 82 bs = bs" using subslice_full[of bs] len by simp
  ultimately show "wf_feedback b \<and> encode_feedback b = bs"
    using w[of 8] w[of 20] w[of 24] w[of 28] w[of 32] w[of 38] w[of 42] w[of 46] w[of 50] w[of 54] w[of 58]
      w[of 62] w[of 66] w[of 70] w[of 74] w[of 78]
    by (simp add: b wf_feedback_def encode_feedback_def subslice_join)
next
  assume "wf_feedback b \<and> encode_feedback b = bs"
  then have wf: "length (probe_bytes b) = 5" "length (probe_recv_span_us b) = 5" and bs: "encode_feedback b = bs"
    by (simp_all add: wf_feedback_def)
  obtain p0 p1 p2 p3 p4 q0 q1 q2 q3 q4 where
    pq: "probe_bytes b = [p0, p1, p2, p3, p4]" "probe_recv_span_us b = [q0, q1, q2, q3, q4]"
    using list5[OF wf(1)] list5[OF wf(2)] by blast
  note bs = bs[symmetric, unfolded encode_feedback_def pq]
  have "length bs = 82" by (simp add: bs)
  moreover have "get_range bs 0 8 = Some (u64_be (echo_send_ts_us b))"
    "get_range bs 8 12 = Some (u32_be (delay_us b))" "get_range bs 12 20 = Some (u64_be (echo_seq b))"
    "get_range bs 20 24 = Some (u32_be (received b))" "get_range bs 24 28 = Some (u32_be (lost b))"
    "get_range bs 28 32 = Some (u32_be (jitter_us b))" "get_range bs 32 36 = Some (u32_be (underruns b))"
    "get_range bs 36 38 = Some (u16_be (fb_buffer_ms b))" "get_range bs 38 42 = Some (u32_be (probe_gen b))"
    by (simp_all add: bs get_range_def subslice_def)
  moreover have "get_range bs 42 46 = Some (u32_be p0)" "get_range bs 46 50 = Some (u32_be p1)"
    "get_range bs 50 54 = Some (u32_be p2)" "get_range bs 54 58 = Some (u32_be p3)"
    "get_range bs 58 62 = Some (u32_be p4)" "get_range bs 62 66 = Some (u32_be q0)"
    "get_range bs 66 70 = Some (u32_be q1)" "get_range bs 70 74 = Some (u32_be q2)"
    "get_range bs 74 78 = Some (u32_be q3)" "get_range bs 78 82 = Some (u32_be q4)"
    by (simp_all add: bs get_range_def subslice_def)
  ultimately show "decode_feedback bs = Some b"
    by (simp add: decode_feedback_def upt5 pq FEEDBACK_BODY_LEN_def)
qed

text \<open>
  The feedback body round trip: 82 bytes decode to a report with five-entry arrays exactly
  when the report encodes to them; every other length is rejected.
\<close>

theorem decode_feedback_iff:
  "decode_feedback bs = Some b \<longleftrightarrow> wf_feedback b \<and> encode_feedback b = bs"
  by (rule feedback_body_inverse)

lemma length_encode_feedback: "wf_feedback b \<Longrightarrow> length (encode_feedback b) = FEEDBACK_BODY_LEN"
  using list5[of "probe_bytes b"] list5[of "probe_recv_span_us b"]
  by (auto simp: wf_feedback_def encode_feedback_def FEEDBACK_BODY_LEN_def)

lemma probe_body_inverse:
  "decode_probe bs = Some b \<longleftrightarrow> encode_probe b = Some bs"
proof
  assume dec: "decode_probe bs = Some b"
  then have len: "13 \<le> length bs" "length bs \<le> 1013" and st: "\<not> 4 < bs ! 4"
    by (auto simp: decode_probe_def get_at_def split: if_splits)
  have b: "b = \<lparr>gen = u32_from_be (subslice 0 4 bs), step = bs ! 4,
      probe_send_ts_us = u64_from_be (subslice 5 13 bs), probe_payload = subslice 13 (length bs) bs\<rparr>"
    using dec len st by (simp add: decode_probe_def get_range_def get_at_def)
  have "subslice 0 4 bs @ [bs ! 4] @ subslice 5 13 bs @ subslice 13 (length bs) bs = bs"
    using len subslice_single[of 4 bs, symmetric]
    by (simp add: subslice_join del: append_Cons append_Nil)
  moreover have "u32_be (u32_from_be (subslice 0 4 bs)) = subslice 0 4 bs"
    "u64_be (u64_from_be (subslice 5 13 bs)) = subslice 5 13 bs"
    using len be_subslice(2)[of 0 bs] be_subslice(3)[of 5 bs] by simp_all
  ultimately show "encode_probe b = Some bs"
    using len st by (simp add: encode_probe_def b del: append_Cons)
next
  assume enc: "encode_probe b = Some bs"
  then have bs: "bs = u32_be (gen b) @ [step b] @ u64_be (probe_send_ts_us b) @ probe_payload b"
    and ok: "length (probe_payload b) \<le> 1000" "step b \<le> 4"
    by (auto simp: encode_probe_def split: if_splits)
  then have len: "length bs = 13 + length (probe_payload b)" by simp
  have "get_range bs 0 4 = Some (u32_be (gen b))" "get_at bs 4 = Some (step b)"
    "get_range bs 5 13 = Some (u64_be (probe_send_ts_us b))"
    "get_range bs 13 (length bs) = Some (probe_payload b)"
    by (simp_all add: len) (simp_all add: bs get_range_def get_at_def subslice_def nth_append)
  then show "decode_probe bs = Some b"
    using ok len by (simp add: decode_probe_def not_less)
qed

text \<open>
  The probe body round trip: a body decodes exactly when it encodes, that is for payloads up
  to 1000 bytes and the five probe steps.
\<close>

theorem decode_probe_iff:
  "decode_probe bs = Some b \<longleftrightarrow> encode_probe b = Some bs"
  by (rule probe_body_inverse)

section \<open>Names in a hello\<close>

lemma clip_loop_spec:
  "str_len out \<le> 64 \<Longrightarrow>
   \<exists>taken rest. name = taken @ rest \<and> clip_loop out name = out @ taken
     \<and> str_len (out @ taken) \<le> 64
     \<and> (case rest of [] \<Rightarrow> True | ch # _ \<Rightarrow> 64 < str_len (out @ taken) + len_utf8 ch)"
proof (induction name arbitrary: out)
  case Nil
  then show ?case by simp
next
  case (Cons ch chs)
  show ?case
  proof (cases "64 < str_len out + len_utf8 ch")
    case True
    with Cons.prems show ?thesis by - (rule exI[of _ "[]"], rule exI[of _ "ch # chs"], simp)
  next
    case False
    then have "str_len (out @ [ch]) \<le> 64" by simp
    from Cons.IH[OF this] obtain taken rest where
      "chs = taken @ rest" "clip_loop (out @ [ch]) chs = (out @ [ch]) @ taken"
      "str_len ((out @ [ch]) @ taken) \<le> 64"
      "case rest of [] \<Rightarrow> True | c # _ \<Rightarrow> 64 < str_len ((out @ [ch]) @ taken) + len_utf8 c"
      by blast
    with False show ?thesis by - (rule exI[of _ "ch # taken"], rule exI[of _ rest], cases rest, simp_all)
  qed
qed

lemma clip_name_longest_prefix_raw:
  "\<exists>rest. name = clip_name name @ rest \<and> str_len (clip_name name) \<le> 64
     \<and> (case rest of [] \<Rightarrow> True | ch # _ \<Rightarrow> 64 < str_len (clip_name name) + len_utf8 ch)"
  using clip_loop_spec[of "[]" name] unfolding clip_name_def append_Nil str_len_simps
  by (metis le0)

text \<open>
  \<open>clip_name\<close> keeps the longest prefix of whole characters that fits 64 bytes: the result is a
  prefix, it fits, and if anything was dropped the next character would not have fitted.
\<close>

theorem clip_name_longest_prefix:
  "\<exists>rest. name = clip_name name @ rest \<and> str_len (clip_name name) \<le> 64
     \<and> (case rest of [] \<Rightarrow> True | ch # _ \<Rightarrow> 64 < str_len (clip_name name) + len_utf8 ch)"
  by (rule clip_name_longest_prefix_raw)

lemma clip_name_short:
  assumes "str_len name \<le> 64"
  shows "clip_name name = name"
proof -
  obtain rest where rest: "name = clip_name name @ rest"
    "case rest of [] \<Rightarrow> True | ch # _ \<Rightarrow> 64 < str_len (clip_name name) + len_utf8 ch"
    using clip_name_longest_prefix_raw by blast
  show ?thesis
  proof (cases rest)
    case Nil
    with rest show ?thesis by simp
  next
    case (Cons ch r)
    have "str_len name = str_len (clip_name name) + str_len rest" using rest(1) by (metis str_len_simps(3))
    with rest(2) Cons assms show ?thesis by simp
  qed
qed

lemma clip_name_le: "str_len (clip_name name) \<le> 64"
  using clip_name_longest_prefix_raw by blast

lemma valid_clip_name: "valid_string name \<Longrightarrow> valid_string (clip_name name)"
  using clip_name_longest_prefix_raw[of name] by (auto simp: valid_string_def dest: arg_cong[where f = "list_all scalar"])

lemma hello_inverse:
  "encode_hello name \<noteq> None
   \<and> (decode_hello bs = Some nm \<longleftrightarrow> valid_string nm \<and> str_len nm \<le> 64 \<and> encode_hello nm = Some bs)"
proof -
  have enc: "encode_hello n = Some (of_nat (str_len (clip_name n)) # utf8 (clip_name n))" for n
    using clip_name_le[of n] by (simp add: encode_hello_def Let_def)
  have "decode_hello bs = Some nm \<longleftrightarrow> valid_string nm \<and> str_len nm \<le> 64 \<and> encode_hello nm = Some bs"
  proof
    assume dec: "decode_hello bs = Some nm"
    then obtain b0 raw where bs: "bs = b0 # raw" by (cases bs) (auto simp: decode_hello_def get_at_def)
    with dec have len: "length raw = unat b0" "unat b0 \<le> 64" and "get_range bs 1 (1 + unat b0) \<bind> from_utf8 = Some nm"
      by (auto simp: decode_hello_def get_at_def Let_def split: if_splits)
    then have "from_utf8 raw = Some nm" by (simp add: get_range_def bs subslice_def)
    then have nm: "valid_string nm" "utf8 nm = raw" using from_utf8_sound by auto
    then have "str_len nm = unat b0" using len by (simp add: str_len_def)
    then show "valid_string nm \<and> str_len nm \<le> 64 \<and> encode_hello nm = Some bs"
      using nm len by (simp add: enc clip_name_short bs)
  next
    assume nm: "valid_string nm \<and> str_len nm \<le> 64 \<and> encode_hello nm = Some bs"
    then have bs: "bs = of_nat (str_len nm) # utf8 nm" by (auto simp: enc clip_name_short)
    have n: "unat (of_nat (str_len nm) :: byte) = str_len nm" using nm by (intro unat_byte_of) simp
    show "decode_hello bs = Some nm"
      using nm n by (simp add: decode_hello_def bs get_at_def get_range_def subslice_def Let_def
          str_len_def from_utf8_utf8)
  qed
  with enc show ?thesis by simp
qed

text \<open>
  Hello round trip. \<open>encode_hello\<close> never fails; a body decodes to a name exactly when the
  name is valid UTF-8 text of at most 64 bytes and encodes to that body; and what the receiver
  reads of a valid name is the clipped name.
\<close>

theorem hello_roundtrip:
  "encode_hello name \<noteq> None
   \<and> (decode_hello bs = Some nm \<longleftrightarrow> valid_string nm \<and> str_len nm \<le> 64 \<and> encode_hello nm = Some bs)"
  by (rule hello_inverse)

end
