(* ===== verification/Crypto_Session.thy ===== *)
theory Crypto_Session
  imports Utf8
begin

text \<open>
  \<open>src/src/crypto/session.rs\<close>: invitation tokens, key and nonce derivation, the AEAD direction
  and the discovery MAC. The crates \<open>blake2\<close>, \<open>chacha20poly1305\<close>, \<open>hex\<close> and \<open>subtle\<close> are not part
  of the repository: they are the record \<open>crates\<close>, an argument of every definition that calls
  them, and the \<open>_ok\<close> predicates state the documented behaviour the code relies on.
\<close>

record crates =
  blake2b512 :: "byte list \<Rightarrow> byte list"
  aead_encrypt :: "byte list \<Rightarrow> byte list \<Rightarrow> byte list \<Rightarrow> byte list \<Rightarrow> byte list option"
  aead_decrypt :: "byte list \<Rightarrow> byte list \<Rightarrow> byte list \<Rightarrow> byte list \<Rightarrow> byte list option"
  hex_encode :: "byte list \<Rightarrow> rstring"
  hex_decode :: "rstring \<Rightarrow> byte list option"
  ct_eq :: "byte list \<Rightarrow> byte list \<Rightarrow> bool"

text \<open>A Blake2b-512 digest has 64 bytes.\<close>

definition hash_ok :: "crates \<Rightarrow> bool" where
  "hash_ok l \<longleftrightarrow> (\<forall>m. length (blake2b512 l m) = 64)"

text \<open>
  RFC 8439: with a 32-byte key and a 12-byte nonce, encryption of a message of the sizes used here
  succeeds and appends a 16-byte tag; decryption returns a message exactly when the input is the
  encryption of that message under the same key, nonce and associated data.
\<close>

definition aead_ok :: "crates \<Rightarrow> bool" where
  "aead_ok l \<longleftrightarrow> (\<forall>k n a m c. length k = 32 \<longrightarrow> length n = 12 \<longrightarrow>
     (length m \<le> 65536 \<longrightarrow> (\<exists>c. aead_encrypt l k n a m = Some c))
     \<and> (aead_encrypt l k n a m = Some c \<longrightarrow> length c = length m + 16)
     \<and> (aead_decrypt l k n a c = Some m \<longleftrightarrow> aead_encrypt l k n a m = Some c))"

text \<open>\<open>hex\<close>: two digits \<open>0-9a-f\<close> per byte, and decoding inverts encoding.\<close>

definition hex_digit :: "nat \<Rightarrow> bool" where
  "hex_digit c \<longleftrightarrow> (48 \<le> c \<and> c \<le> 57) \<or> (97 \<le> c \<and> c \<le> 102)"

definition hex_ok :: "crates \<Rightarrow> bool" where
  "hex_ok l \<longleftrightarrow> (\<forall>bs. list_all hex_digit (hex_encode l bs) \<and> hex_decode l (hex_encode l bs) = Some bs)"

datatype crypto_error = InvalidToken | Decrypt | ReplayDetected | CryptoIo

definition TOKEN_BYTES :: nat where "TOKEN_BYTES = 32"

section \<open>Invitations\<close>

text \<open>The random bytes that \<open>OsRng\<close> fills in are an argument.\<close>

definition generate_invitation_token :: "crates \<Rightarrow> byte list \<Rightarrow> rstring" where
  "generate_invitation_token l buf = hex_encode l buf"

definition parse_invitation :: "crates \<Rightarrow> rstring \<Rightarrow> crypto_error + byte list" where
  "parse_invitation l tok =
     (case hex_decode l (trim tok) of
        None \<Rightarrow> Inl InvalidToken
      | Some bs \<Rightarrow> if length bs \<noteq> TOKEN_BYTES then Inl InvalidToken else Inr bs)"

section \<open>Key derivation\<close>

text \<open>The labels are the byte strings of the source, as their ASCII codes.\<close>

definition bytes_of :: "string \<Rightarrow> byte list" where
  "bytes_of s = map (\<lambda>c. of_nat (of_char c)) s"

definition LABEL_S2R :: "byte list" where "LABEL_S2R = bytes_of ''remote-au-s2r-v2''"
definition LABEL_R2S :: "byte list" where "LABEL_R2S = bytes_of ''remote-au-r2s-v2''"
definition LABEL_NONCE_S2R :: "byte list" where "LABEL_NONCE_S2R = bytes_of ''remote-au-nonce-s2r-v2''"
definition LABEL_NONCE_R2S :: "byte list" where "LABEL_NONCE_R2S = bytes_of ''remote-au-nonce-r2s-v2''"
definition LABEL_DISCOVERY :: "byte list" where "LABEL_DISCOVERY = bytes_of ''remote-au-discovery-v2''"
definition LABEL_MAC :: "byte list" where "LABEL_MAC = bytes_of ''remote-au-mac-v2''"

text \<open>What each derivation feeds to the hasher with its \<open>update\<close> calls, in order.\<close>

definition derive_input :: "byte list \<Rightarrow> byte list \<Rightarrow> byte list \<Rightarrow> byte list \<Rightarrow> byte list" where
  "derive_input lab tok ep sess = lab @ tok @ ep @ sess"

definition mac_input :: "byte list \<Rightarrow> byte list \<Rightarrow> byte list" where
  "mac_input key message =
     LABEL_MAC @ u32_be (of_nat (length key)) @ key @ u64_be (of_nat (length message)) @ message"

definition derive32 ::
  "crates \<Rightarrow> byte list \<Rightarrow> byte list \<Rightarrow> byte list \<Rightarrow> byte list \<Rightarrow> byte list" where
  "derive32 l lab tok ep sess = take 32 (blake2b512 l (derive_input lab tok ep sess))"

definition prefix4 :: "crates \<Rightarrow> byte list \<Rightarrow> byte list \<Rightarrow> byte list" where
  "prefix4 l lab key = take 4 (blake2b512 l (lab @ key))"

definition discovery_key :: "crates \<Rightarrow> byte list \<Rightarrow> byte list" where
  "discovery_key l tok = take 32 (blake2b512 l (LABEL_DISCOVERY @ tok))"

definition mac16 :: "crates \<Rightarrow> byte list \<Rightarrow> byte list \<Rightarrow> byte list" where
  "mac16 l key message = take 16 (blake2b512 l (mac_input key message))"

definition mac_eq :: "crates \<Rightarrow> byte list \<Rightarrow> byte list \<Rightarrow> bool" where
  "mac_eq l a b = ct_eq l a b"

section \<open>One direction of a session\<close>

record cipher_dir =
  cipher_key :: "byte list"
  nonce_prefix :: "byte list"

definition cipher_dir_new :: "crates \<Rightarrow> byte list \<Rightarrow> byte list \<Rightarrow> cipher_dir" where
  "cipher_dir_new l key lab = \<lparr>cipher_key = key, nonce_prefix = prefix4 l lab key\<rparr>"

definition nonce :: "cipher_dir \<Rightarrow> u64 \<Rightarrow> byte list" where
  "nonce d ctr =
     (let n = replicate 12 0;
          n = copy_at 0 (nonce_prefix d) n;
          n = copy_at 4 (u64_be ctr) n
      in n)"

definition seal :: "crates \<Rightarrow> cipher_dir \<Rightarrow> u64 \<Rightarrow> byte list \<Rightarrow> byte list \<Rightarrow> crypto_error + byte list" where
  "seal l d ctr ad plaintext =
     (if ctr = 0 then Inl Decrypt
      else case aead_encrypt l (cipher_key d) (nonce d ctr) ad plaintext of
             None \<Rightarrow> Inl Decrypt | Some c \<Rightarrow> Inr c)"

definition open_dir :: "crates \<Rightarrow> cipher_dir \<Rightarrow> u64 \<Rightarrow> byte list \<Rightarrow> byte list \<Rightarrow> crypto_error + byte list" where
  "open_dir l d ctr ad ct =
     (if ctr = 0 then Inl Decrypt
      else case aead_decrypt l (cipher_key d) (nonce d ctr) ad ct of
             None \<Rightarrow> Inl Decrypt | Some m \<Rightarrow> Inr m)"

record direction_keys =
  sender_to_receiver :: cipher_dir
  receiver_to_sender :: cipher_dir

definition derive :: "crates \<Rightarrow> byte list \<Rightarrow> byte list \<Rightarrow> byte list \<Rightarrow> direction_keys" where
  "derive l tok ep sess =
     (let s2r = derive32 l LABEL_S2R tok ep sess;
          r2s = derive32 l LABEL_R2S tok ep sess
      in \<lparr>sender_to_receiver = cipher_dir_new l s2r LABEL_NONCE_S2R,
          receiver_to_sender = cipher_dir_new l r2s LABEL_NONCE_R2S\<rparr>)"

definition dir_ok :: "cipher_dir \<Rightarrow> bool" where
  "dir_ok d \<longleftrightarrow> length (cipher_key d) = 32 \<and> length (nonce_prefix d) = 4"

section \<open>A concrete instance of the crates\<close>

text \<open>
  The predicates above are satisfiable: this instance is not secure, but it has the documented
  interface, and the witnesses use it. Its tag repeats a checksum of key, nonce and data.
\<close>

definition demo_tag :: "byte list \<Rightarrow> byte list \<Rightarrow> byte list \<Rightarrow> byte list \<Rightarrow> byte list" where
  "demo_tag k n a m = replicate 16 (sum_list k + 3 * sum_list n + 5 * sum_list a + 7 * sum_list m)"

definition demo_digit :: "nat \<Rightarrow> nat" where
  "demo_digit d = (if d < 10 then 48 + d else 87 + d)"

definition demo_value :: "nat \<Rightarrow> nat" where
  "demo_value c = (if c < 58 then c - 48 else c - 87)"

fun demo_undigits :: "rstring \<Rightarrow> byte list option" where
  "demo_undigits [] = Some []"
| "demo_undigits [c] = None"
| "demo_undigits (c # d # s) =
     (if hex_digit c \<and> hex_digit d
      then map_option (\<lambda>bs. of_nat (demo_value c * 16 + demo_value d) # bs) (demo_undigits s)
      else None)"

definition demo_crates :: crates where
  "demo_crates = \<lparr>blake2b512 = (\<lambda>m. take 64 (m @ replicate 64 0)),
     aead_encrypt = (\<lambda>k n a m. Some (m @ demo_tag k n a m)),
     aead_decrypt = (\<lambda>k n a c. let m = take (length c - 16) c
        in if 16 \<le> length c \<and> c = m @ demo_tag k n a m then Some m else None),
     hex_encode = (\<lambda>bs. concat (map (\<lambda>b. [demo_digit (unat b div 16), demo_digit (unat b mod 16)]) bs)),
     hex_decode = demo_undigits,
     ct_eq = (=)\<rparr>"

lemma demo_hash_ok: "hash_ok demo_crates"
  by (simp add: hash_ok_def demo_crates_def min_def)

lemma demo_aead_ok: "aead_ok demo_crates"
  by (auto simp: aead_ok_def demo_crates_def demo_tag_def Let_def)

lemma demo_digit_ok: "d < 16 \<Longrightarrow> hex_digit (demo_digit d) \<and> demo_value (demo_digit d) = d"
  by (auto simp: hex_digit_def demo_digit_def demo_value_def)

lemma demo_hex_ok: "hex_ok demo_crates"
proof -
  have "list_all hex_digit (hex_encode demo_crates bs)
      \<and> demo_undigits (hex_encode demo_crates bs) = Some bs" for bs
  proof (induction bs)
    case Nil
    then show ?case by (simp add: demo_crates_def)
  next
    case (Cons b bs)
    have "unat b div 16 < 16" "unat b mod 16 < 16" using byte_lt[of b] by simp_all
    moreover have "(of_nat (unat b div 16 * 16 + unat b mod 16) :: byte) = b"
      by (simp only: div_mult_mod_eq of_nat_unat ucast_id)
    ultimately show ?case using Cons demo_digit_ok by (simp add: demo_crates_def)
  qed
  then show ?thesis by (simp add: hex_ok_def demo_crates_def)
qed

section \<open>Invitations round trip\<close>

lemma hex_digit_not_space: "hex_digit c \<Longrightarrow> \<not> is_whitespace c"
  by (auto simp: hex_digit_def is_whitespace_def)

lemma dropWhile_all_id: "list_all (\<lambda>c. \<not> P c) s \<Longrightarrow> dropWhile P s = s"
  by (cases s) auto

lemma trim_pad:
  assumes "list_all is_whitespace pre" "list_all is_whitespace post" "list_all (\<lambda>c. \<not> is_whitespace c) s"
  shows "trim (pre @ s @ post) = s"
proof -
  have "dropWhile is_whitespace (pre @ s @ post) = dropWhile is_whitespace (s @ post)"
    using assms(1) by (induction pre) auto
  moreover have "dropWhile is_whitespace (s @ post) = (if s = [] then [] else s @ post)"
    using assms(2,3) by (cases s) (auto simp: list_all_iff)
  moreover have "dropWhile is_whitespace (rev post @ rev s) = dropWhile is_whitespace (rev s)"
    by (rule dropWhile_append2) (use assms(2) in \<open>simp add: list_all_iff\<close>)
  moreover have "dropWhile is_whitespace (rev s) = rev s"
    by (rule dropWhile_all_id) (use assms(3) in \<open>simp add: list_all_iff\<close>)
  ultimately show ?thesis by (auto simp: trim_def)
qed

text \<open>
  A generated invitation is read back to the bytes it was made from, with any whitespace
  around it, and any token that does not decode to exactly 32 bytes is refused.
\<close>

theorem invitation_roundtrip:
  assumes "hex_ok l"
    and "list_all is_whitespace pre" and "list_all is_whitespace post"
  shows "parse_invitation l (pre @ generate_invitation_token l buf @ post)
    = (if length buf = TOKEN_BYTES then Inr buf else Inl InvalidToken)"
proof -
  have "list_all (\<lambda>c. \<not> is_whitespace c) (hex_encode l buf)"
    using assms(1) hex_digit_not_space by (auto simp: hex_ok_def list_all_iff)
  with assms show ?thesis
    by (simp add: parse_invitation_def generate_invitation_token_def trim_pad hex_ok_def)
qed

theorem invitation_roundtrip_witness:
  "parse_invitation demo_crates ([32] @ generate_invitation_token demo_crates (replicate 32 7) @ [10, 13])
    = Inr (replicate 32 7)"
  using invitation_roundtrip[OF demo_hex_ok, of "[32]" "[10, 13]" "replicate 32 7"]
  by (simp add: is_whitespace_def TOKEN_BYTES_def)

section \<open>Key derivation is domain separated\<close>

lemmas label_defs = LABEL_S2R_def LABEL_R2S_def LABEL_NONCE_S2R_def LABEL_NONCE_R2S_def
  LABEL_DISCOVERY_def LABEL_MAC_def

lemma labels_differ_early:
  "distinct (map (take 14) [LABEL_S2R, LABEL_R2S, LABEL_NONCE_S2R, LABEL_DISCOVERY, LABEL_MAC])"
  by code_simp

lemma labels_r2s: "take 14 LABEL_NONCE_R2S = take 14 LABEL_NONCE_S2R"
  by code_simp

lemma mac_input_inj:
  assumes len: "length k < 2 ^ 32" "length k' < 2 ^ 32" "length m < 2 ^ 64" "length m' < 2 ^ 64"
    and eq: "mac_input k m = mac_input k' m'"
  shows "k = k' \<and> m = m'"
proof -
  let ?u = "\<lambda>n. u32_be (of_nat n)" and ?v = "\<lambda>n. u64_be (of_nat n)"
  have e: "?u (length k) @ k @ ?v (length m) @ m = ?u (length k') @ k' @ ?v (length m') @ m'"
    using eq by (simp add: mac_input_def)
  then have u: "?u (length k) = ?u (length k')" and r: "k @ ?v (length m) @ m = k' @ ?v (length m') @ m'"
    by (simp_all add: append_eq_append_conv)
  have "u32_from_be (?u (length k)) = u32_from_be (?u (length k'))" using u by simp
  then have "(of_nat (length k) :: u32) = of_nat (length k')" by (simp only: word_from_be)
  then have "unat (of_nat (length k) :: u32) = unat (of_nat (length k') :: u32)" by simp
  then have "length k = length k'" using len(1,2) by (simp add: unat_of_nat)
  with r show ?thesis by (simp add: append_eq_append_conv)
qed

lemma label_lengths [simp]:
  "length LABEL_S2R = 16" "length LABEL_R2S = 16" "length LABEL_NONCE_S2R = 22"
  "length LABEL_NONCE_R2S = 22" "length LABEL_DISCOVERY = 22" "length LABEL_MAC = 16"
  by (simp_all add: label_defs bytes_of_def)

text \<open>The inputs of one kind: a label followed by the rest of the transcript.\<close>

lemma label_separates:
  assumes "a @ xs = b @ ys" "14 \<le> length a" "14 \<le> length b"
  shows "take 14 a = take 14 b"
proof -
  have "take 14 (a @ xs) = take 14 a" "take 14 (b @ ys) = take 14 b"
    using assms(2,3) by simp_all
  with assms(1) show ?thesis by metis
qed

text \<open>
  The hash inputs are domain separated. With a 32-byte token and 16-byte identifiers, two key
  derivations hash the same bytes only for the same direction, token, epoch and session; two MACs
  (of inputs below 4 GiB) only for the same key and message; and no MAC input, discovery-key
  input, nonce-prefix input or key input is one of another kind.
\<close>

theorem hash_inputs_separated:
  assumes "length tok = 32" "length tok' = 32" "length ep = 16" "length ep' = 16"
    and "length k < 2 ^ 32" "length k' < 2 ^ 32" "length m < 2 ^ 32" "length m' < 2 ^ 32"
    and labs: "lab \<in> {LABEL_S2R, LABEL_R2S}" "lab' \<in> {LABEL_S2R, LABEL_R2S}"
  shows "(derive_input lab tok ep sess = derive_input lab' tok' ep' sess'
      \<longleftrightarrow> lab = lab' \<and> tok = tok' \<and> ep = ep' \<and> sess = sess')
    \<and> (mac_input k m = mac_input k' m' \<longleftrightarrow> k = k' \<and> m = m')
    \<and> mac_input k m \<noteq> derive_input lab tok ep sess
    \<and> mac_input k m \<noteq> LABEL_DISCOVERY @ tok
    \<and> LABEL_DISCOVERY @ tok \<noteq> derive_input lab tok' ep sess
    \<and> derive_input lab tok ep sess \<notin> {LABEL_NONCE_S2R @ key, LABEL_NONCE_R2S @ key}"
proof -
  have early: "take 14 LABEL_MAC \<noteq> take 14 lab" "take 14 LABEL_DISCOVERY \<noteq> take 14 lab"
    "take 14 LABEL_MAC \<noteq> take 14 LABEL_DISCOVERY"
    "take 14 lab \<noteq> take 14 LABEL_NONCE_S2R" "take 14 lab \<noteq> take 14 LABEL_NONCE_R2S"
    using labs labels_differ_early by (auto simp: labels_r2s)
  have len: "length lab = 16" "length lab' = 16" using labs by auto
  have "derive_input lab tok ep sess = derive_input lab' tok' ep' sess'
      \<longleftrightarrow> lab = lab' \<and> tok = tok' \<and> ep = ep' \<and> sess = sess'"
    using assms len by (auto simp: derive_input_def append_eq_append_conv)
  moreover have "mac_input k m = mac_input k' m' \<longleftrightarrow> k = k' \<and> m = m'"
    using mac_input_inj[of k k' m m'] assms by auto
  moreover have "mac_input k m \<noteq> derive_input lab tok ep sess"
    using label_separates[of LABEL_MAC _ lab] early(1) len by (auto simp: mac_input_def derive_input_def)
  moreover have "mac_input k m \<noteq> LABEL_DISCOVERY @ tok"
    using label_separates[of LABEL_MAC _ LABEL_DISCOVERY] early(3) by (auto simp: mac_input_def)
  moreover have "LABEL_DISCOVERY @ tok \<noteq> derive_input lab tok' ep sess"
    using label_separates[of LABEL_DISCOVERY _ lab] early(2) len by (auto simp: derive_input_def)
  moreover have "derive_input lab tok ep sess \<notin> {LABEL_NONCE_S2R @ key, LABEL_NONCE_R2S @ key}"
    using label_separates[of lab _ LABEL_NONCE_S2R] label_separates[of lab _ LABEL_NONCE_R2S]
      early(4,5) len by (auto simp: derive_input_def)
  ultimately show ?thesis by blast
qed

theorem hash_inputs_separated_witness:
  "derive_input LABEL_S2R (replicate 32 1) (replicate 16 2) [] \<noteq> derive_input LABEL_R2S (replicate 32 1) (replicate 16 2) []
   \<and> mac_input [1] [] \<noteq> mac_input [] [1]"
  using hash_inputs_separated[of "replicate 32 1" "replicate 32 1" "replicate 16 2" "replicate 16 2"
      "[1]" "[]" "[]" "[1]" LABEL_S2R LABEL_R2S "[]" "[]"] labels_differ_early
  by auto

section \<open>Sealing and opening\<close>

lemma derive_ok:
  assumes "hash_ok l"
  shows "dir_ok (sender_to_receiver (derive l tok ep sess))"
    and "dir_ok (receiver_to_sender (derive l tok ep sess))"
  using assms
  by (simp_all add: derive_def cipher_dir_new_def dir_ok_def derive32_def prefix4_def hash_ok_def Let_def)

lemma nonce_layout: "dir_ok d \<Longrightarrow> nonce d ctr = nonce_prefix d @ u64_be ctr"
  by (simp add: nonce_def copy_at_def dir_ok_def Let_def)

lemma length_nonce: "dir_ok d \<Longrightarrow> length (nonce d ctr) = 12"
  by (simp add: nonce_layout dir_ok_def)

lemma nonce_inj: "dir_ok d \<Longrightarrow> nonce d c = nonce d c' \<longleftrightarrow> c = c'"
  using word_from_be(3) by (metis nonce_layout same_append_eq)

lemma aead_dir:
  assumes "aead_ok l" "dir_ok d"
  shows "length m \<le> 65536 \<Longrightarrow> \<exists>c. aead_encrypt l (cipher_key d) (nonce d ctr) a m = Some c"
    and "aead_encrypt l (cipher_key d) (nonce d ctr) a m = Some c \<Longrightarrow> length c = length m + 16"
    and "aead_decrypt l (cipher_key d) (nonce d ctr) a c = Some m
      \<longleftrightarrow> aead_encrypt l (cipher_key d) (nonce d ctr) a m = Some c"
proof -
  have k: "length (cipher_key d) = 32" and n: "length (nonce d ctr) = 12"
    using assms(2) length_nonce by (simp_all add: dir_ok_def)
  note law = assms(1)[unfolded aead_ok_def, rule_format, OF k n]
  show "length m \<le> 65536 \<Longrightarrow> \<exists>c. aead_encrypt l (cipher_key d) (nonce d ctr) a m = Some c"
    using law by blast
  show "aead_encrypt l (cipher_key d) (nonce d ctr) a m = Some c \<Longrightarrow> length c = length m + 16"
    using law by blast
  show "aead_decrypt l (cipher_key d) (nonce d ctr) a c = Some m
      \<longleftrightarrow> aead_encrypt l (cipher_key d) (nonce d ctr) a m = Some c"
    using law by blast
qed

lemma seal_Inr: "seal l d ctr ad m = Inr c
    \<longleftrightarrow> ctr \<noteq> 0 \<and> aead_encrypt l (cipher_key d) (nonce d ctr) ad m = Some c"
  by (simp add: seal_def split: option.split)

lemma open_Inr: "open_dir l d ctr ad c = Inr m
    \<longleftrightarrow> ctr \<noteq> 0 \<and> aead_decrypt l (cipher_key d) (nonce d ctr) ad c = Some m"
  by (simp add: open_dir_def split: option.split)

lemma seal_succeeds:
  assumes "aead_ok l" "dir_ok d" "ctr \<noteq> 0" "length m \<le> 65536"
  obtains c where "seal l d ctr ad m = Inr c"
  using aead_dir(1)[OF assms(1,2,4)] assms(3) seal_Inr by metis

lemma seal_length:
  assumes "aead_ok l" "dir_ok d" "seal l d ctr ad m = Inr c"
  shows "length c = length m + 16"
  using aead_dir(2)[OF assms(1,2)] assms(3) seal_Inr by metis

lemma open_iff_seal:
  assumes "aead_ok l" "dir_ok d"
  shows "open_dir l d ctr ad c = Inr m \<longleftrightarrow> seal l d ctr ad m = Inr c"
  using aead_dir(3)[OF assms] seal_Inr open_Inr by metis

lemma seal_zero [simp]: "seal l d 0 ad m = Inl Decrypt" "open_dir l d 0 ad c = Inl Decrypt"
  by (simp_all add: seal_def open_dir_def)

end
