(* ===== verification/Packet.thy ===== *)
theory Packet
  imports Wire Crypto_Session
begin

text \<open>
  \<open>src/src/transport/packet.rs\<close>: a packet is the header of \<open>Wire\<close> followed by the sealed body,
  the header being the associated data of the seal.
\<close>

record opened =
  o_kind :: byte
  o_epoch :: "byte list"
  o_session :: "byte list"
  o_counter :: u64
  o_body :: "byte list"

text \<open>The header that \<open>seal_packet\<close> fills in for the associated data.\<close>

definition packet_header :: "byte list \<Rightarrow> byte list \<Rightarrow> u64 \<Rightarrow> byte \<Rightarrow> byte list" where
  "packet_header ep sess ctr knd =
     (let header = replicate HEADER_LEN 0;
          header = copy_at 0 [82, 65, 85, 50] header;
          header = header[4 := 2];
          header = header[5 := knd];
          header = copy_at 6 ep header;
          header = copy_at 22 sess header;
          header = copy_at 38 (u64_be ctr) header
      in header)"

definition seal_packet ::
  "crates \<Rightarrow> cipher_dir \<Rightarrow> byte list \<Rightarrow> byte list \<Rightarrow> u64 \<Rightarrow> byte \<Rightarrow> byte list \<Rightarrow> byte list option" where
  "seal_packet l d ep sess ctr knd body =
     (if ctr = 0 \<or> MAX_DATAGRAM < HEADER_LEN + length body + 16 then None
      else case seal l d ctr (packet_header ep sess ctr knd) body of
             Inl _ \<Rightarrow> None
           | Inr ct \<Rightarrow> assemble knd ep sess ctr ct)"

definition open_packet :: "crates \<Rightarrow> cipher_dir \<Rightarrow> byte list \<Rightarrow> opened option" where
  "open_packet l d packet =
     do { view \<leftarrow> parse_packet packet;
          case open_dir l d (counter view) (aad view) (ciphertext view) of
            Inl _ \<Rightarrow> None
          | Inr body \<Rightarrow> Some \<lparr>o_kind = kind view, o_epoch = epoch view, o_session = session view,
              o_counter = counter view, o_body = body\<rparr> }"

lemma packet_header_layout:
  assumes "length ep = 16" "length sess = 16"
  shows "packet_header ep sess ctr knd = MAGIC @ [VERSION, knd] @ ep @ sess @ u64_be ctr"
  using assms
  by (simp add: packet_header_def copy_at_def HEADER_LEN_def MAGIC_def VERSION_def
      upd_conv_take_nth_drop Let_def)

lemma seal_packet_Some:
  assumes "aead_ok l" "dir_ok d" "length ep = 16" "length sess = 16"
  shows "seal_packet l d ep sess ctr knd body = Some pkt \<longleftrightarrow>
    length body \<le> 1138 \<and> (\<exists>ct. seal l d ctr (packet_header ep sess ctr knd) body = Inr ct
      \<and> pkt = packet_header ep sess ctr knd @ ct)"
proof -
  have "ctr \<noteq> 0 \<and> length ct = length body + 16"
    if "seal l d ctr (packet_header ep sess ctr knd) body = Inr ct" for ct
    using seal_length[OF assms(1,2) that] that by (auto simp: seal_Inr)
  then show ?thesis
    unfolding seal_packet_def
    by (auto simp: assemble_layout[OF assms(3,4)] packet_header_layout[OF assms(3,4)]
        wire_consts split: sum.splits)
qed

lemma seal_packet_size:
  assumes "aead_ok l" "dir_ok d" "length ep = 16" "length sess = 16"
    and "seal_packet l d ep sess ctr knd body = Some pkt"
  shows "length pkt = HEADER_LEN + length body + 16" "length pkt \<le> MAX_DATAGRAM"
proof -
  obtain ct where ct: "seal l d ctr (packet_header ep sess ctr knd) body = Inr ct"
    "pkt = packet_header ep sess ctr knd @ ct" and len: "length body \<le> 1138"
    using assms by (auto simp: seal_packet_Some)
  have "length ct = length body + 16" using seal_length[OF assms(1,2) ct(1)] .
  moreover have "length (packet_header ep sess ctr knd) = 46"
    using assms(3,4) by (simp add: packet_header_layout MAGIC_def)
  ultimately show "length pkt = HEADER_LEN + length body + 16" "length pkt \<le> MAX_DATAGRAM"
    using ct(2) len by (simp_all add: wire_consts)
qed

lemma seal_packet_exists:
  assumes "aead_ok l" "dir_ok d" "length ep = 16" "length sess = 16" "ctr \<noteq> 0" "length body \<le> 1138"
  obtains pkt where "seal_packet l d ep sess ctr knd body = Some pkt"
proof -
  have "length body \<le> 65536" using assms(6) by simp
  then obtain ct where "seal l d ctr (packet_header ep sess ctr knd) body = Inr ct"
    using seal_succeeds[OF assms(1,2,5)] by metis
  then show thesis using that seal_packet_Some[OF assms(1-4)] assms(6) by blast
qed

lemma open_seal_packet:
  assumes ok: "aead_ok l" "dir_ok d" and ids: "length ep = 16" "length sess = 16"
    and knd: "KIND_HELLO \<le> knd" "knd \<le> KIND_PROBE"
    and sealed: "seal_packet l d ep sess ctr knd body = Some pkt"
  shows "open_packet l d pkt
    = Some \<lparr>o_kind = knd, o_epoch = ep, o_session = sess, o_counter = ctr, o_body = body\<rparr>"
proof -
  obtain ct where ct: "seal l d ctr (packet_header ep sess ctr knd) body = Inr ct"
    and asm: "assemble knd ep sess ctr ct = Some pkt"
    using sealed by (auto simp: seal_packet_def split: if_splits sum.splits)
  have "16 \<le> length ct" using seal_length[OF ok ct] by simp
  from parse_assemble[OF ids this knd asm]
  have "parse_packet pkt = Some \<lparr>kind = knd, epoch = ep, session = sess, counter = ctr,
      aad = packet_header ep sess ctr knd, ciphertext = ct\<rparr>"
    by (simp add: packet_header_layout[OF ids])
  moreover have "open_dir l d ctr (packet_header ep sess ctr knd) ct = Inr body"
    using open_iff_seal[OF ok] ct by blast
  ultimately show ?thesis by (simp add: open_packet_def)
qed

lemma open_packet_sound:
  assumes ok: "aead_ok l" "dir_ok d" and opened: "open_packet l d pkt = Some p"
  shows "seal_packet l d (o_epoch p) (o_session p) (o_counter p) (o_kind p) (o_body p) = Some pkt
    \<and> length (o_epoch p) = 16 \<and> length (o_session p) = 16
    \<and> KIND_HELLO \<le> o_kind p \<and> o_kind p \<le> KIND_PROBE \<and> o_counter p \<noteq> 0"
proof -
  obtain v where v: "parse_packet pkt = Some v" and rest: "(case open_dir l d (counter v) (aad v) (ciphertext v) of
      Inl _ \<Rightarrow> None
    | Inr body \<Rightarrow> Some \<lparr>o_kind = kind v, o_epoch = epoch v, o_session = session v,
        o_counter = counter v, o_body = body\<rparr>) = Some p"
    using opened unfolding open_packet_def bind_eq_Some_conv by blast
  then obtain body where body: "open_dir l d (counter v) (aad v) (ciphertext v) = Inr body"
    and p: "p = \<lparr>o_kind = kind v, o_epoch = epoch v, o_session = session v,
      o_counter = counter v, o_body = body\<rparr>"
    by (auto split: sum.split_asm)
  note a = assemble_parse[OF v]
  have "take HEADER_LEN pkt = packet_header (epoch v) (session v) (counter v) (kind v)"
    using a(1) by (auto simp: assemble_layout[OF a(2,3)] packet_header_layout[OF a(2,3)]
        MAGIC_def wire_consts a(2,3) split: if_splits)
  then have s: "seal l d (counter v) (packet_header (epoch v) (session v) (counter v) (kind v)) body
      = Inr (ciphertext v)"
    using open_iff_seal[OF ok] body a(8) by simp
  have "length (ciphertext v) = length body + 16" using seal_length[OF ok s] .
  moreover have "HEADER_LEN + length (ciphertext v) \<le> MAX_DATAGRAM"
    using length_assemble[OF a(2,3,1)] by simp
  ultimately have "seal_packet l d (epoch v) (session v) (counter v) (kind v) body = Some pkt"
    using s a(1,7) by (simp add: seal_packet_def)
  then show ?thesis using a p by simp
qed

text \<open>
  C1. A packet opens exactly when it was sealed by the same direction: \<open>open_packet\<close> returns a
  kind, epoch, session, counter and body if and only if sealing that body under that header, with
  a valid kind and 16-byte identifiers, gives the received bytes. So the whole header is
  authenticated, and what is sealed is what is opened.
\<close>

theorem open_packet_iff_sealed:
  assumes "aead_ok l" and "dir_ok d"
  shows "open_packet l d pkt = Some p \<longleftrightarrow>
    seal_packet l d (o_epoch p) (o_session p) (o_counter p) (o_kind p) (o_body p) = Some pkt
    \<and> length (o_epoch p) = 16 \<and> length (o_session p) = 16
    \<and> KIND_HELLO \<le> o_kind p \<and> o_kind p \<le> KIND_PROBE"
    (is "_ \<longleftrightarrow> ?rhs")
proof
  assume "open_packet l d pkt = Some p"
  from open_packet_sound[OF assms this] show ?rhs by blast
next
  assume ?rhs
  then have "open_packet l d pkt = Some \<lparr>o_kind = o_kind p, o_epoch = o_epoch p,
      o_session = o_session p, o_counter = o_counter p, o_body = o_body p\<rparr>"
    using open_seal_packet[OF assms] by blast
  then show "open_packet l d pkt = Some p" by simp
qed

definition demo_dir :: cipher_dir where
  "demo_dir = \<lparr>cipher_key = replicate 32 9, nonce_prefix = [1, 2, 3, 4]\<rparr>"

lemma demo_dir_ok: "dir_ok demo_dir"
  by (simp add: demo_dir_def dir_ok_def)

definition demo_opened :: opened where
  "demo_opened = \<lparr>o_kind = 1, o_epoch = replicate 16 5, o_session = replicate 16 6, o_counter = 7,
     o_body = [2, 104, 105]\<rparr>"

theorem open_packet_iff_sealed_witness:
  "\<exists>pkt. open_packet demo_crates demo_dir pkt = Some demo_opened \<and> length pkt = 65"
proof -
  let ?p = demo_opened
  have ids: "length (o_epoch ?p) = 16" "length (o_session ?p) = 16" and c: "o_counter ?p \<noteq> 0"
    by (simp_all add: demo_opened_def)
  obtain pkt where pkt: "seal_packet demo_crates demo_dir (o_epoch ?p) (o_session ?p)
      (o_counter ?p) (o_kind ?p) (o_body ?p) = Some pkt"
    using seal_packet_exists[OF demo_aead_ok demo_dir_ok ids c, of "o_body ?p" "o_kind ?p"]
    by (auto simp: demo_opened_def)
  then have "open_packet demo_crates demo_dir pkt = Some ?p"
    using open_packet_iff_sealed[OF demo_aead_ok demo_dir_ok, of pkt ?p] ids
    by (simp add: demo_opened_def kind_defs)
  moreover have "length pkt = 65"
    using seal_packet_size[OF demo_aead_ok demo_dir_ok ids pkt]
    by (simp add: demo_opened_def HEADER_LEN_def)
  ultimately show ?thesis by blast
qed

text \<open>
  Sealing never exceeds the datagram limit and refuses exactly the zero counter and bodies
  above 1138 bytes; otherwise it succeeds with 62 bytes of overhead.
\<close>

theorem seal_packet_total:
  assumes "aead_ok l" and "dir_ok d" and "length ep = 16" and "length sess = 16"
  shows "(case seal_packet l d ep sess ctr knd body of
      None \<Rightarrow> ctr = 0 \<or> 1138 < length body
    | Some pkt \<Rightarrow> ctr \<noteq> 0 \<and> length pkt = length body + 62 \<and> length pkt \<le> MAX_DATAGRAM)"
proof (cases "seal_packet l d ep sess ctr knd body")
  case None
  show ?thesis
  proof (rule ccontr)
    assume "\<not> ?thesis"
    then have "ctr \<noteq> 0" "length body \<le> 1138" using None by simp_all
    from seal_packet_exists[OF assms this, of knd] None show False by auto
  qed
next
  case (Some pkt)
  then have "ctr \<noteq> 0" by (auto simp: seal_packet_def)
  with Some seal_packet_size[OF assms Some] show ?thesis by (simp add: HEADER_LEN_def)
qed

theorem seal_packet_total_witness:
  "seal_packet demo_crates demo_dir (replicate 16 1) (replicate 16 2) 3 2 (replicate 20 0) \<noteq> None"
  using seal_packet_total[OF demo_aead_ok demo_dir_ok, of "replicate 16 1" "replicate 16 2" 3 "replicate 20 0" 2]
  by (auto split: option.splits)

end
