(* ===== verification/Replay.thy ===== *)
theory Replay
  imports Prelude
begin

unbundle bit_operations_syntax

text \<open>
  \<open>src/src/crypto/replay.rs\<close>: the anti-replay bitmap. Sequence numbers and the base are \<open>u64\<close>
  values kept as \<open>nat\<close>: the code only compares them, subtracts under a guard and saturates at
  zero, so nothing can wrap. The bitmap words are \<open>64 word\<close>s with the code's masks and shifts.
\<close>

record replay_window =
  window :: nat
  base :: nat
  bits :: "u64 list"

definition new_window :: "nat \<Rightarrow> replay_window" where
  "new_window w =
     (let w = clamp 64 4096 w; words = (w + 63) div 64
      in \<lparr>window = w, base = 0, bits = replicate words 0\<rparr>)"

definition mark :: "replay_window \<Rightarrow> nat \<Rightarrow> bool \<times> replay_window" where
  "mark rw seq =
     (let idx = seq - base rw
      in if window rw \<le> idx then (False, rw)
         else
           (let word = idx div 64; mask = push_bit (idx mod 64) (1 :: u64)
            in if bits rw ! word AND mask \<noteq> 0 then (False, rw)
               else (True, rw\<lparr>bits := (bits rw)[word := bits rw ! word OR mask]\<rparr>)))"

definition clear :: "replay_window \<Rightarrow> replay_window" where
  "clear rw = rw\<lparr>bits := map (\<lambda>_. 0) (bits rw)\<rparr>"

text \<open>The loop \<open>for old in shift..width\<close> of \<open>slide\<close>, over the positions still to copy.\<close>

fun slide_loop :: "u64 list \<Rightarrow> nat \<Rightarrow> u64 list \<Rightarrow> nat list \<Rightarrow> u64 list" where
  "slide_loop old_bits shift nxt [] = nxt"
| "slide_loop old_bits shift nxt (old # olds) =
     (let word = old div 64; mask = push_bit (old mod 64) (1 :: u64)
      in if old_bits ! word AND mask = 0 then slide_loop old_bits shift nxt olds
         else
           (let idx = old - shift
            in slide_loop old_bits shift
                 (nxt[idx div 64 := nxt ! (idx div 64) OR push_bit (idx mod 64) 1]) olds))"

definition slide :: "replay_window \<Rightarrow> nat \<Rightarrow> replay_window" where
  "slide rw new_base =
     (if new_base \<le> base rw then rw
      else
        (let shift = new_base - base rw
         in if window rw \<le> shift then (clear rw)\<lparr>base := new_base\<rparr>
            else rw\<lparr>bits := slide_loop (bits rw) shift (replicate (length (bits rw)) 0) [shift..<window rw],
                    base := new_base\<rparr>))"

definition commit :: "replay_window \<Rightarrow> nat \<Rightarrow> bool \<times> replay_window" where
  "commit rw seq =
     (if seq = 0 then (False, rw)
      else if base rw = 0 then
        mark (clear (rw\<lparr>base := max (seq - (window rw - 1)) 1\<rparr>)) seq
      else if seq < base rw then (False, rw)
      else if window rw \<le> seq - base rw then mark (slide rw (seq - window rw + 1)) seq
      else mark rw seq)"

text \<open>A run of commits: the verdicts in order.\<close>

fun commits :: "replay_window \<Rightarrow> nat list \<Rightarrow> bool list" where
  "commits rw [] = []"
| "commits rw (s # ss) = (let (ok, rw') = commit rw s in ok # commits rw' ss)"

section \<open>What the bitmap stands for\<close>

text \<open>
  The abstract specification keeps every number it ever accepted. A number is accepted when it is
  not zero, was not accepted before, and is less than a window below the highest accepted one.
\<close>

fun accept_spec :: "nat \<Rightarrow> nat list \<Rightarrow> nat list \<Rightarrow> bool list" where
  "accept_spec w acc [] = []"
| "accept_spec w acc (s # ss) =
     (let ok = s \<noteq> 0 \<and> s \<notin> set acc \<and> list_all (\<lambda>a. a < s + w) acc
      in ok # accept_spec w (if ok then s # acc else acc) ss)"

definition bit_at :: "u64 list \<Rightarrow> nat \<Rightarrow> bool" where
  "bit_at bs i \<longleftrightarrow> bit (bs ! (i div 64)) (i mod 64)"

definition highest :: "nat list \<Rightarrow> nat" where
  "highest acc = foldr max acc 0"

definition represents :: "replay_window \<Rightarrow> nat list \<Rightarrow> bool" where
  "represents rw acc \<longleftrightarrow>
     64 \<le> window rw \<and> length (bits rw) = (window rw + 63) div 64 \<and> 0 \<notin> set acc
     \<and> base rw = (if acc = [] then 0 else max 1 (highest acc + 1 - window rw))
     \<and> (acc \<noteq> [] \<longrightarrow> (\<forall>i < window rw. bit_at (bits rw) i \<longleftrightarrow> base rw + i \<in> set acc))"

lemma highest_simps [simp]: "highest [] = 0" "highest (s # acc) = max s (highest acc)"
  by (simp_all add: highest_def)

lemma highest_ge: "a \<in> set acc \<Longrightarrow> a \<le> highest acc"
  by (induction acc) (auto simp: max_def)

lemma highest_in: "acc \<noteq> [] \<Longrightarrow> highest acc \<in> set acc"
proof (induction acc)
  case (Cons a acc)
  then show ?case by (cases "acc = []") (auto simp: max_def)
qed simp

lemma all_below_iff: "list_all (\<lambda>a. a < s + w) acc \<longleftrightarrow> acc = [] \<or> highest acc < s + w"
  using highest_ge[of _ acc] highest_in[of acc] by (fastforce simp: list_all_iff)

lemma mask_test_push: "n < 64 \<Longrightarrow> x AND push_bit n (1 :: u64) \<noteq> 0 \<longleftrightarrow> bit x n"
proof -
  assume n: "n < 64"
  have "x AND push_bit n (1 :: u64) = (if bit x n then push_bit n 1 else 0)"
    by (rule bit_word_eqI) (auto simp: bit_simps simp del: push_bit_of_1)
  moreover have "bit (push_bit n (1 :: u64)) n"
    using n by (simp add: bit_simps del: push_bit_of_1)
  then have "push_bit n (1 :: u64) \<noteq> 0" by (metis bit_0_eq bot_apply bot_bool_def)
  ultimately show ?thesis by simp
qed

lemmas mask_test = mask_test_push mask_test_push [unfolded push_bit_of_1]

lemma bit_at_set:
  assumes "i div 64 < length bs"
  shows "bit_at (bs[i div 64 := bs ! (i div 64) OR push_bit (i mod 64) 1]) j \<longleftrightarrow> j = i \<or> bit_at bs j"
proof (cases "j div 64 = i div 64")
  case True
  have "i mod 64 < 64" "j mod 64 < 64" by simp_all
  moreover have "j = i \<longleftrightarrow> j mod 64 = i mod 64"
    using True by (metis div_mult_mod_eq)
  ultimately show ?thesis
    using assms True by (auto simp: bit_at_def bit_simps)
next
  case False
  then show ?thesis by (auto simp: bit_at_def)
qed

lemma slide_loop_bits:
  assumes "list_all (\<lambda>old. shift \<le> old \<and> (old - shift) div 64 < length nxt) olds"
  shows "length (slide_loop bs shift nxt olds) = length nxt
    \<and> (bit_at (slide_loop bs shift nxt olds) j \<longleftrightarrow>
        bit_at nxt j \<or> (j + shift \<in> set olds \<and> bit_at bs (j + shift)))"
  using assms
proof (induction olds arbitrary: nxt)
  case Nil
  then show ?case by simp
next
  case (Cons old olds)
  have le: "shift \<le> old" and len: "(old - shift) div 64 < length nxt" using Cons.prems by simp_all
  have t: "bs ! (old div 64) AND push_bit (old mod 64) 1 \<noteq> 0 \<longleftrightarrow> bit_at bs old"
    by (simp add: mask_test bit_at_def)
  let ?i = "old - shift"
  let ?nxt = "if bit_at bs old then nxt[?i div 64 := nxt ! (?i div 64) OR push_bit (?i mod 64) 1] else nxt"
  have step: "slide_loop bs shift nxt (old # olds) = slide_loop bs shift ?nxt olds"
    using t by (auto simp: Let_def)
  have "length ?nxt = length nxt" by simp
  with Cons.prems have "list_all (\<lambda>old. shift \<le> old \<and> (old - shift) div 64 < length ?nxt) olds"
    by (simp add: list_all_iff)
  from Cons.IH[OF this] have
    "length (slide_loop bs shift ?nxt olds) = length ?nxt" and
    "bit_at (slide_loop bs shift ?nxt olds) j \<longleftrightarrow> bit_at ?nxt j \<or> (j + shift \<in> set olds \<and> bit_at bs (j + shift))"
    by blast+
  moreover have "bit_at ?nxt j \<longleftrightarrow> bit_at nxt j \<or> (j + shift = old \<and> bit_at bs old)"
    using bit_at_set[OF len, of j] le by auto
  ultimately show ?case unfolding step by auto
qed

lemma mark_represents:
  assumes win: "64 \<le> window rw" "length (bits rw) = (window rw + 63) div 64" "0 \<notin> set acc" "0 < seq"
    and base: "base rw = max 1 (highest (seq # acc) + 1 - window rw)" "base rw \<le> seq"
    and bits: "\<forall>i < window rw. bit_at (bits rw) i \<longleftrightarrow> base rw + i \<in> set acc"
  shows "fst (mark rw seq) \<longleftrightarrow> seq \<notin> set acc"
    and "represents (snd (mark rw seq)) (if seq \<in> set acc then acc else seq # acc)"
    and "window (snd (mark rw seq)) = window rw"
proof -
  let ?i = "seq - base rw"
  let ?bits = "(bits rw)[?i div 64 := bits rw ! (?i div 64) OR push_bit (?i mod 64) 1]"
  have i: "?i < window rw" using base win(1) by (simp add: max_def split: if_splits)
  have word: "?i div 64 < length (bits rw)" using i win(2) by linarith
  have t: "bits rw ! (?i div 64) AND push_bit (?i mod 64) 1 \<noteq> 0 \<longleftrightarrow> seq \<in> set acc"
    using bits i base(2) by (simp add: mask_test bit_at_def)
  have mark: "mark rw seq = (if seq \<in> set acc then (False, rw) else (True, rw\<lparr>bits := ?bits\<rparr>))"
    using t i by (simp add: mark_def Let_def)
  show "fst (mark rw seq) \<longleftrightarrow> seq \<notin> set acc" by (simp add: mark)
  show "window (snd (mark rw seq)) = window rw" by (simp add: mark)
  show "represents (snd (mark rw seq)) (if seq \<in> set acc then acc else seq # acc)"
  proof (cases "seq \<in> set acc")
    case True
    have "highest (seq # acc) = highest acc" using highest_ge[OF True] by simp
    moreover have "acc \<noteq> []" using True by auto
    ultimately have "represents rw acc"
      unfolding represents_def using win base(1) bits by presburger
    with True show ?thesis by (simp add: mark)
  next
    case False
    have "\<forall>j < window rw. bit_at ?bits j \<longleftrightarrow> base rw + j \<in> set (seq # acc)"
    proof (intro allI impI)
      fix j assume "j < window rw"
      then have "bit_at (bits rw) j \<longleftrightarrow> base rw + j \<in> set acc" using bits by blast
      moreover have "j = ?i \<longleftrightarrow> base rw + j = seq" using base(2) by linarith
      ultimately show "bit_at ?bits j \<longleftrightarrow> base rw + j \<in> set (seq # acc)"
        using bit_at_set[OF word, of j] by simp
    qed
    moreover have "0 \<notin> set (seq # acc)" using win(3,4) by simp
    ultimately have "represents (rw\<lparr>bits := ?bits\<rparr>) (seq # acc)"
      unfolding represents_def using win(1,2) base(1) by simp
    with False show ?thesis by (simp add: mark)
  qed
qed

lemma bit_at_zeros: "i div 64 < length bs \<Longrightarrow> \<not> bit_at (map (\<lambda>_. 0) bs) i"
  by (simp add: bit_at_def)

lemma slide_bits:
  assumes win: "64 \<le> window rw" "length (bits rw) = (window rw + 63) div 64"
    and new: "base rw < new_base"
  shows "window (slide rw new_base) = window rw \<and> base (slide rw new_base) = new_base
    \<and> length (bits (slide rw new_base)) = length (bits rw)
    \<and> (\<forall>i < window rw. bit_at (bits (slide rw new_base)) i
         \<longleftrightarrow> i + (new_base - base rw) < window rw \<and> bit_at (bits rw) (i + (new_base - base rw)))"
proof -
  let ?s = "new_base - base rw"
  have word: "i div 64 < length (bits rw)" if "i < window rw" for i
    using that win(2) by linarith
  show ?thesis
  proof (cases "window rw \<le> ?s")
    case True
    have "\<not> bit_at (map (\<lambda>_. 0) (bits rw)) i" if "i < window rw" for i
      using bit_at_zeros[OF word[OF that]] .
    moreover have "slide rw new_base = (clear rw)\<lparr>base := new_base\<rparr>"
      using True new by (simp add: slide_def)
    moreover have "\<not> i + ?s < window rw" for i using True by linarith
    ultimately show ?thesis unfolding clear_def by simp
  next
    case False
    let ?zeros = "replicate (length (bits rw)) 0 :: u64 list"
    have inside: "(old - ?s) div 64 < length ?zeros" if "old < window rw" for old
      using word[of "old - ?s"] that by simp
    have shifts: "list_all (\<lambda>old. ?s \<le> old \<and> (old - ?s) div 64 < length ?zeros) [?s..<window rw]"
      using inside unfolding list_all_iff by (metis atLeastLessThan_iff set_upt)
    have empty: "\<not> bit_at ?zeros i" if "i < window rw" for i
      using word[OF that] by (simp add: bit_at_def)
    have "slide rw new_base
        = rw\<lparr>bits := slide_loop (bits rw) ?s ?zeros [?s..<window rw], base := new_base\<rparr>"
      using False new by (simp add: slide_def Let_def)
    with slide_loop_bits[OF shifts, of "bits rw"] empty show ?thesis by auto
  qed
qed

lemma clear_represents_start:
  assumes "represents rw []" "0 < seq"
  shows "let rw' = clear (rw\<lparr>base := max (seq - (window rw - 1)) 1\<rparr>) in
    64 \<le> window rw' \<and> window rw' = window rw \<and> length (bits rw') = (window rw' + 63) div 64
    \<and> base rw' = max 1 (highest [seq] + 1 - window rw') \<and> base rw' \<le> seq
    \<and> (\<forall>i < window rw'. bit_at (bits rw') i \<longleftrightarrow> base rw' + i \<in> set [])"
proof -
  have w: "64 \<le> window rw" "length (bits rw) = (window rw + 63) div 64"
    using assms by (simp_all add: represents_def)
  have "\<not> bit_at (map (\<lambda>_. 0) (bits rw)) i" if "i < window rw" for i
    by (rule bit_at_zeros) (use that w(2) in linarith)
  with w assms(2) show ?thesis by (auto simp: clear_def Let_def)
qed

text \<open>The first number, and a number past the window, which slides it.\<close>

lemma commit_first_represents:
  assumes "represents rw []" "0 < seq"
  shows "fst (commit rw seq) \<and> represents (snd (commit rw seq)) [seq] \<and> window (snd (commit rw seq)) = window rw"
proof -
  let ?rw = "clear (rw\<lparr>base := max (seq - (window rw - 1)) 1\<rparr>)"
  have commit: "commit rw seq = mark ?rw seq"
    using assms by (simp add: commit_def represents_def)
  note start = clear_represents_start[OF assms, unfolded Let_def]
  have s: "64 \<le> window ?rw" "length (bits ?rw) = (window ?rw + 63) div 64"
    "base ?rw = max 1 (highest [seq] + 1 - window ?rw)" "base ?rw \<le> seq"
    "\<forall>i < window ?rw. bit_at (bits ?rw) i \<longleftrightarrow> base ?rw + i \<in> set []" "window ?rw = window rw"
    using start by blast+
  from mark_represents[OF s(1,2) _ assms(2) s(3-5)] s(6) show ?thesis unfolding commit by simp
qed

lemma commit_ahead_represents:
  assumes "represents rw acc" "acc \<noteq> []" "0 < seq" and ahead: "base rw \<le> seq" "window rw \<le> seq - base rw"
  shows "fst (commit rw seq)" "represents (snd (commit rw seq)) (seq # acc)" "window (snd (commit rw seq)) = window rw"
    "seq \<notin> set acc" "highest acc < seq + window rw"
proof -
  have w: "64 \<le> window rw" "length (bits rw) = (window rw + 63) div 64" "0 \<notin> set acc"
    and base: "base rw = max 1 (highest acc + 1 - window rw)"
    and bits: "\<forall>i < window rw. bit_at (bits rw) i \<longleftrightarrow> base rw + i \<in> set acc"
    using assms(1,2) by (simp_all add: represents_def)
  have b0: "base rw \<noteq> 0" using base by simp
  let ?nb = "seq - window rw + 1"
  let ?rw = "slide rw ?nb"
  have new: "base rw < ?nb" using ahead by linarith
  note sl = slide_bits[OF w(1,2) new]
  have hi: "highest acc < base rw + window rw"
    using base by (auto simp: max_def split: if_splits)
  have above: "a < base rw + window rw" if "a \<in> set acc" for a
    using highest_ge[OF that] hi by linarith
  have seq_new: "seq \<notin> set acc" using above ahead by fastforce
  have commit: "commit rw seq = mark ?rw seq" using ahead b0 by (simp add: commit_def)
  have s: "window ?rw = window rw" "base ?rw = ?nb" "length (bits ?rw) = length (bits rw)"
    and sbits: "\<forall>i < window rw. bit_at (bits ?rw) i
      \<longleftrightarrow> i + (?nb - base rw) < window rw \<and> bit_at (bits rw) (i + (?nb - base rw))"
    using sl by blast+
  have nb: "base ?rw = max 1 (highest (seq # acc) + 1 - window ?rw)" "base ?rw \<le> seq"
    using hi ahead w(1) unfolding s highest_simps by linarith+
  have new_bits: "\<forall>i < window ?rw. bit_at (bits ?rw) i \<longleftrightarrow> base ?rw + i \<in> set acc"
  proof (intro allI impI)
    fix i assume "i < window ?rw"
    then have i: "i < window rw" using s(1) by simp
    let ?j = "i + (?nb - base rw)"
    have j: "base rw + ?j = ?nb + i" using new by linarith
    have "bit_at (bits ?rw) i \<longleftrightarrow> ?j < window rw \<and> bit_at (bits rw) ?j" using sbits i by blast
    also have "\<dots> \<longleftrightarrow> ?j < window rw \<and> ?nb + i \<in> set acc" using bits j by metis
    also have "\<dots> \<longleftrightarrow> ?nb + i \<in> set acc" using above[of "?nb + i"] j by linarith
    finally show "bit_at (bits ?rw) i \<longleftrightarrow> base ?rw + i \<in> set acc" using s(2) by simp
  qed
  have w': "64 \<le> window ?rw" "length (bits ?rw) = (window ?rw + 63) div 64"
    using s w(1,2) by simp_all
  note m = mark_represents[OF w' w(3) assms(3) nb new_bits]
  show "fst (commit rw seq)" "represents (snd (commit rw seq)) (seq # acc)" "window (snd (commit rw seq)) = window rw"
    unfolding commit using m seq_new s(1) by simp_all
  show "seq \<notin> set acc" by (rule seq_new)
  show "highest acc < seq + window rw" using hi ahead by linarith
qed

lemma commit_represents:
  fixes rw :: replay_window and acc :: "nat list" and seq :: nat
  assumes rep: "represents rw acc"
  defines "ok \<equiv> seq \<noteq> 0 \<and> seq \<notin> set acc \<and> list_all (\<lambda>a. a < seq + window rw) acc"
  shows "fst (commit rw seq) \<longleftrightarrow> ok"
    and "represents (snd (commit rw seq)) (if ok then seq # acc else acc)"
    and "window (snd (commit rw seq)) = window rw"
proof -
  have w: "64 \<le> window rw" "length (bits rw) = (window rw + 63) div 64" "0 \<notin> set acc"
    using rep by (simp_all add: represents_def)
  have all: "(fst (commit rw seq) \<longleftrightarrow> ok)
    \<and> represents (snd (commit rw seq)) (if ok then seq # acc else acc)
    \<and> window (snd (commit rw seq)) = window rw"
  proof (cases "seq = 0")
    case True
    then show ?thesis using rep by (simp add: commit_def ok_def)
  next
    case pos: False
    show ?thesis
    proof (cases "acc = []")
      case True
      have "ok" using pos True by (simp add: ok_def)
      then show ?thesis using commit_first_represents[of rw seq] rep pos True by simp
    next
      case False
      have base: "base rw = max 1 (highest acc + 1 - window rw)"
        and bits: "\<forall>i < window rw. bit_at (bits rw) i \<longleftrightarrow> base rw + i \<in> set acc"
        using rep False by (simp_all add: represents_def)
      have b0: "base rw \<noteq> 0" using base by simp
      have okb: "ok \<longleftrightarrow> seq \<notin> set acc \<and> highest acc < seq + window rw"
        using pos False by (simp add: ok_def all_below_iff)
      consider (stale) "seq < base rw" | (inside) "base rw \<le> seq" "seq - base rw < window rw"
        | (ahead) "base rw \<le> seq" "window rw \<le> seq - base rw" by linarith
      then show ?thesis
      proof cases
        case stale
        then have "\<not> highest acc < seq + window rw" using base pos by linarith
        then have "\<not> ok" using okb by blast
        then show ?thesis using stale b0 pos rep by (simp add: commit_def)
      next
        case inside
        have "commit rw seq = mark rw seq" using inside b0 pos by (simp add: commit_def)
        moreover have "base rw = max 1 (highest (seq # acc) + 1 - window rw)"
          using base inside unfolding highest_simps by linarith
        moreover have "highest acc < seq + window rw" using base inside(1) by linarith
        then have "ok \<longleftrightarrow> seq \<notin> set acc" using okb by blast
        ultimately show ?thesis
          using mark_represents[OF w _ _ inside(1) bits] pos by (cases "seq \<in> set acc") simp_all
      next
        case ahead
        have "0 < seq" using pos by simp
        note a = commit_ahead_represents[OF rep False this ahead]
        have "ok" using okb a(4,5) by blast
        with a(1-3) show ?thesis by simp
      qed
    qed
  qed
  show "fst (commit rw seq) \<longleftrightarrow> ok" using all by simp
  show "represents (snd (commit rw seq)) (if ok then seq # acc else acc)" using all by simp
  show "window (snd (commit rw seq)) = window rw" using all by simp
qed

lemma new_window_represents: "represents (new_window n) []"
  by (auto simp: represents_def new_window_def clamp_def Let_def)

lemma commits_refine:
  "represents rw acc \<Longrightarrow> commits rw seqs = accept_spec (window rw) acc seqs"
proof (induction seqs arbitrary: rw acc)
  case Nil
  then show ?case by simp
next
  case (Cons s ss)
  obtain b rw' where c: "commit rw s = (b, rw')" by (cases "commit rw s")
  let ?ok = "s \<noteq> 0 \<and> s \<notin> set acc \<and> list_all (\<lambda>a. a < s + window rw) acc"
  have "b = ?ok" "represents rw' (if ?ok then s # acc else acc)" "window rw' = window rw"
    using commit_represents[OF Cons.prems, of s] c by simp_all
  then show ?case using Cons.IH[of rw' "if ?ok then s # acc else acc"] c by (simp add: Let_def)
qed

section \<open>Every number at most once\<close>

text \<open>
  The contract the packet layer relies on: a check-and-consume operation that accepts only what it
  has not consumed, consumes what it accepts, and never forgets.
\<close>

locale replay_guard =
  fixes consume :: "'w \<Rightarrow> nat \<Rightarrow> bool \<times> 'w"
    and good :: "'w \<Rightarrow> bool"
    and spent :: "'w \<Rightarrow> nat \<Rightarrow> bool"
  assumes consume_good: "good w \<Longrightarrow> good (snd (consume w s))"
    and consume_fresh: "good w \<Longrightarrow> fst (consume w s) \<longleftrightarrow> \<not> spent w s"
    and consume_spends: "good w \<Longrightarrow> spent (snd (consume w s)) s"
    and spent_stays: "good w \<Longrightarrow> spent w s \<Longrightarrow> spent (snd (consume w t)) s"
begin

fun consume_all :: "'w \<Rightarrow> nat list \<Rightarrow> 'w" where
  "consume_all w [] = w"
| "consume_all w (s # ss) = consume_all (snd (consume w s)) ss"

fun verdicts :: "'w \<Rightarrow> nat list \<Rightarrow> bool list" where
  "verdicts w [] = []"
| "verdicts w (s # ss) = fst (consume w s) # verdicts (snd (consume w s)) ss"

lemma length_verdicts [simp]: "length (verdicts w ss) = length ss"
  by (induction ss arbitrary: w) auto

lemma spent_consume_all: "good w \<Longrightarrow> spent w s \<Longrightarrow> spent (consume_all w ss) s \<and> good (consume_all w ss)"
  by (induction ss arbitrary: w) (auto simp: consume_good spent_stays)

lemma rejected_when_spent:
  "good w \<Longrightarrow> spent w s \<Longrightarrow> i < length ss \<Longrightarrow> ss ! i = s \<Longrightarrow> \<not> verdicts w ss ! i"
proof (induction ss arbitrary: w i)
  case Nil
  then show ?case by simp
next
  case (Cons t ts)
  then show ?case
    by (cases i) (auto simp: consume_fresh consume_good spent_stays)
qed

lemma verdicts_distinct:
  assumes "good w" "i < j" "j < length ss" "ss ! i = ss ! j"
  shows "\<not> verdicts w ss ! j"
  using assms
proof (induction ss arbitrary: w i j)
  case Nil
  then show ?case by simp
next
  case (Cons t ts)
  obtain j' where j: "j = Suc j'" using Cons.prems by (cases j) auto
  have good: "good (snd (consume w t))" using Cons.prems by (simp add: consume_good)
  show ?case
  proof (cases i)
    case 0
    then have "ts ! j' = t" using Cons.prems j by simp
    moreover have "spent (snd (consume w t)) t" using Cons.prems consume_spends by simp
    ultimately show ?thesis using rejected_when_spent[OF good] Cons.prems j by simp
  next
    case (Suc i')
    then show ?thesis using Cons.IH[OF good, of i' j'] Cons.prems j by simp
  qed
qed

end

definition represents_some :: "replay_window \<Rightarrow> bool" where
  "represents_some rw \<longleftrightarrow> (\<exists>acc. represents rw acc)"

definition consumed :: "replay_window \<Rightarrow> nat \<Rightarrow> bool" where
  "consumed rw s \<longleftrightarrow> \<not> fst (commit rw s)"

lemma commit_keeps: "represents_some rw \<Longrightarrow> represents_some (snd (commit rw s))"
  using commit_represents(2) unfolding represents_some_def by blast

lemma commit_monotone:
  assumes "represents rw acc" and "consumed rw s"
  shows "consumed (snd (commit rw t)) s"
proof -
  let ?ok = "\<lambda>acc s. s \<noteq> 0 \<and> s \<notin> set acc \<and> list_all (\<lambda>a. a < s + window rw) acc"
  note c = commit_represents[OF assms(1)]
  have "\<not> ?ok acc s" using assms(2) c(1)[of s] by (simp add: consumed_def)
  then have "\<not> ?ok (if ?ok acc t then t # acc else acc) s" by auto
  then show ?thesis
    using commit_represents(1)[OF c(2)[of t], of s] c(3)[of t] unfolding consumed_def by simp
qed

lemma commit_consumes:
  assumes "represents rw acc"
  shows "consumed (snd (commit rw s)) s"
proof -
  note c = commit_represents[OF assms, of s]
  show ?thesis
    using commit_represents(1)[OF c(2), of s] c(3) unfolding consumed_def by auto
qed

text \<open>A refused number leaves the window exactly as it was.\<close>

lemma mark_refuses_same: "\<not> fst (mark rw s) \<Longrightarrow> snd (mark rw s) = rw"
  by (auto simp: mark_def Let_def split: if_splits)

lemma commit_refuses_same:
  assumes "represents_some rw" "\<not> fst (commit rw s)"
  shows "snd (commit rw s) = rw"
proof -
  obtain acc where rep: "represents rw acc" using assms(1) by (auto simp: represents_some_def)
  have bad: "s = 0 \<or> s \<in> set acc \<or> \<not> list_all (\<lambda>a. a < s + window rw) acc"
    using assms(2) commit_represents(1)[OF rep, of s] by blast
  consider "s = 0" | (first) "s \<noteq> 0" "acc = []" | (later) "s \<noteq> 0" "acc \<noteq> []" by blast
  then show ?thesis
  proof cases
    case 1
    then show ?thesis by (simp add: commit_def)
  next
    case first
    then show ?thesis using bad by simp
  next
    case later
    have base: "base rw = max 1 (highest acc + 1 - window rw)" using rep later by (simp add: represents_def)
    have "s < base rw \<or> s - base rw < window rw"
    proof (rule ccontr)
      assume "\<not> ?thesis"
      then have "highest acc < s" using base by linarith
      then have below: "a < s" if "a \<in> set acc" for a using highest_ge[OF that] by linarith
      then have "s \<notin> set acc" by blast
      moreover have "list_all (\<lambda>a. a < s + window rw) acc"
        unfolding list_all_iff using below by (meson trans_less_add1)
      ultimately show False using bad later(1) by blast
    qed
    then have "commit rw s = (False, rw) \<or> commit rw s = mark rw s"
      using later(1) base by (auto simp: commit_def)
    then show ?thesis using assms(2) mark_refuses_same by auto
  qed
qed

interpretation replay: replay_guard commit represents_some consumed
proof (unfold_locales, goal_cases)
  case (1 w s)
  then show ?case by (rule commit_keeps)
next
  case (2 w s)
  then show ?case by (simp add: consumed_def)
next
  case (3 w s)
  then show ?case unfolding represents_some_def using commit_consumes by blast
next
  case (4 w s t)
  then show ?case unfolding represents_some_def using commit_monotone by blast
qed

lemma verdicts_commits: "replay.verdicts rw ss = commits rw ss"
  by (induction ss arbitrary: rw) (auto simp: Let_def split: prod.splits)

lemma represents_some_new: "represents_some (new_window n)"
  using new_window_represents unfolding represents_some_def by blast

text \<open>
  C5. The bitmap with its sliding base decides every sequence of numbers exactly as the
  specification that remembers all accepted numbers: a number is accepted when it is not zero, was
  not accepted before, and lies less than the (clamped) window below the highest accepted one.
\<close>

theorem replay_refines_spec:
  "commits (new_window n) seqs = accept_spec (clamp 64 4096 n) [] seqs"
proof -
  have "window (new_window n) = clamp 64 4096 n" by (simp add: new_window_def Let_def)
  then show ?thesis using commits_refine[OF new_window_represents[of n], of seqs] by simp
qed

text \<open>
  No sequence number is accepted twice, whatever the other numbers of the run: of two equal
  positions of a run, the later one is rejected.
\<close>

theorem replay_once:
  assumes "i < j" and "j < length seqs" and "seqs ! i = seqs ! j"
  shows "\<not> commits (new_window n) seqs ! j"
  using replay.verdicts_distinct[OF represents_some_new assms] by (simp add: verdicts_commits)

theorem replay_once_witness: "\<not> commits (new_window 64) [5, 90, 5] ! 2"
  by (rule replay_once[of 0 2 "[5, 90, 5]" 64]) simp_all

end
