(* ===== verification/Ieee_Float.thy ===== *)
theory Ieee_Float
  imports Prelude "HOL-Library.Log_Nat"
begin

text \<open>
  The floating-point arithmetic of the source (\<open>f32\<close> in the mixer and the path statistics, \<open>f64\<close>
  in the jitter estimate): IEEE 754 binary formats with rounding to nearest, ties to even, over
  rational numbers. The sign of a zero is not kept: no operation of the source divides by a value
  that can be zero, so it cannot be observed. The casts are Rust's: they truncate towards zero,
  saturate, and send NaN to zero.
\<close>

section \<open>Formats and rounding\<close>

record float_format =
  prec :: nat
  quantum_exp :: int
  top_exp :: int

definition F32 :: float_format where
  "F32 = \<lparr>prec = 24, quantum_exp = - 149, top_exp = 128\<rparr>"

definition F64 :: float_format where
  "F64 = \<lparr>prec = 53, quantum_exp = - 1074, top_exp = 1024\<rparr>"

definition pow2 :: "int \<Rightarrow> rat" where
  "pow2 k = (if 0 \<le> k then 2 ^ nat k else 1 / 2 ^ nat (- k))"

text \<open>The exponent of a positive number: \<open>2 ^ ilog2 r \<le> r < 2 ^ (ilog2 r + 1)\<close>.\<close>

definition ilog2 :: "rat \<Rightarrow> int" where
  "ilog2 r =
     (let (a, b) = quotient_of r;
          k = int (floorlog 2 (nat a)) - int (floorlog 2 (nat b))
      in if pow2 k \<le> r then k else k - 1)"

text \<open>Round to the nearest integer, ties to even.\<close>

definition rne :: "rat \<Rightarrow> int" where
  "rne x =
     (let f = \<lfloor>x\<rfloor>; d = x - of_int f
      in if d < 1 / 2 then f else if 1 / 2 < d then f + 1 else if even f then f else f + 1)"

definition ulp_exp :: "float_format \<Rightarrow> rat \<Rightarrow> int" where
  "ulp_exp fmt r = max (ilog2 \<bar>r\<bar> - (int (prec fmt) - 1)) (quantum_exp fmt)"

definition rnd :: "float_format \<Rightarrow> rat \<Rightarrow> rat" where
  "rnd fmt r =
     (if r = 0 then 0
      else (let q = pow2 (ulp_exp fmt r) in of_int (rne (r / q)) * q))"

datatype flt = NaN | PInf | NInf | Fin rat

definition fl :: "float_format \<Rightarrow> rat \<Rightarrow> flt" where
  "fl fmt r =
     (let x = rnd fmt r
      in if pow2 (top_exp fmt) \<le> x then PInf else if x \<le> - pow2 (top_exp fmt) then NInf else Fin x)"

section \<open>Operations\<close>

fun fneg :: "flt \<Rightarrow> flt" where
  "fneg NaN = NaN" | "fneg PInf = NInf" | "fneg NInf = PInf" | "fneg (Fin a) = Fin (- a)"

fun fadd :: "float_format \<Rightarrow> flt \<Rightarrow> flt \<Rightarrow> flt" where
  "fadd fmt (Fin a) (Fin b) = fl fmt (a + b)"
| "fadd fmt NaN y = NaN"
| "fadd fmt x NaN = NaN"
| "fadd fmt PInf NInf = NaN"
| "fadd fmt NInf PInf = NaN"
| "fadd fmt PInf y = PInf"
| "fadd fmt NInf y = NInf"
| "fadd fmt x PInf = PInf"
| "fadd fmt x NInf = NInf"

definition fsub :: "float_format \<Rightarrow> flt \<Rightarrow> flt \<Rightarrow> flt" where
  "fsub fmt x y = fadd fmt x (fneg y)"

fun fsign :: "flt \<Rightarrow> rat" where
  "fsign NaN = 0" | "fsign PInf = 1" | "fsign NInf = - 1" | "fsign (Fin a) = sgn a"

definition finf :: "rat \<Rightarrow> flt" where
  "finf s = (if s = 0 then NaN else if 0 < s then PInf else NInf)"

fun fmul :: "float_format \<Rightarrow> flt \<Rightarrow> flt \<Rightarrow> flt" where
  "fmul fmt (Fin a) (Fin b) = fl fmt (a * b)"
| "fmul fmt NaN y = NaN"
| "fmul fmt x NaN = NaN"
| "fmul fmt x y = finf (fsign x * fsign y)"

text \<open>A zero divisor counts as positive; the source has none.\<close>

fun fdiv :: "float_format \<Rightarrow> flt \<Rightarrow> flt \<Rightarrow> flt" where
  "fdiv fmt (Fin a) (Fin b) = (if b = 0 then finf (sgn a) else fl fmt (a / b))"
| "fdiv fmt NaN y = NaN"
| "fdiv fmt x NaN = NaN"
| "fdiv fmt (Fin a) y = Fin 0"
| "fdiv fmt x (Fin b) = finf (fsign x * (if b < 0 then - 1 else 1))"
| "fdiv fmt x y = NaN"

fun flt_less :: "flt \<Rightarrow> flt \<Rightarrow> bool" where
  "flt_less (Fin a) (Fin b) \<longleftrightarrow> a < b"
| "flt_less NaN y \<longleftrightarrow> False"
| "flt_less x NaN \<longleftrightarrow> False"
| "flt_less PInf y \<longleftrightarrow> False"
| "flt_less x NInf \<longleftrightarrow> False"
| "flt_less NInf y \<longleftrightarrow> True"
| "flt_less x PInf \<longleftrightarrow> True"

definition flt_ge :: "flt \<Rightarrow> flt \<Rightarrow> bool" where
  "flt_ge x y \<longleftrightarrow> x \<noteq> NaN \<and> y \<noteq> NaN \<and> \<not> flt_less x y"

fun is_finite :: "flt \<Rightarrow> bool" where
  "is_finite (Fin a) \<longleftrightarrow> True" | "is_finite x \<longleftrightarrow> False"

text \<open>\<open>f32::clamp\<close> (a NaN stays a NaN) and \<open>f64::min\<close> (a NaN operand is ignored).\<close>

definition flt_clamp :: "flt \<Rightarrow> flt \<Rightarrow> flt \<Rightarrow> flt" where
  "flt_clamp lo hi x = (if flt_less x lo then lo else if flt_less hi x then hi else x)"

definition flt_min :: "flt \<Rightarrow> flt \<Rightarrow> flt" where
  "flt_min x y = (if x = NaN then y else if y = NaN then x else if flt_less y x then y else x)"

text \<open>\<open>as\<close>: truncation towards zero, saturating at the ends of the integer type.\<close>

definition trunc_rat :: "rat \<Rightarrow> int" where
  "trunc_rat r = (if 0 \<le> r then \<lfloor>r\<rfloor> else - \<lfloor>- r\<rfloor>)"

fun to_int_sat :: "int \<Rightarrow> int \<Rightarrow> flt \<Rightarrow> int" where
  "to_int_sat lo hi NaN = 0"
| "to_int_sat lo hi PInf = hi"
| "to_int_sat lo hi NInf = lo"
| "to_int_sat lo hi (Fin a) = max lo (min hi (trunc_rat a))"

section \<open>Powers of two\<close>

lemma pow2_powi: "pow2 k = 2 powi k"
  by (simp add: pow2_def power_int_def inverse_eq_divide power_one_over)

lemma pow2_pos [simp]: "0 < pow2 k"
  by (simp add: pow2_def)

lemma pow2_nonneg [simp]: "0 \<le> pow2 k"
  by (simp add: pow2_def)

lemma pow2_nonzero [simp]: "pow2 k \<noteq> 0"
  using pow2_pos[of k] by linarith

lemma pow2_add: "pow2 (j + k) = pow2 j * pow2 k"
  by (simp add: pow2_powi power_int_add)

lemma pow2_nat: "pow2 (int n) = 2 ^ n"
  by (simp add: pow2_def)

lemma pow2_one: "pow2 1 = 2"
  by (simp add: pow2_def)

lemma pow2_mono: "j \<le> k \<Longrightarrow> pow2 j \<le> pow2 k"
  by (simp add: pow2_powi power_int_increasing)

lemma pow2_less: "j < k \<Longrightarrow> pow2 j < pow2 k"
  by (simp add: pow2_powi power_int_strict_increasing)

lemma pow2_less_iff: "pow2 j < pow2 k \<longleftrightarrow> j < k"
  using pow2_less pow2_mono by (metis not_less)

lemma pow2_split: "j \<le> k \<Longrightarrow> pow2 k = of_int (2 ^ nat (k - j)) * pow2 j"
proof -
  assume "j \<le> k"
  then have "pow2 k = pow2 (int (nat (k - j)) + j)" by simp
  also have "\<dots> = 2 ^ nat (k - j) * pow2 j" by (simp only: pow2_add pow2_nat)
  finally show ?thesis by simp
qed

lemma pow2_diff_nat: "pow2 (int m - int n) = 2 ^ m / 2 ^ n"
proof -
  have "pow2 (int m - int n) * 2 ^ n = 2 ^ m"
    using pow2_add[of "int m - int n" "int n"] by (simp add: pow2_nat)
  then show ?thesis by (simp add: field_simps)
qed

section \<open>The exponent\<close>

lemma ilog2_bounds:
  assumes "0 < r"
  shows "pow2 (ilog2 r) \<le> r \<and> r < pow2 (ilog2 r + 1)"
proof -
  obtain a b where q: "quotient_of r = (a, b)" by (cases "quotient_of r")
  have b: "0 < b" and r: "r = of_int a / of_int b"
    using q quotient_of_denom_pos quotient_of_div by blast+
  then have a: "0 < a" using assms by (simp add: zero_less_divide_iff)
  obtain A where A: "floorlog 2 (nat a) = Suc A"
    using a floorlog_eq_zero_iff[of 2 "nat a"] by (cases "floorlog 2 (nat a)") auto
  obtain B where B: "floorlog 2 (nat b) = Suc B"
    using b floorlog_eq_zero_iff[of 2 "nat b"] by (cases "floorlog 2 (nat b)") auto
  have an: "2 ^ A \<le> nat a" "nat a < 2 ^ Suc A" using floorlog_bounds[of "nat a" 2] a A by simp_all
  have bn: "2 ^ B \<le> nat b" "nat b < 2 ^ Suc B" using floorlog_bounds[of "nat b" 2] b B by simp_all
  have ar: "(2 ^ A :: rat) \<le> of_int a" "(of_int a :: rat) < 2 ^ Suc A"
    using an a by (metis le_nat_iff less_imp_le of_int_le_iff of_int_numeral of_int_power of_nat_numeral of_nat_power,
      metis nat_less_iff less_imp_le of_int_less_iff of_int_numeral of_int_power of_nat_numeral of_nat_power)
  have br: "(2 ^ B :: rat) \<le> of_int b" "(of_int b :: rat) < 2 ^ Suc B"
    using bn b by (metis le_nat_iff less_imp_le of_int_le_iff of_int_numeral of_int_power of_nat_numeral of_nat_power,
      metis nat_less_iff less_imp_le of_int_less_iff of_int_numeral of_int_power of_nat_numeral of_nat_power)
  let ?k = "int (Suc A) - int (Suc B)"
  have "pow2 (?k - 1) = 2 ^ A / 2 ^ Suc B"
    using pow2_diff_nat[of A "Suc B"] by (simp add: diff_diff_eq add.commute)
  also have "\<dots> \<le> r" unfolding r using ar br a b by (intro frac_le) simp_all
  finally have low: "pow2 (?k - 1) \<le> r" .
  have "r < 2 ^ Suc A / 2 ^ B" unfolding r using ar br a b by (intro frac_less) simp_all
  also have "\<dots> = pow2 (?k + 1)"
    using pow2_diff_nat[of "Suc A" B] by (simp add: algebra_simps)
  finally have high: "r < pow2 (?k + 1)" .
  show ?thesis
    using low high by (auto simp: ilog2_def q A B Let_def not_le)
qed

lemma ilog2_mono: "0 < r \<Longrightarrow> r \<le> s \<Longrightarrow> ilog2 r \<le> ilog2 s"
proof -
  assume "0 < r" "r \<le> s"
  then have "pow2 (ilog2 r) < pow2 (ilog2 s + 1)"
    using ilog2_bounds[of r] ilog2_bounds[of s] by linarith
  then show ?thesis by (simp add: pow2_less_iff)
qed

section \<open>Rounding\<close>

lemma rne_of_int [simp]: "rne (of_int n) = n"
  by (simp add: rne_def Let_def)

lemma rne_bounds: "\<lfloor>x\<rfloor> \<le> rne x \<and> rne x \<le> \<lceil>x\<rceil>"
proof (cases "x = of_int \<lfloor>x\<rfloor>")
  case True
  then have "rne x = \<lfloor>x\<rfloor>" by (metis rne_of_int)
  then show ?thesis by linarith
next
  case False
  then have "\<lceil>x\<rceil> = \<lfloor>x\<rfloor> + 1" by (simp add: ceiling_altdef)
  then show ?thesis by (auto simp: rne_def Let_def)
qed

lemma rne_mono: "x \<le> y \<Longrightarrow> rne x \<le> rne y"
proof (cases "\<lfloor>x\<rfloor> = \<lfloor>y\<rfloor>")
  case True
  assume "x \<le> y"
  then have "x - of_int \<lfloor>x\<rfloor> \<le> y - of_int \<lfloor>y\<rfloor>" using True by simp
  then show ?thesis unfolding rne_def Let_def using True by (auto split: if_splits)
next
  case False
  assume "x \<le> y"
  then have "\<lfloor>x\<rfloor> \<le> \<lfloor>y\<rfloor>" by (rule floor_mono)
  then have "\<lfloor>x\<rfloor> + 1 \<le> \<lfloor>y\<rfloor>" using False by linarith
  moreover have "\<lceil>x\<rceil> \<le> \<lfloor>x\<rfloor> + 1" by linarith
  ultimately show ?thesis using rne_bounds[of x] rne_bounds[of y] by linarith
qed

lemma rne_le: "x \<le> of_int n \<Longrightarrow> rne x \<le> n"
  using rne_mono[of x "of_int n"] by simp

lemma rne_ge: "of_int n \<le> x \<Longrightarrow> n \<le> rne x"
  using rne_mono[of "of_int n" x] by simp

lemma rne_uminus: "rne (- x) = - rne x"
proof (cases "x = of_int \<lfloor>x\<rfloor>")
  case True
  then have "- x = of_int (- \<lfloor>x\<rfloor>)" by (metis of_int_minus)
  then have "rne (- x) = - \<lfloor>x\<rfloor>" by (metis rne_of_int)
  moreover have "rne x = \<lfloor>x\<rfloor>" using True by (metis rne_of_int)
  ultimately show ?thesis by simp
next
  case False
  then have f: "\<lfloor>- x\<rfloor> = - \<lfloor>x\<rfloor> - 1" by (simp add: floor_minus ceiling_altdef)
  let ?d = "x - of_int \<lfloor>x\<rfloor>"
  have d: "- x - of_int (- \<lfloor>x\<rfloor> - 1) = 1 - ?d" by simp
  have "rne (- x) = (if 1 - ?d < 1 / 2 then - \<lfloor>x\<rfloor> - 1 else if 1 / 2 < 1 - ?d then - \<lfloor>x\<rfloor>
      else if even (- \<lfloor>x\<rfloor> - 1) then - \<lfloor>x\<rfloor> - 1 else - \<lfloor>x\<rfloor>)"
    unfolding rne_def f d Let_def by simp
  moreover have "rne x = (if ?d < 1 / 2 then \<lfloor>x\<rfloor> else if 1 / 2 < ?d then \<lfloor>x\<rfloor> + 1
      else if even \<lfloor>x\<rfloor> then \<lfloor>x\<rfloor> else \<lfloor>x\<rfloor> + 1)"
    unfolding rne_def Let_def by simp
  ultimately show ?thesis by auto
qed

lemma rnd_zero [simp]: "rnd fmt 0 = 0"
  by (simp add: rnd_def)

lemma rnd_uminus: "rnd fmt (- r) = - rnd fmt r"
  using rne_uminus[of "r / pow2 (ulp_exp fmt r)"]
  by (simp add: rnd_def ulp_exp_def Let_def)

text \<open>A value on the grid of \<open>r\<close>'s ulp bounds the rounding of \<open>r\<close>.\<close>

lemma rnd_le_grid:
  assumes "0 < r" "r \<le> of_int m * pow2 (ulp_exp fmt r)"
  shows "rnd fmt r \<le> of_int m * pow2 (ulp_exp fmt r)"
proof -
  have "r / pow2 (ulp_exp fmt r) \<le> of_int m" using assms(2) by (simp add: divide_le_eq)
  then have "rne (r / pow2 (ulp_exp fmt r)) \<le> m" by (rule rne_le)
  then show ?thesis using assms(1) by (simp add: rnd_def Let_def)
qed

lemma rnd_ge_grid:
  assumes "0 < r" "of_int m * pow2 (ulp_exp fmt r) \<le> r"
  shows "of_int m * pow2 (ulp_exp fmt r) \<le> rnd fmt r"
proof -
  have "of_int m \<le> r / pow2 (ulp_exp fmt r)" using assms(2) by (simp add: le_divide_eq)
  then have "m \<le> rne (r / pow2 (ulp_exp fmt r))" by (rule rne_ge)
  then show ?thesis using assms(1) by (simp add: rnd_def Let_def)
qed

lemma rnd_pos_mono:
  assumes "0 < prec fmt" "0 < r" "r \<le> s"
  shows "rnd fmt r \<le> rnd fmt s"
proof -
  have s: "0 < s" using assms by linarith
  have le: "ilog2 r \<le> ilog2 s" using ilog2_mono assms(2,3) .
  show ?thesis
  proof (cases "ulp_exp fmt r = ulp_exp fmt s")
    case True
    have "r / pow2 (ulp_exp fmt s) \<le> s / pow2 (ulp_exp fmt s)"
      using assms(3) by (simp add: divide_right_mono order_less_imp_le)
    then show ?thesis using rne_mono assms(2) s True by (simp add: rnd_def Let_def)
  next
    case False
    let ?P = "pow2 (ilog2 s)" and ?p = "int (prec fmt) - 1"
    have es: "ulp_exp fmt s = ilog2 s - ?p" and lt: "ilog2 r < ilog2 s"
      and ers: "ulp_exp fmt r \<le> ilog2 s"
      using False le assms(1,2) s by (auto simp: ulp_exp_def max_def split: if_splits)
    have "pow2 (ilog2 r + 1) \<le> ?P" using lt by (intro pow2_mono) simp
    then have "r \<le> ?P" using ilog2_bounds[OF assms(2)] by linarith
    then have "r \<le> of_int (2 ^ nat (ilog2 s - ulp_exp fmt r)) * pow2 (ulp_exp fmt r)"
      using pow2_split[OF ers] by simp
    from rnd_le_grid[OF assms(2) this] have "rnd fmt r \<le> ?P" using pow2_split[OF ers] by simp
    moreover have "ulp_exp fmt s \<le> ilog2 s" using es assms(1) by simp
    note split = pow2_split[OF this]
    have "?P \<le> s" using ilog2_bounds[OF s] by simp
    then have "of_int (2 ^ nat (ilog2 s - ulp_exp fmt s)) * pow2 (ulp_exp fmt s) \<le> s" using split by simp
    from rnd_ge_grid[OF s this] have "?P \<le> rnd fmt s" using split by simp
    ultimately show ?thesis by linarith
  qed
qed

lemma rnd_nonneg: "0 \<le> r \<Longrightarrow> 0 \<le> rnd fmt r"
proof (cases "r = 0")
  case False
  assume "0 \<le> r"
  then have "of_int 0 * pow2 (ulp_exp fmt r) \<le> rnd fmt r"
    using False by (intro rnd_ge_grid) simp_all
  then show ?thesis by simp
qed simp

lemma rnd_mono:
  assumes "0 < prec fmt" "r \<le> s"
  shows "rnd fmt r \<le> rnd fmt s"
proof -
  consider "0 < r" | "r \<le> 0" "0 \<le> s" | "s < 0" using assms(2) by linarith
  then show ?thesis
  proof cases
    case 1
    then show ?thesis using rnd_pos_mono assms by blast
  next
    case 2
    then show ?thesis using rnd_nonneg[of s fmt] rnd_nonneg[of "- r" fmt] by (simp add: rnd_uminus)
  next
    case 3
    then have "rnd fmt (- s) \<le> rnd fmt (- r)" using assms by (intro rnd_pos_mono) simp_all
    then show ?thesis by (simp add: rnd_uminus)
  qed
qed

text \<open>Numbers of the format round to themselves.\<close>

definition representable :: "float_format \<Rightarrow> rat \<Rightarrow> bool" where
  "representable fmt x \<longleftrightarrow> (\<exists>m e. x = of_int m * pow2 e \<and> \<bar>m\<bar> < 2 ^ prec fmt \<and> quantum_exp fmt \<le> e)"

lemma rnd_representable:
  assumes "representable fmt x"
  shows "rnd fmt x = x"
proof (cases "x = 0")
  case False
  obtain m e where x: "x = of_int m * pow2 e" and m: "\<bar>m\<bar> < 2 ^ prec fmt" and e: "quantum_exp fmt \<le> e"
    using assms by (auto simp: representable_def)
  have "\<bar>x\<bar> = of_int \<bar>m\<bar> * pow2 e" using pow2_pos[of e] by (simp add: x abs_mult abs_of_pos)
  moreover have "(of_int \<bar>m\<bar> :: rat) < 2 ^ prec fmt" using m by (metis of_int_less_iff of_int_numeral of_int_power)
  ultimately have "\<bar>x\<bar> < pow2 (int (prec fmt) + e)" by (simp add: pow2_add pow2_nat)
  then have "pow2 (ilog2 \<bar>x\<bar>) < pow2 (int (prec fmt) + e)"
    using ilog2_bounds[of "\<bar>x\<bar>"] False by linarith
  then have "ilog2 \<bar>x\<bar> < int (prec fmt) + e" by (simp add: pow2_less_iff)
  then have "ulp_exp fmt x \<le> e" using e by (simp add: ulp_exp_def)
  then have "x / pow2 (ulp_exp fmt x) = of_int (m * 2 ^ nat (e - ulp_exp fmt x))"
  proof -
    let ?u = "ulp_exp fmt x"
    have "x = of_int m * (of_int (2 ^ nat (e - ?u)) * pow2 ?u)"
      using pow2_split[OF \<open>?u \<le> e\<close>] x by simp
    then have "x / pow2 ?u = of_int m * of_int (2 ^ nat (e - ?u))"
      by (metis mult.assoc nonzero_mult_div_cancel_right pow2_nonzero)
    then show ?thesis by simp
  qed
  then have "of_int (rne (x / pow2 (ulp_exp fmt x))) = x / pow2 (ulp_exp fmt x)"
    by (metis rne_of_int)
  then show ?thesis using False by (simp add: rnd_def Let_def)
qed simp

lemma rnd_between:
  assumes "0 < prec fmt" "representable fmt lo" "representable fmt hi" "lo \<le> r" "r \<le> hi"
  shows "lo \<le> rnd fmt r \<and> rnd fmt r \<le> hi"
  using rnd_mono[OF assms(1,4)] rnd_mono[OF assms(1,5)] rnd_representable assms(2,3) by simp

lemma representable_int:
  "\<bar>n\<bar> < 2 ^ prec fmt \<Longrightarrow> quantum_exp fmt \<le> 0 \<Longrightarrow> representable fmt (of_int n)"
  unfolding representable_def by (rule exI[of _ n], rule exI[of _ 0]) (simp add: pow2_def)

lemma fmt_simps [simp]:
  "prec F32 = 24" "quantum_exp F32 = - 149" "top_exp F32 = 128"
  "prec F64 = 53" "quantum_exp F64 = - 1074" "top_exp F64 = 1024"
  by (simp_all add: F32_def F64_def)

text \<open>No overflow below the top of the format.\<close>

lemma fl_Fin: "\<bar>rnd fmt r\<bar> < pow2 (top_exp fmt) \<Longrightarrow> fl fmt r = Fin (rnd fmt r)"
  by (auto simp: fl_def Let_def)

lemma fl_between:
  assumes "0 < prec fmt" "representable fmt lo" "representable fmt hi" "lo \<le> r" "r \<le> hi"
    and "\<bar>lo\<bar> < pow2 (top_exp fmt)" "\<bar>hi\<bar> < pow2 (top_exp fmt)"
  shows "fl fmt r = Fin (rnd fmt r)" "lo \<le> rnd fmt r" "rnd fmt r \<le> hi"
  using rnd_between[OF assms(1-5)] assms(6,7) by (auto intro!: fl_Fin)

lemma fl_exact:
  "representable fmt x \<Longrightarrow> \<bar>x\<bar> < pow2 (top_exp fmt) \<Longrightarrow> fl fmt x = Fin x"
  using fl_Fin[of fmt x] rnd_representable[of fmt x] by simp

lemma pow2_numeral: "pow2 (numeral k) = 2 ^ numeral k"
  by (simp add: pow2_def)

section \<open>The rounding error\<close>

lemma rne_error: "\<bar>of_int (rne x) - x\<bar> \<le> 1 / 2"
proof -
  have "of_int \<lfloor>x\<rfloor> \<le> x" "x < of_int \<lfloor>x\<rfloor> + 1" by linarith+
  then show ?thesis unfolding rne_def Let_def by (auto simp: abs_le_iff)
qed

text \<open>A value of magnitude up to a power of two moves by at most half of its last place.\<close>

lemma rnd_error:
  assumes "\<bar>r\<bar> \<le> pow2 k" "quantum_exp fmt + int (prec fmt) \<le> k + 1"
  shows "\<bar>rnd fmt r - r\<bar> \<le> pow2 (k - int (prec fmt))"
proof (cases "r = 0")
  case True
  then show ?thesis by (simp add: order_less_imp_le)
next
  case False
  let ?q = "pow2 (ulp_exp fmt r)" and ?e = "k - int (prec fmt)"
  have "pow2 (ilog2 \<bar>r\<bar>) \<le> pow2 k" using ilog2_bounds[of "\<bar>r\<bar>"] False assms(1) by linarith
  then have "ilog2 \<bar>r\<bar> \<le> k" using pow2_less[of k "ilog2 \<bar>r\<bar>"] by linarith
  then have "ulp_exp fmt r \<le> 1 + ?e" using assms(2) by (simp add: ulp_exp_def)
  then have q: "?q \<le> 2 * pow2 ?e" using pow2_mono[of "ulp_exp fmt r" "1 + ?e"] by (simp add: pow2_add[of 1 ?e] pow2_one)
  have "rnd fmt r - r = (of_int (rne (r / ?q)) - r / ?q) * ?q"
    using False by (simp add: rnd_def Let_def left_diff_distrib)
  then have "\<bar>rnd fmt r - r\<bar> = \<bar>of_int (rne (r / ?q)) - r / ?q\<bar> * ?q"
    by (simp add: abs_mult abs_of_pos)
  also have "\<dots> \<le> 1 / 2 * ?q" by (intro mult_right_mono rne_error) (simp add: order_less_imp_le)
  finally show ?thesis using q by linarith
qed

lemma rnd_relative_error:
  assumes "pow2 (quantum_exp fmt + int (prec fmt)) \<le> \<bar>r\<bar>" "0 < prec fmt"
  shows "\<bar>rnd fmt r - r\<bar> \<le> \<bar>r\<bar> * pow2 (- int (prec fmt))"
proof -
  have "0 < \<bar>r\<bar>" using assms(1) pow2_pos[of "quantum_exp fmt + int (prec fmt)"] by linarith
  note b = ilog2_bounds[OF this]
  let ?i = "ilog2 \<bar>r\<bar>" and ?q = "pow2 (ulp_exp fmt r)"
  have "pow2 (quantum_exp fmt + int (prec fmt)) < pow2 (?i + 1)" using b assms(1) by linarith
  then have "ulp_exp fmt r = 1 + (?i - int (prec fmt))" by (simp add: pow2_less_iff ulp_exp_def)
  then have q: "?q = 2 * (pow2 ?i * pow2 (- int (prec fmt)))"
    using pow2_add[of ?i "- int (prec fmt)"] by (simp add: pow2_add[of 1] pow2_one)
  have "rnd fmt r - r = (of_int (rne (r / ?q)) - r / ?q) * ?q"
    using \<open>0 < \<bar>r\<bar>\<close> by (simp add: rnd_def Let_def left_diff_distrib)
  then have "\<bar>rnd fmt r - r\<bar> = \<bar>of_int (rne (r / ?q)) - r / ?q\<bar> * ?q"
    by (simp add: abs_mult abs_of_pos)
  also have "\<dots> \<le> 1 / 2 * ?q" by (intro mult_right_mono rne_error) (simp add: order_less_imp_le)
  also have "\<dots> = pow2 ?i * pow2 (- int (prec fmt))" by (simp add: q)
  also have "\<dots> \<le> \<bar>r\<bar> * pow2 (- int (prec fmt))" using b by (intro mult_right_mono) simp_all
  finally show ?thesis .
qed

lemma fl_error:
  assumes "\<bar>r\<bar> \<le> pow2 k" "quantum_exp fmt + int (prec fmt) \<le> k" "k < top_exp fmt" "0 < prec fmt"
  obtains x where "fl fmt r = Fin x" "\<bar>x - r\<bar> \<le> pow2 (k - int (prec fmt))"
proof -
  have m: "1 < (2 :: int) ^ prec fmt" using assms(4) by (rule one_less_power[rotated]) simp
  have rep: "representable fmt (pow2 k)" "representable fmt (- pow2 k)"
    unfolding representable_def
    by (rule exI[of _ 1], rule exI[of _ k], use m assms(2,4) in simp,
      rule exI[of _ "- 1"], rule exI[of _ k], use m assms(2,4) in simp)
  have top: "\<bar>pow2 k\<bar> < pow2 (top_exp fmt)" using pow2_less[OF assms(3)] by (simp add: abs_of_pos)
  have "fl fmt r = Fin (rnd fmt r)"
    by (rule fl_between(1)[OF assms(4) rep(2,1)]) (use assms(1) top in \<open>simp_all add: abs_le_iff\<close>)
  then show thesis using that rnd_error assms by simp
qed

section \<open>Casts and comparisons\<close>

lemma to_int_sat_bounds: "lo \<le> 0 \<Longrightarrow> 0 \<le> hi \<Longrightarrow> lo \<le> to_int_sat lo hi x \<and> to_int_sat lo hi x \<le> hi"
  by (cases x) auto

lemma trunc_rat_between:
  assumes "of_int lo \<le> r" "r \<le> of_int hi"
  shows "lo \<le> trunc_rat r \<and> trunc_rat r \<le> hi"
proof (cases "0 \<le> r")
  case True
  then show ?thesis using assms by (simp add: trunc_rat_def) linarith
next
  case False
  then show ?thesis using assms by (simp add: trunc_rat_def) linarith
qed

lemma to_int_sat_between:
  assumes "of_int l \<le> r" "r \<le> of_int h" "lo \<le> l" "h \<le> hi"
  shows "l \<le> to_int_sat lo hi (Fin r) \<and> to_int_sat lo hi (Fin r) \<le> h"
  using trunc_rat_between[OF assms(1,2)] assms(3,4) by auto

lemma trunc_rat_error: "\<bar>of_int (trunc_rat r) - r\<bar> < 1"
proof (cases "0 \<le> r")
  case True
  then show ?thesis by (simp add: trunc_rat_def) linarith
next
  case False
  then show ?thesis by (simp add: trunc_rat_def) linarith
qed

lemma to_int_sat_error:
  assumes "of_int lo \<le> r" "r \<le> of_int hi"
  shows "\<bar>of_int (to_int_sat lo hi (Fin r)) - r\<bar> < 1"
  using trunc_rat_between[OF assms] trunc_rat_error[of r] by simp

lemma clamp_finite:
  assumes "x \<noteq> NaN" "a \<le> b"
  shows "\<exists>r. flt_clamp (Fin a) (Fin b) x = Fin r \<and> a \<le> r \<and> r \<le> b"
  using assms by (cases x) (auto simp: flt_clamp_def)

end
