(* ===== verification/Adapt.thy ===== *)
theory Adapt
  imports Codec Ieee_Float
begin

text \<open>
  \<open>src/src/transport/adapt.rs\<close>: probe planning, the goodput estimate, the sender's quality and
  buffer adaptation, the receiver's buffer adaptation and the pacing clock. Integers are \<open>nat\<close> with
  the saturations of the code; the two unchecked operations that could wrap are taken modulo their
  width. Durations and instants are microseconds.
\<close>

section \<open>Constants and profiles\<close>

definition MAX_PROBE_BYTES :: nat where "MAX_PROBE_BYTES = 128 * 1024"
definition PROBE_STEPS_BPS :: "nat list" where
  "PROBE_STEPS_BPS = [500000, 1000000, 2000000, 4000000, 8000000]"
definition PROBE_PAYLOAD_BYTES :: nat where "PROBE_PAYLOAD_BYTES = 800"
definition PROBE_WIRE_BYTES :: nat where "PROBE_WIRE_BYTES = 46 + 16 + 13 + PROBE_PAYLOAD_BYTES"
definition MIN_BUFFER_MS :: nat where "MIN_BUFFER_MS = 20"
definition MAX_BUFFER_MS :: nat where "MAX_BUFFER_MS = 150"

lemmas adapt_consts = MAX_PROBE_BYTES_def PROBE_STEPS_BPS_def PROBE_PAYLOAD_BYTES_def
  PROBE_WIRE_BYTES_def MIN_BUFFER_MS_def MAX_BUFFER_MS_def

datatype profile = Pcm | Adpcm48 | Adpcm24

fun profile_codec :: "profile \<Rightarrow> byte" where
  "profile_codec Pcm = CODEC_PCM"
| "profile_codec Adpcm48 = CODEC_ADPCM48"
| "profile_codec Adpcm24 = CODEC_ADPCM24"

definition profile_name :: "profile \<Rightarrow> string" where
  "profile_name p = codec_name (profile_codec p)"

fun default_buffer_ms :: "profile \<Rightarrow> nat" where
  "default_buffer_ms Pcm = 20"
| "default_buffer_ms Adpcm48 = 40"
| "default_buffer_ms Adpcm24 = 80"

fun rank :: "profile \<Rightarrow> nat" where
  "rank Pcm = 0" | "rank Adpcm48 = 1" | "rank Adpcm24 = 2"

fun step_down :: "profile \<Rightarrow> profile" where
  "step_down Pcm = Adpcm48" | "step_down Adpcm48 = Adpcm24" | "step_down Adpcm24 = Adpcm24"

fun step_up :: "profile \<Rightarrow> profile" where
  "step_up Adpcm24 = Adpcm48" | "step_up Adpcm48 = Pcm" | "step_up Pcm = Pcm"

section \<open>Probe planning\<close>

record probe_packet_spec =
  ps_step :: nat
  ps_rate_bps :: nat
  ps_payload :: nat
  ps_datagram_len :: nat
  ps_delay_after :: nat

text \<open>
  The inner \<open>while packets < 20\<close>, counting the packets still to plan; the flag tells whether the
  byte budget ended the whole plan (\<open>return plan\<close>).
\<close>

fun plan_step :: "nat \<Rightarrow> nat \<Rightarrow> nat \<Rightarrow> nat \<Rightarrow> probe_packet_spec list \<Rightarrow> nat
    \<Rightarrow> probe_packet_spec list \<times> nat \<times> bool" where
  "plan_step max_bytes stp rate 0 plan used = (plan, used, False)"
| "plan_step max_bytes stp rate (Suc left) plan used =
     (let datagram_len = 46 + 16 + (13 + 800)
      in if max_bytes < used + datagram_len then (plan, used, True)
         else
           (let bits = datagram_len * 8;
                micros = max (bits * 1000000 div max rate 1) 1
            in plan_step max_bytes stp rate left
                 (plan @ [\<lparr>ps_step = stp, ps_rate_bps = rate, ps_payload = 800,
                           ps_datagram_len = datagram_len, ps_delay_after = micros\<rparr>])
                 (used + datagram_len)))"

fun plan_steps :: "nat \<Rightarrow> (nat \<times> nat) list \<Rightarrow> probe_packet_spec list \<Rightarrow> nat \<Rightarrow> probe_packet_spec list" where
  "plan_steps max_bytes [] plan used = plan"
| "plan_steps max_bytes ((stp, rate) # steps) plan used =
     (case plan_step max_bytes stp rate 20 plan used of
        (plan, used, stopped) \<Rightarrow> if stopped then plan else plan_steps max_bytes steps plan used)"

definition plan_probe :: "nat \<Rightarrow> probe_packet_spec list" where
  "plan_probe max_bytes =
     plan_steps (min max_bytes MAX_PROBE_BYTES) (enumerate 0 PROBE_STEPS_BPS) [] 0"

section \<open>Goodput\<close>

definition probe_wire_bytes :: "nat \<Rightarrow> nat" where
  "probe_wire_bytes payload_bytes =
     (if payload_bytes = 0 then 0
      else (payload_bytes + PROBE_PAYLOAD_BYTES - 1) div PROBE_PAYLOAD_BYTES * PROBE_WIRE_BYTES)"

definition effective_goodput_bps :: "nat \<Rightarrow> nat \<Rightarrow> nat" where
  "effective_goodput_bps wire_bytes duration_us =
     (if duration_us = 0 \<or> wire_bytes = 0 then 0
      else (wire_bytes * 8 * 1000000) mod 2 ^ 64 div duration_us)"

text \<open>A step is \<open>(paced rate, sent payload, received payload, send span, receive span)\<close>.\<close>

type_synonym probe_step = "nat \<times> nat \<times> nat \<times> nat \<times> nat"

text \<open>One round of the loop of \<open>highest_sustainable_step_timed\<close>.\<close>

fun best_step :: "probe_step \<Rightarrow> nat option \<Rightarrow> nat option" where
  "best_step (rate, sent, recv, send_us, recv_us) best =
     (if sent = 0 then best
      else if recv * 100 < sent * 90 then best
      else
        (let sustainable =
           (if 0 < send_us \<and> 0 < recv_us
            then min (min rate (effective_goodput_bps (probe_wire_bytes sent) send_us))
                     (effective_goodput_bps (probe_wire_bytes recv) recv_us)
            else rate)
         in if sustainable = 0 then best
            else
              (let sustainable = min sustainable (PROBE_STEPS_BPS ! 4)
               in Some (case best of None \<Rightarrow> sustainable | Some b \<Rightarrow> max b sustainable))))"

definition highest_sustainable_step_timed :: "probe_step list \<Rightarrow> nat option" where
  "highest_sustainable_step_timed steps = fold best_step steps None"

definition highest_sustainable_step :: "(nat \<times> nat \<times> nat) list \<Rightarrow> nat option" where
  "highest_sustainable_step steps =
     highest_sustainable_step_timed (map (\<lambda>(r, s, rv). (r, s, rv, 0, 0)) steps)"

definition profile_for_floor :: "nat option \<Rightarrow> profile" where
  "profile_for_floor floor_bps =
     (case floor_bps of
        Some rate \<Rightarrow> if 2000000 \<le> rate then Pcm else if 1000000 \<le> rate then Adpcm48 else Adpcm24
      | None \<Rightarrow> Adpcm24)"

section \<open>The sender's adaptation\<close>

record path_sample =
  sm_loss :: flt
  sm_rtt_us :: nat
  sm_jitter_us :: nat
  sm_underruns :: nat

record adapt_state =
  ad_profile :: profile
  ad_target_ms :: nat
  ad_bad :: nat

definition adapt_start :: adapt_state where
  "adapt_start = \<lparr>ad_profile = Pcm, ad_target_ms = default_buffer_ms Pcm, ad_bad = 0\<rparr>"

definition apply_floor :: "adapt_state \<Rightarrow> nat option \<Rightarrow> bool \<Rightarrow> adapt_state" where
  "apply_floor ad floor_bps gradual =
     (let target = profile_for_floor floor_bps;
          ad = (if rank (ad_profile ad) < rank target
                then ad\<lparr>ad_profile := target,
                        ad_target_ms := max (ad_target_ms ad) (default_buffer_ms target)\<rparr>
                else if \<not> gradual
                then ad\<lparr>ad_profile := target, ad_target_ms := default_buffer_ms target\<rparr>
                else if rank target < rank (ad_profile ad)
                then ad\<lparr>ad_profile := step_up (ad_profile ad)\<rparr>
                else ad)
      in ad\<lparr>ad_target_ms := clamp MIN_BUFFER_MS MAX_BUFFER_MS (ad_target_ms ad), ad_bad := 0\<rparr>)"

definition want_ms :: "profile \<Rightarrow> path_sample \<Rightarrow> nat" where
  "want_ms p sm =
     (let want = default_buffer_ms p;
          want = sat_add u32_max want (sm_jitter_us sm div 1000);
          want = sat_add u32_max want (sm_rtt_us sm div 2000);
          want = (if 0 < sm_underruns sm then sat_add u32_max want 20 else want)
      in clamp MIN_BUFFER_MS MAX_BUFFER_MS want)"

definition LOSS_BAD :: flt where "LOSS_BAD = fl F32 (1 / 10)"
definition LOSS_WARN :: flt where "LOSS_WARN = fl F32 (4 / 100)"

definition adapt_observe :: "adapt_state \<Rightarrow> path_sample \<Rightarrow> adapt_state" where
  "adapt_observe ad sm =
     (let want = want_ms (ad_profile ad) sm;
          ad = (if ad_target_ms ad < want
                then ad\<lparr>ad_target_ms := min ((ad_target_ms ad + 10) mod 2 ^ 32) want\<rparr>
                else if want < ad_target_ms ad
                then ad\<lparr>ad_target_ms := max (ad_target_ms ad - 10) want\<rparr>
                else ad);
          loss = (if is_finite (sm_loss sm) then flt_clamp (Fin 0) (Fin 1) (sm_loss sm) else Fin 1)
      in if flt_ge loss LOSS_BAD \<or> 3 \<le> sm_underruns sm
         then ad\<lparr>ad_profile := step_down (ad_profile ad), ad_bad := 0\<rparr>
         else if flt_ge loss LOSS_WARN
         then (let ad = ad\<lparr>ad_bad := sat_add u8_max (ad_bad ad) 1\<rparr>
               in if 2 \<le> ad_bad ad
                  then ad\<lparr>ad_profile := step_down (ad_profile ad), ad_bad := 0\<rparr> else ad)
         else ad\<lparr>ad_bad := 0\<rparr>)"

section \<open>The receiver's adaptation and the pacing clock\<close>

record receiver_adapt =
  ra_target_ms :: nat
  ra_stable :: nat

definition receiver_adapt_new :: receiver_adapt where
  "receiver_adapt_new = \<lparr>ra_target_ms = 20, ra_stable = 0\<rparr>"

definition ra_observe :: "receiver_adapt \<Rightarrow> nat \<Rightarrow> nat \<Rightarrow> nat \<times> receiver_adapt" where
  "ra_observe ra jitter underrun_delta =
     (let ra =
        (if 0 < underrun_delta
         then ra\<lparr>ra_target_ms := min (sat_add u32_max (ra_target_ms ra) 15) MAX_BUFFER_MS, ra_stable := 0\<rparr>
         else if ra_target_ms ra < jitter div 1000 + MIN_BUFFER_MS
         then ra\<lparr>ra_target_ms := min (sat_add u32_max (ra_target_ms ra) 5) MAX_BUFFER_MS, ra_stable := 0\<rparr>
         else
           (let ra = ra\<lparr>ra_stable := sat_add u8_max (ra_stable ra) 1\<rparr>
            in if 3 \<le> ra_stable ra \<and> MIN_BUFFER_MS < ra_target_ms ra
               then ra\<lparr>ra_target_ms := max (ra_target_ms ra - 5) MIN_BUFFER_MS, ra_stable := 0\<rparr>
               else ra))
      in (ra_target_ms ra, ra))"

definition next_pace :: "nat \<Rightarrow> nat \<Rightarrow> nat" where
  "next_pace scheduled_us now_us =
     (if 15000 < now_us - scheduled_us then sat_add u64_max now_us 5000
      else sat_add u64_max scheduled_us 5000)"

definition advance_pace :: "nat \<Rightarrow> nat \<Rightarrow> nat" where
  "advance_pace scheduled now =
     (if 15000 < now - scheduled then now + 5000 else scheduled + 5000)"

section \<open>The probe plan is a prefix of the full schedule\<close>

definition probe_spec :: "nat \<times> nat \<Rightarrow> probe_packet_spec" where
  "probe_spec sr = \<lparr>ps_step = fst sr, ps_rate_bps = snd sr, ps_payload = PROBE_PAYLOAD_BYTES,
     ps_datagram_len = PROBE_WIRE_BYTES,
     ps_delay_after = max (PROBE_WIRE_BYTES * 8 * 1000000 div max (snd sr) 1) 1\<rparr>"

text \<open>Twenty packets of every step, in step order.\<close>

definition full_schedule :: "(nat \<times> nat) list \<Rightarrow> probe_packet_spec list" where
  "full_schedule steps = concat (map (\<lambda>sr. replicate 20 (probe_spec sr)) steps)"

lemma plan_step_replicate:
  "plan_step m stp rate n plan used =
     (let k = min n ((m - used) div 875)
      in (plan @ replicate k (probe_spec (stp, rate)), used + 875 * k, k < n))"
proof (induction n arbitrary: plan used)
  case 0
  then show ?case by simp
next
  case (Suc n)
  show ?case
  proof (cases "m < used + 875")
    case True
    then have "(m - used) div 875 = 0" by simp
    then show ?thesis using True by simp
  next
    case False
    let ?q = "(m - (used + 875)) div 875"
    have "m - used = 875 + (m - (used + 875))" using False by simp
    then have q: "(m - used) div 875 = Suc ?q"
      by (metis Suc_eq_plus1 div_add_self1 zero_neq_numeral)
    have "plan_step m stp rate (Suc n) plan used
        = plan_step m stp rate n (plan @ [probe_spec (stp, rate)]) (used + 875)"
    proof -
      have e: "46 + 16 + (13 + 800) = (875 :: nat)" by simp
      have s: "probe_spec (stp, rate) = \<lparr>ps_step = stp, ps_rate_bps = rate, ps_payload = 800,
          ps_datagram_len = 875, ps_delay_after = max (875 * 8 * 1000000 div max rate 1) 1\<rparr>"
        by (simp only: probe_spec_def fst_conv snd_conv adapt_consts) simp
      show ?thesis
        unfolding plan_step.simps Let_def e if_not_P[OF False] s by (rule refl)
    qed
    also have "\<dots> = (let k = min n ?q
        in ((plan @ [probe_spec (stp, rate)]) @ replicate k (probe_spec (stp, rate)), used + 875 + 875 * k, k < n))"
      by (rule Suc.IH)
    finally have "plan_step m stp rate (Suc n) plan used = \<dots>" .
    moreover have "(let k = min (Suc n) (Suc ?q)
        in (plan @ replicate k (probe_spec (stp, rate)), used + 875 * k, k < Suc n))
      = (let k = min n ?q
        in ((plan @ [probe_spec (stp, rate)]) @ replicate k (probe_spec (stp, rate)), used + 875 + 875 * k, k < n))"
      unfolding Let_def by (simp add: min_def)
    ultimately show ?thesis unfolding q by (rule trans[OF _ sym])
  qed
qed

lemma plan_steps_take:
  "plan_steps m steps plan used = plan @ take ((m - used) div 875) (full_schedule steps)"
proof (induction steps arbitrary: plan used)
  case Nil
  then show ?case by (simp add: full_schedule_def)
next
  case (Cons sr steps)
  obtain stp rate where sr: "sr = (stp, rate)" by (cases sr)
  let ?q = "(m - used) div 875"
  have full: "full_schedule (sr # steps) = replicate 20 (probe_spec sr) @ full_schedule steps"
    by (simp add: full_schedule_def)
  show ?case
  proof (cases "?q < 20")
    case True
    then show ?thesis unfolding full by (simp add: sr plan_step_replicate Let_def)
  next
    case False
    then have "m - used = 20 * 875 + (m - (used + 17500))" by simp
    then have "?q = 20 + (m - (used + 17500)) div 875"
      by (metis div_mult_self3 zero_neq_numeral)
    then have q: "(m - (used + 17500)) div 875 = ?q - 20" by simp
    have "plan_steps m (sr # steps) plan used
        = plan_steps m steps (plan @ replicate 20 (probe_spec sr)) (used + 17500)"
      using False by (simp add: sr plan_step_replicate Let_def)
    then show ?thesis unfolding full Cons.IH q using False by simp
  qed
qed

lemma full_schedule_length: "length (full_schedule steps) = 20 * length steps"
  by (induction steps) (auto simp: full_schedule_def)

lemma sum_lengths_schedule:
  "set ps \<subseteq> set (full_schedule steps) \<Longrightarrow> sum_list (map ps_datagram_len ps) = 875 * length ps"
  by (induction ps) (auto simp: full_schedule_def probe_spec_def adapt_consts)

text \<open>
  The probe plan is a prefix of the fixed schedule of twenty 875-byte datagrams per rate step,
  the steps in increasing order of rate; it holds every datagram that the byte budget (at most
  128 KiB) allows, and the datagrams together never exceed the budget.
\<close>

theorem plan_probe_prefix:
  "plan_probe max_bytes
     = take (min max_bytes MAX_PROBE_BYTES div PROBE_WIRE_BYTES) (full_schedule (enumerate 0 PROBE_STEPS_BPS))
   \<and> length (plan_probe max_bytes) = min (min max_bytes MAX_PROBE_BYTES div PROBE_WIRE_BYTES) 100
   \<and> sum_list (map ps_datagram_len (plan_probe max_bytes)) \<le> min max_bytes MAX_PROBE_BYTES"
proof -
  let ?m = "min max_bytes MAX_PROBE_BYTES"
  let ?full = "full_schedule (enumerate 0 PROBE_STEPS_BPS)"
  have wire: "PROBE_WIRE_BYTES = 875" by (simp add: adapt_consts)
  have plan: "plan_probe max_bytes = take (?m div 875) ?full"
    unfolding plan_probe_def plan_steps_take by simp
  have len: "length (take (?m div 875) ?full) = min (?m div 875) 100"
    by (simp add: full_schedule_length PROBE_STEPS_BPS_def)
  have "sum_list (map ps_datagram_len (take (?m div 875) ?full)) = 875 * min (?m div 875) 100"
    using sum_lengths_schedule[of "take (?m div 875) ?full" "enumerate 0 PROBE_STEPS_BPS"] len
    by (simp add: set_take_subset)
  also have "\<dots> \<le> ?m" by linarith
  finally show ?thesis unfolding wire plan using len by simp
qed

section \<open>The best sustainable step\<close>

text \<open>What a single step vouches for, and the best of all steps as a maximum.\<close>

fun sustained :: "probe_step \<Rightarrow> nat" where
  "sustained (rate, sent, recv, send_us, recv_us) =
     (if sent = 0 \<or> recv * 100 < sent * 90 then 0
      else min (PROBE_STEPS_BPS ! 4)
        (if 0 < send_us \<and> 0 < recv_us
         then min rate (min (effective_goodput_bps (probe_wire_bytes sent) send_us)
                            (effective_goodput_bps (probe_wire_bytes recv) recv_us))
         else rate))"

definition best_reference :: "probe_step list \<Rightarrow> nat option" where
  "best_reference steps =
     (let goods = filter (\<lambda>b. 0 < b) (map sustained steps)
      in if goods = [] then None else Some (Max (set goods)))"

lemma top_step: "PROBE_STEPS_BPS ! 4 = 8000000"
  by (simp add: PROBE_STEPS_BPS_def)

lemma best_step_sustained:
  "best_step st best = (if sustained st = 0 then best
     else Some (case best of None \<Rightarrow> sustained st | Some b \<Rightarrow> max b (sustained st)))"
proof -
  obtain rate sent recv send_us recv_us where st: "st = (rate, sent, recv, send_us, recv_us)"
    by (cases st) auto
  show ?thesis
  proof (cases "sent = 0 \<or> recv * 100 < sent * 90")
    case True
    then show ?thesis by (auto simp: st)
  next
    case False
    define x where "x = (if 0 < send_us \<and> 0 < recv_us
      then min rate (min (effective_goodput_bps (probe_wire_bytes sent) send_us)
                         (effective_goodput_bps (probe_wire_bytes recv) recv_us)) else rate)"
    have s: "sustained st = min 8000000 x"
      using False by (simp add: st x_def top_step)
    have "best_step st best = (if x = 0 then best
        else Some (case best of None \<Rightarrow> min x 8000000 | Some b \<Rightarrow> max b (min x 8000000)))"
      using False unfolding st best_step.simps top_step Let_def x_def min.assoc by simp
    moreover have "min x 8000000 = 0 \<longleftrightarrow> x = 0" by (simp add: min_def)
    ultimately show ?thesis unfolding s min.commute[of 8000000 x] by simp
  qed
qed

lemma Max_absorb_max:
  fixes b :: nat
  shows "finite S \<Longrightarrow> Max (insert (max b s) S) = Max (insert b (insert s S))"
  by (cases "S = {}") (simp_all add: max.assoc)

lemma fold_best:
  "fold best_step steps best = (let goods = filter (\<lambda>b. 0 < b) (map sustained steps)
     in case best of None \<Rightarrow> if goods = [] then None else Some (Max (set goods))
        | Some b \<Rightarrow> Some (Max (insert b (set goods))))"
proof (induction steps arbitrary: best)
  case Nil
  then show ?case by (simp split: option.split)
next
  case (Cons st steps)
  show ?case
  proof (cases "sustained st = 0")
    case True
    then have "best_step st best = best" by (simp add: best_step_sustained)
    then show ?thesis using True by (simp add: Cons.IH)
  next
    case False
    let ?g = "filter (\<lambda>b. 0 < b) (map sustained steps)"
    have "Max (insert (max b (sustained st)) (set ?g)) = Max (insert b (insert (sustained st) (set ?g)))" for b
      by (rule Max_absorb_max) simp
    moreover have "fold best_step (st # steps) best = fold best_step steps
        (Some (case best of None \<Rightarrow> sustained st | Some b \<Rightarrow> max b (sustained st)))"
      using False by (simp add: best_step_sustained del: best_step.simps)
    ultimately show ?thesis using False
      by (cases best) (simp_all add: Cons.IH Let_def)
  qed
qed

text \<open>
  The goodput floor is the maximum, over the probe steps that delivered at least 90 percent of
  their payload, of the paced rate capped by the measured sending and receiving rates and by
  8 Mbit/s; there is none exactly when no step vouches for a positive rate.
\<close>

theorem highest_step_is_max:
  "highest_sustainable_step_timed steps = best_reference steps"
  by (simp add: highest_sustainable_step_timed_def best_reference_def fold_best)

lemma goodput_no_wrap:
  assumes "n \<le> u32_max" "0 < n" "0 < us"
  shows "effective_goodput_bps (probe_wire_bytes n) us = probe_wire_bytes n * 8000000 div us"
proof -
  have d: "probe_wire_bytes n = (n + 799) div 800 * 875" using assms by (simp add: probe_wire_bytes_def adapt_consts)
  have "(n + 799) div 800 \<le> 5368710" using assms(1) by (simp add: u32_max_def)
  then have "probe_wire_bytes n * 8 * 1000000 < 2 ^ 64" unfolding d by simp
  moreover have "probe_wire_bytes n \<noteq> 0" unfolding d using assms(2) by simp
  ultimately show ?thesis using assms(3) unfolding effective_goodput_bps_def by (simp add: mult.assoc)
qed

section \<open>The sender's adaptation stays in range\<close>

definition adapt_ok :: "adapt_state \<Rightarrow> bool" where
  "adapt_ok ad \<longleftrightarrow> MIN_BUFFER_MS \<le> ad_target_ms ad \<and> ad_target_ms ad \<le> MAX_BUFFER_MS \<and> ad_bad ad \<le> 1"

lemma buffer_consts: "MIN_BUFFER_MS = 20" "MAX_BUFFER_MS = 150"
  by (simp_all add: adapt_consts)

lemma want_ms_range: "20 \<le> want_ms p sm \<and> want_ms p sm \<le> 150"
  by (simp add: want_ms_def Let_def clamp_def buffer_consts)

text \<open>The move of the buffer target towards what the sample asks for.\<close>

definition approach :: "nat \<Rightarrow> nat \<Rightarrow> nat" where
  "approach t want = (if t < want then min (t + 10) want else max (t - 10) want)"

lemma observe_target:
  assumes "adapt_ok ad"
  shows "ad_target_ms (adapt_observe ad sm) = approach (ad_target_ms ad) (want_ms (ad_profile ad) sm)"
proof -
  have "(ad_target_ms ad + 10) mod 2 ^ 32 = ad_target_ms ad + 10"
    using assms by (simp add: adapt_ok_def buffer_consts)
  then show ?thesis by (auto simp: adapt_observe_def approach_def Let_def)
qed

lemma observe_profile:
  "ad_profile (adapt_observe ad sm) \<in> {ad_profile ad, step_down (ad_profile ad)}"
  "ad_bad (adapt_observe ad sm) \<le> 1"
  by (auto simp: adapt_observe_def Let_def)

lemma approach_range: "20 \<le> t \<Longrightarrow> t \<le> 150 \<Longrightarrow> 20 \<le> w \<Longrightarrow> w \<le> 150 \<Longrightarrow> 20 \<le> approach t w \<and> approach t w \<le> 150"
  by (auto simp: approach_def)

lemma adapt_start_ok: "adapt_ok adapt_start"
  by (simp add: adapt_ok_def adapt_start_def buffer_consts)

lemma observe_ok: "adapt_ok ad \<Longrightarrow> adapt_ok (adapt_observe ad sm)"
  using observe_target[of ad sm] observe_profile(2)[of ad sm]
    approach_range[of "ad_target_ms ad" "want_ms (ad_profile ad) sm"] want_ms_range[of "ad_profile ad" sm]
  by (simp add: adapt_ok_def buffer_consts)

lemma apply_floor_ok: "adapt_ok (apply_floor ad floor_bps gradual)"
  by (simp add: adapt_ok_def apply_floor_def Let_def clamp_def buffer_consts)

datatype adapt_op = AObserve path_sample | AFloor "nat option" bool

fun adapt_step :: "adapt_op \<Rightarrow> adapt_state \<Rightarrow> adapt_state" where
  "adapt_step (AObserve sm) ad = adapt_observe ad sm"
| "adapt_step (AFloor f g) ad = apply_floor ad f g"

lemma adapt_steps_ok: "adapt_ok ad \<Longrightarrow> adapt_ok (fold adapt_step ops ad)"
proof (induction ops arbitrary: ad)
  case (Cons x ops)
  then show ?case by (cases x) (simp_all add: observe_ok apply_floor_ok)
qed simp

lemma loss_consts:
  "LOSS_BAD = Fin (13421773 / 134217728)" "LOSS_WARN = Fin (10737418 / 268435456)"
  by (simp_all add: LOSS_BAD_def LOSS_WARN_def) code_simp+

text \<open>
  In every state the sender's adaptation can reach, by any samples (lossy, NaN, extreme) and
  any probe results, the buffer target lies between 20 and 150 milliseconds; one observation
  never improves the quality and lowers it by at most one step; a total or undefined loss always
  lowers it; and an applied floor never leaves a better quality than the floor supports.
\<close>

theorem adapt_reachable:
  fixes ops
  defines "ad \<equiv> fold adapt_step ops adapt_start"
  shows "MIN_BUFFER_MS \<le> ad_target_ms ad \<and> ad_target_ms ad \<le> MAX_BUFFER_MS
    \<and> ad_profile (adapt_observe ad sm) \<in> {ad_profile ad, step_down (ad_profile ad)}
    \<and> ad_profile (adapt_observe ad (sm\<lparr>sm_loss := NaN\<rparr>)) = step_down (ad_profile ad)
    \<and> ad_profile (adapt_observe ad (sm\<lparr>sm_loss := Fin 1\<rparr>)) = step_down (ad_profile ad)
    \<and> rank (profile_for_floor f) \<le> rank (ad_profile (apply_floor ad f g))"
proof -
  have "adapt_ok ad" unfolding ad_def by (rule adapt_steps_ok[OF adapt_start_ok])
  moreover have "ad_profile (adapt_observe ad (sm\<lparr>sm_loss := l\<rparr>)) = step_down (ad_profile ad)"
    if "l = NaN \<or> l = Fin 1" for l
    using that by (auto simp: adapt_observe_def Let_def flt_ge_def flt_clamp_def loss_consts)
  moreover have "rank (profile_for_floor f) \<le> rank (ad_profile (apply_floor ad f g))"
    by (cases "ad_profile ad"; cases "profile_for_floor f") (simp_all add: apply_floor_def Let_def)
  ultimately show ?thesis using observe_profile(1)[of ad sm] by (simp add: adapt_ok_def)
qed

section \<open>The buffer target converges\<close>

fun observe_times :: "nat \<Rightarrow> path_sample \<Rightarrow> adapt_state \<Rightarrow> adapt_state" where
  "observe_times 0 sm ad = ad"
| "observe_times (Suc n) sm ad = observe_times n sm (adapt_observe ad sm)"

lemma approach_closer:
  "(if t \<le> w then w - t else t - w) \<le> 10 * Suc n \<Longrightarrow>
   (if approach t w \<le> w then w - approach t w else approach t w - w) \<le> 10 * n"
  by (auto simp: approach_def split: if_splits)

lemma calm_keeps_profile:
  assumes "sm_loss sm = Fin 0" "sm_underruns sm < 3"
  shows "ad_profile (adapt_observe ad sm) = ad_profile ad"
  using assms by (simp add: adapt_observe_def Let_def flt_ge_def flt_clamp_def loss_consts)

lemma observe_times_converges:
  assumes "adapt_ok ad" "sm_loss sm = Fin 0" "sm_underruns sm < 3"
    and "(if ad_target_ms ad \<le> w then w - ad_target_ms ad else ad_target_ms ad - w) \<le> 10 * n"
    and "w = want_ms (ad_profile ad) sm"
  shows "ad_target_ms (observe_times n sm ad) = w \<and> ad_profile (observe_times n sm ad) = ad_profile ad"
  using assms
proof (induction n arbitrary: ad)
  case 0
  then show ?case by (simp split: if_splits)
next
  case (Suc n)
  let ?ad = "adapt_observe ad sm"
  have p: "ad_profile ?ad = ad_profile ad" using calm_keeps_profile Suc.prems(2,3) .
  have t: "ad_target_ms ?ad = approach (ad_target_ms ad) w"
    using observe_target[OF Suc.prems(1)] Suc.prems(5) by simp
  have "(if ad_target_ms ?ad \<le> w then w - ad_target_ms ?ad else ad_target_ms ?ad - w) \<le> 10 * n"
    unfolding t by (rule approach_closer[OF Suc.prems(4)])
  from Suc.IH[OF observe_ok[OF Suc.prems(1)] Suc.prems(2,3) this] Suc.prems(5) p
  show ?case by simp
qed

text \<open>
  C36. Liveness of the adaptation: on a path without loss and with fewer than three underruns per
  report, thirteen equal reports bring the buffer target from any reachable state to exactly the
  value the report asks for, and the quality profile does not change.
\<close>

theorem target_converges:
  assumes "adapt_ok ad" and "sm_loss sm = Fin 0" and "sm_underruns sm < 3"
  shows "ad_target_ms (observe_times 13 sm ad) = want_ms (ad_profile ad) sm
    \<and> ad_profile (observe_times 13 sm ad) = ad_profile ad"
proof (rule observe_times_converges[OF assms _ refl])
  have "20 \<le> ad_target_ms ad" "ad_target_ms ad \<le> 150" using assms(1) by (simp_all add: adapt_ok_def buffer_consts)
  then show "(if ad_target_ms ad \<le> want_ms (ad_profile ad) sm then want_ms (ad_profile ad) sm - ad_target_ms ad
      else ad_target_ms ad - want_ms (ad_profile ad) sm) \<le> 10 * 13"
    using want_ms_range[of "ad_profile ad" sm] by (simp split: if_split) linarith
qed

theorem target_converges_witness:
  "ad_target_ms (observe_times 13 \<lparr>sm_loss = Fin 0, sm_rtt_us = 30000, sm_jitter_us = 9000, sm_underruns = 1\<rparr>
     adapt_start) = 64"
  using target_converges[OF adapt_start_ok,
      of "\<lparr>sm_loss = Fin 0, sm_rtt_us = 30000, sm_jitter_us = 9000, sm_underruns = 1\<rparr>"]
  by (simp add: want_ms_def adapt_start_def sat_add_def clamp_def u32_max_def buffer_consts Let_def)

section \<open>The receiver's adaptation\<close>

definition ra_ok :: "receiver_adapt \<Rightarrow> bool" where
  "ra_ok ra \<longleftrightarrow> MIN_BUFFER_MS \<le> ra_target_ms ra \<and> ra_target_ms ra \<le> MAX_BUFFER_MS"

lemma ra_new_ok: "ra_ok receiver_adapt_new"
  by (simp add: ra_ok_def receiver_adapt_new_def buffer_consts)

lemma ra_observe_ok:
  assumes "ra_ok ra"
  shows "ra_ok (snd (ra_observe ra j u))" and "fst (ra_observe ra j u) = ra_target_ms (snd (ra_observe ra j u))"
  using assms by (auto simp: ra_ok_def ra_observe_def sat_add_def u32_max_def buffer_consts Let_def)

fun ra_run :: "(nat \<times> nat) list \<Rightarrow> receiver_adapt \<Rightarrow> receiver_adapt" where
  "ra_run [] ra = ra"
| "ra_run ((j, u) # xs) ra = ra_run xs (snd (ra_observe ra j u))"

lemma ra_run_ok: "ra_ok ra \<Longrightarrow> ra_ok (ra_run xs ra)"
  by (induction xs ra rule: ra_run.induct) (auto simp: ra_observe_ok)

text \<open>
  The receiver's buffer target stays between 20 and 150 milliseconds over any sequence of
  reports; a report with underruns raises it by 15 up to the limit, a report with jitter above the
  target raises it by 5, and a quiet one never raises it and lowers it by at most 5.
\<close>

theorem receiver_target_range:
  fixes xs
  defines "ra \<equiv> ra_run xs receiver_adapt_new"
  shows "MIN_BUFFER_MS \<le> ra_target_ms ra \<and> ra_target_ms ra \<le> MAX_BUFFER_MS
    \<and> (let t = ra_target_ms ra; t' = fst (ra_observe ra j u)
       in if 0 < u then t' = min (t + 15) MAX_BUFFER_MS
          else if t < j div 1000 + MIN_BUFFER_MS then t' = min (t + 5) MAX_BUFFER_MS
          else t' \<le> t \<and> t \<le> t' + 5)"
proof -
  have "ra_ok ra" unfolding ra_def by (rule ra_run_ok[OF ra_new_ok])
  then show ?thesis
    by (auto simp: ra_ok_def ra_observe_def sat_add_def u32_max_def buffer_consts Let_def)
qed

section \<open>Pacing\<close>

text \<open>
  The pacing clock: a wake-up at most 15 milliseconds late keeps the exact five-millisecond
  cadence (no drift), a later one restarts it five milliseconds from now; the next deadline is
  never in the past by more than 10 milliseconds, and the sender's \<open>Instant\<close> version agrees with the
  integer one while nothing saturates.
\<close>

theorem pacing:
  assumes "now + 5000 \<le> u64_max" and "sched + 5000 \<le> u64_max"
  shows "next_pace sched now = advance_pace sched now
    \<and> now \<le> next_pace sched now + 10000
    \<and> (if now \<le> sched + 15000 then next_pace sched now = sched + WIRE_PACE
       else next_pace sched now = now + WIRE_PACE)"
  using assms by (auto simp: next_pace_def advance_pace_def sat_add_def WIRE_PACE_def)

theorem pacing_witness:
  "next_pace 1000 3000 = 6000 \<and> next_pace 1000 40000 = 45000"
  using pacing[of 3000 1000] pacing[of 40000 1000]
  by (simp add: u64_max_def WIRE_PACE_def)

end
