(* ===== verification/Net_Addr.thy ===== *)
theory Net_Addr
  imports Prelude
begin

text \<open>
  \<open>IpAddr\<close>, \<open>Ipv4Addr\<close> and \<open>SocketAddr\<close> of the Rust standard library, with the classification
  predicates the source calls. An IPv4 address is its four octets, an IPv6 address its eight
  segments. The flow label and scope of an IPv6 socket address are not kept: the source never
  reads them.
\<close>

type_synonym ipv4 = "byte \<times> byte \<times> byte \<times> byte"

datatype ip_addr = V4 ipv4 | V6 "u16 list"

type_synonym socket_addr = "ip_addr \<times> u16"

definition sock_ip :: "socket_addr \<Rightarrow> ip_addr" where "sock_ip s = fst s"
definition sock_port :: "socket_addr \<Rightarrow> u16" where "sock_port s = snd s"

definition v4_broadcast :: ipv4 where "v4_broadcast = (255, 255, 255, 255)"
definition v4_localhost :: ipv4 where "v4_localhost = (127, 0, 0, 1)"
definition v4_unspecified :: ipv4 where "v4_unspecified = (0, 0, 0, 0)"

fun v4_is_loopback :: "ipv4 \<Rightarrow> bool" where
  "v4_is_loopback (a, b, c, d) \<longleftrightarrow> a = 127"

definition v4_is_unspecified :: "ipv4 \<Rightarrow> bool" where
  "v4_is_unspecified v \<longleftrightarrow> v = v4_unspecified"

definition v4_is_broadcast :: "ipv4 \<Rightarrow> bool" where
  "v4_is_broadcast v \<longleftrightarrow> v = v4_broadcast"

text \<open>RFC 1918: 10/8, 172.16/12 and 192.168/16.\<close>

fun v4_is_private :: "ipv4 \<Rightarrow> bool" where
  "v4_is_private (a, b, c, d) \<longleftrightarrow>
     a = 10 \<or> (a = 172 \<and> 16 \<le> unat b \<and> unat b \<le> 31) \<or> (a = 192 \<and> b = 168)"

definition v6_is_loopback :: "u16 list \<Rightarrow> bool" where
  "v6_is_loopback v \<longleftrightarrow> v = [0, 0, 0, 0, 0, 0, 0, 1]"

end
