(* ===== verification/Sender.thy ===== *)
theory Sender
  imports Packet Replay Adapt Net_Addr
begin

text \<open>
  \<open>src/src/transport/sender.rs\<close>: the sender's engine, that is its binding to a receiver epoch, the
  counters under which it seals packets, the acceptance of feedback and the probe bookkeeping. The
  \<open>u64\<close> and \<open>u32\<close> counters are \<open>nat\<close> with the saturation of the code; \<open>now_us\<close> is an argument as in
  the code, and the random session identifier is an argument of \<open>sender_new\<close>.
\<close>

record sender =
  se_token :: "byte list"
  se_session :: "byte list"
  se_name :: rstring
  se_keys :: "direction_keys option"
  se_epoch :: "byte list option"
  se_addr :: "socket_addr option"
  se_peer_name :: rstring
  se_instance :: "byte list option"
  se_counter :: nat
  se_replay :: replay_window
  se_audio_seq :: nat
  se_adapt :: adapt_state
  se_last_recv :: nat
  se_last_lost :: nat
  se_last_underruns :: nat
  se_rtt_us :: nat
  se_jitter_us :: nat
  se_loss :: flt
  se_goodput_bps :: nat
  se_probe_bytes :: "nat list"
  se_probe_recv_span_us :: "nat list"
  se_probe_send_first_us :: "nat list"
  se_probe_send_last_us :: "nat list"
  se_probe_gen :: u32

definition zeros5 :: "nat list" where "zeros5 = replicate 5 0"

definition sender_new :: "byte list \<Rightarrow> rstring \<Rightarrow> byte list \<Rightarrow> sender" where
  "sender_new tok name sess =
     \<lparr>se_token = tok, se_session = sess, se_name = name, se_keys = None, se_epoch = None,
      se_addr = None, se_peer_name = [], se_instance = None, se_counter = 0,
      se_replay = new_window 2048, se_audio_seq = 0, se_adapt = adapt_start, se_last_recv = 0,
      se_last_lost = 0, se_last_underruns = 0, se_rtt_us = 0, se_jitter_us = 0, se_loss = Fin 0,
      se_goodput_bps = 0, se_probe_bytes = zeros5, se_probe_recv_span_us = zeros5,
      se_probe_send_first_us = zeros5, se_probe_send_last_us = zeros5, se_probe_gen = 1\<rparr>"

definition bind_peer ::
  "crates \<Rightarrow> sender \<Rightarrow> byte list \<Rightarrow> socket_addr \<Rightarrow> rstring \<Rightarrow> byte list \<Rightarrow> bool \<times> sender" where
  "bind_peer l se ep addr name inst =
     (let rekeyed = se_epoch se \<noteq> Some ep;
          se = se\<lparr>se_addr := Some addr, se_peer_name := name, se_instance := Some inst\<rparr>
      in (rekeyed,
          if rekeyed
          then se\<lparr>se_epoch := Some ep, se_keys := Some (derive l (se_token se) ep (se_session se)),
                  se_counter := 0, se_replay := new_window 2048, se_audio_seq := 0,
                  se_last_recv := 0, se_last_lost := 0, se_last_underruns := 0,
                  se_probe_bytes := zeros5, se_probe_recv_span_us := zeros5,
                  se_probe_send_first_us := zeros5, se_probe_send_last_us := zeros5\<rparr>
          else se))"

definition begin_probe :: "sender \<Rightarrow> sender" where
  "begin_probe se =
     se\<lparr>se_probe_gen := max (se_probe_gen se + 1) 1, se_probe_bytes := zeros5,
        se_probe_recv_span_us := zeros5, se_probe_send_first_us := zeros5,
        se_probe_send_last_us := zeros5\<rparr>"

definition sender_seal :: "crates \<Rightarrow> sender \<Rightarrow> byte \<Rightarrow> byte list \<Rightarrow> byte list option \<times> sender" where
  "sender_seal l se knd body =
     (case se_epoch se of
        None \<Rightarrow> (None, se)
      | Some ep \<Rightarrow>
          (let se = se\<lparr>se_counter := sat_add u64_max (se_counter se) 1\<rparr>
           in if se_counter se = 0 then (None, se)
              else case se_keys se of
                     None \<Rightarrow> (None, se)
                   | Some keys \<Rightarrow>
                       (seal_packet l (sender_to_receiver keys) ep (se_session se)
                          (of_nat (se_counter se)) knd body, se)))"

definition hello :: "crates \<Rightarrow> sender \<Rightarrow> byte list option \<times> sender" where
  "hello l se =
     (case encode_hello (se_name se) of
        None \<Rightarrow> (None, se)
      | Some body \<Rightarrow> sender_seal l se KIND_HELLO body)"

definition send_audio :: "crates \<Rightarrow> sender \<Rightarrow> byte list \<Rightarrow> nat \<Rightarrow> byte list option \<times> sender" where
  "send_audio l se pcm960 now_us =
     (case encode_canonical (profile_codec (ad_profile (se_adapt se))) pcm960 of
        None \<Rightarrow> (None, se)
      | Some pl \<Rightarrow>
          (let se = se\<lparr>se_audio_seq := sat_add u64_max (se_audio_seq se) 1\<rparr>
           in case encode_audio
                     \<lparr>seq = of_nat (se_audio_seq se), send_ts_us = of_nat now_us,
                      codec = profile_codec (ad_profile (se_adapt se)),
                      buffer_ms = of_nat (min (ad_target_ms (se_adapt se)) u16_max), payload = pl\<rparr> of
                None \<Rightarrow> (None, se)
              | Some body \<Rightarrow> sender_seal l se KIND_AUDIO body))"

definition send_probe :: "crates \<Rightarrow> sender \<Rightarrow> byte \<Rightarrow> nat \<Rightarrow> nat \<Rightarrow> byte list option \<times> sender" where
  "send_probe l se stp n now_us =
     (let idx = unat stp;
          se = (if idx < length (se_probe_send_first_us se)
                then (let se = (if se_probe_send_first_us se ! idx = 0
                                then se\<lparr>se_probe_send_first_us := (se_probe_send_first_us se)[idx := now_us]\<rparr>
                                else se)
                      in se\<lparr>se_probe_send_last_us := (se_probe_send_last_us se)[idx := now_us]\<rparr>)
                else se)
      in case encode_probe \<lparr>gen = se_probe_gen se, step = stp, probe_send_ts_us = of_nat now_us,
                            probe_payload = replicate n 0\<rparr> of
           None \<Rightarrow> (None, se)
         | Some body \<Rightarrow> sender_seal l se KIND_PROBE body)"

text \<open>What an accepted feedback body changes.\<close>

definition apply_feedback :: "sender \<Rightarrow> feedback_body \<Rightarrow> nat \<Rightarrow> sender" where
  "apply_feedback se fb now_us =
     (let rtt = now_us - unat (echo_send_ts_us fb) - unat (delay_us fb);
          recv_delta = unat (received fb) - se_last_recv se;
          lost_delta = unat (lost fb) - se_last_lost se;
          denom = sat_add u32_max recv_delta lost_delta;
          loss = (if denom = 0 then Fin 0
                  else fdiv F32 (fl F32 (of_nat lost_delta)) (fl F32 (of_nat denom)));
          underrun_delta = unat (underruns fb) - se_last_underruns se;
          se = se\<lparr>se_rtt_us := min rtt u32_max, se_jitter_us := unat (jitter_us fb),
                  se_last_recv := unat (received fb), se_last_lost := unat (lost fb),
                  se_loss := loss, se_last_underruns := unat (underruns fb)\<rparr>;
          se = (if probe_gen fb = se_probe_gen se
                then se\<lparr>se_probe_bytes := map unat (probe_bytes fb),
                        se_probe_recv_span_us := map unat (probe_recv_span_us fb)\<rparr>
                else se)
      in se\<lparr>se_adapt := adapt_observe (se_adapt se)
              \<lparr>sm_loss = se_loss se, sm_rtt_us = se_rtt_us se, sm_jitter_us = se_jitter_us se,
               sm_underruns = underrun_delta\<rparr>\<rparr>)"

definition handle_feedback :: "crates \<Rightarrow> sender \<Rightarrow> byte list \<Rightarrow> nat \<Rightarrow> bool \<times> sender" where
  "handle_feedback l se packet now_us =
     (case se_keys se of
        None \<Rightarrow> (False, se)
      | Some keys \<Rightarrow>
     (case se_epoch se of
        None \<Rightarrow> (False, se)
      | Some ep \<Rightarrow>
     (case open_packet l (receiver_to_sender keys) packet of
        None \<Rightarrow> (False, se)
      | Some op \<Rightarrow>
          if o_epoch op \<noteq> ep \<or> o_session op \<noteq> se_session se \<or> o_kind op \<noteq> KIND_FEEDBACK
          then (False, se)
          else
            (let (fresh, window) = commit (se_replay se) (unat (o_counter op));
                 se = se\<lparr>se_replay := window\<rparr>
             in if \<not> fresh then (False, se)
                else case decode_feedback (o_body op) of
                       None \<Rightarrow> (False, se)
                     | Some fb \<Rightarrow> (True, apply_feedback se fb now_us)))))"

definition span_us :: "nat \<Rightarrow> nat \<Rightarrow> nat" where
  "span_us first lst =
     (if first = 0 then 0
      else if lst \<le> first then u32_max
      else max (min (lst - first) u32_max) 1)"

definition note_probe :: "sender \<Rightarrow> nat list \<Rightarrow> bool \<Rightarrow> sender" where
  "note_probe se sent gradual =
     (let steps = map (\<lambda>(i, rate).
            (rate, sent ! i, se_probe_bytes se ! i,
             span_us (se_probe_send_first_us se ! i) (se_probe_send_last_us se ! i),
             se_probe_recv_span_us se ! i)) (enumerate 0 PROBE_STEPS_BPS);
          floor_bps = highest_sustainable_step_timed steps
      in se\<lparr>se_goodput_bps := (case floor_bps of None \<Rightarrow> 0 | Some b \<Rightarrow> b),
            se_adapt := apply_floor (se_adapt se) floor_bps gradual\<rparr>)"

text \<open>The status snapshot; the JSON rendering of it is not modelled.\<close>

record sender_peer =
  sp_addr :: socket_addr
  sp_name :: rstring
  sp_epoch :: rstring

record sender_snapshot =
  sn_peers :: "sender_peer list"
  sn_codec :: string
  sn_rtt_us :: nat
  sn_loss :: flt
  sn_jitter_us :: nat
  sn_estimated_goodput_bps :: nat
  sn_target_buffer_ms :: nat
  sn_probe_diagnostics :: "(nat \<times> nat \<times> nat \<times> nat) list"

definition snapshot :: "crates \<Rightarrow> sender \<Rightarrow> sender_snapshot" where
  "snapshot l se =
     \<lparr>sn_peers = (case (se_addr se, se_epoch se) of
          (Some addr, Some ep) \<Rightarrow> [\<lparr>sp_addr = addr, sp_name = se_peer_name se, sp_epoch = hex_encode l ep\<rparr>]
        | _ \<Rightarrow> []),
      sn_codec = profile_name (ad_profile (se_adapt se)), sn_rtt_us = se_rtt_us se,
      sn_loss = se_loss se, sn_jitter_us = se_jitter_us se,
      sn_estimated_goodput_bps = se_goodput_bps se,
      sn_target_buffer_ms = ad_target_ms (se_adapt se),
      sn_probe_diagnostics = map (\<lambda>i. (PROBE_STEPS_BPS ! i, se_probe_bytes se ! i,
          span_us (se_probe_send_first_us se ! i) (se_probe_send_last_us se ! i),
          se_probe_recv_span_us se ! i)) [0..<5]\<rparr>"

section \<open>Feedback is authentic, fresh and applied once\<close>

definition bound :: "crates \<Rightarrow> sender \<Rightarrow> bool" where
  "bound l se \<longleftrightarrow> length (se_session se) = 16
     \<and> (se_epoch se = None \<longrightarrow> se_keys se = None)
     \<and> (\<forall>ep. se_epoch se = Some ep \<longrightarrow>
          length ep = 16 \<and> se_keys se = Some (derive l (se_token se) ep (se_session se)))"

definition sender_ok :: "crates \<Rightarrow> sender \<Rightarrow> bool" where
  "sender_ok l se \<longleftrightarrow> bound l se \<and> represents_some (se_replay se) \<and> adapt_ok (se_adapt se)
     \<and> se_counter se \<le> u64_max \<and> se_audio_seq se \<le> u64_max
     \<and> length (se_probe_bytes se) = 5 \<and> length (se_probe_recv_span_us se) = 5
     \<and> length (se_probe_send_first_us se) = 5 \<and> length (se_probe_send_last_us se) = 5"

lemma KIND_FEEDBACK_valid: "KIND_HELLO \<le> KIND_FEEDBACK" "KIND_FEEDBACK \<le> KIND_PROBE"
  by (simp_all add: kind_defs)

lemma KIND_valid:
  "KIND_HELLO \<le> KIND_HELLO" "KIND_HELLO \<le> KIND_PROBE" "KIND_HELLO \<le> KIND_AUDIO" "KIND_AUDIO \<le> KIND_PROBE"
  "KIND_PROBE \<le> KIND_PROBE"
  by (simp_all add: kind_defs)

text \<open>Opening with a direction of derived keys, as an equation about sealing.\<close>

lemma open_packet_sealed:
  assumes "aead_ok l" "dir_ok d"
  shows "open_packet l d pkt = Some op \<longleftrightarrow>
    seal_packet l d (o_epoch op) (o_session op) (o_counter op) (o_kind op) (o_body op) = Some pkt
    \<and> length (o_epoch op) = 16 \<and> length (o_session op) = 16 \<and> KIND_HELLO \<le> o_kind op \<and> o_kind op \<le> KIND_PROBE"
  using open_packet_sound[OF assms, of pkt op] open_seal_packet[OF assms, of "o_epoch op" "o_session op" "o_kind op" "o_counter op" "o_body op" pkt]
  by (cases op) auto

lemma handle_feedback_cases:
  assumes "se_keys se = Some keys" "se_epoch se = Some ep"
  shows "handle_feedback l se pkt now =
    (case open_packet l (receiver_to_sender keys) pkt of
       None \<Rightarrow> (False, se)
     | Some op \<Rightarrow>
         if o_epoch op \<noteq> ep \<or> o_session op \<noteq> se_session se \<or> o_kind op \<noteq> KIND_FEEDBACK then (False, se)
         else
           (let w = snd (commit (se_replay se) (unat (o_counter op))); se' = se\<lparr>se_replay := w\<rparr>
            in if \<not> fst (commit (se_replay se) (unat (o_counter op))) then (False, se')
               else case decode_feedback (o_body op) of
                      None \<Rightarrow> (False, se') | Some fb \<Rightarrow> (True, apply_feedback se' fb now)))"
  using assms by (simp add: handle_feedback_def Let_def split: option.split prod.split)

lemma handle_feedback_accepts:
  assumes ok: "hash_ok l" "aead_ok l" "sender_ok l se" and ep: "se_epoch se = Some ep"
  shows "handle_feedback l se pkt now = (True, se') \<longleftrightarrow>
    (\<exists>ctr fb. seal_packet l (receiver_to_sender (derive l (se_token se) ep (se_session se)))
         ep (se_session se) ctr KIND_FEEDBACK (encode_feedback fb) = Some pkt
       \<and> wf_feedback fb \<and> fst (commit (se_replay se) (unat ctr))
       \<and> se' = apply_feedback (se\<lparr>se_replay := snd (commit (se_replay se) (unat ctr))\<rparr>) fb now)"
    (is "_ \<longleftrightarrow> ?rhs")
proof -
  let ?keys = "derive l (se_token se) ep (se_session se)"
  let ?d = "receiver_to_sender ?keys"
  have b: "length ep = 16" "length (se_session se) = 16" "se_keys se = Some ?keys"
    using ok(3) ep by (auto simp: sender_ok_def bound_def)
  note d = derive_ok(2)[OF ok(1), of "se_token se" ep "se_session se"]
  note unfold = handle_feedback_cases[OF b(3) ep, of l pkt now]
  show ?thesis
  proof
    assume acc: "handle_feedback l se pkt now = (True, se')"
    then obtain op where op: "open_packet l ?d pkt = Some op"
      unfolding unfold by (auto split: option.splits)
    with acc have "o_epoch op = ep" "o_session op = se_session se" "o_kind op = KIND_FEEDBACK"
      and fresh: "fst (commit (se_replay se) (unat (o_counter op)))"
      unfolding unfold by (auto simp: Let_def split: if_splits)
    moreover from acc op fresh obtain fb where "decode_feedback (o_body op) = Some fb"
      "se' = apply_feedback (se\<lparr>se_replay := snd (commit (se_replay se) (unat (o_counter op)))\<rparr>) fb now"
      unfolding unfold by (auto simp: Let_def split: if_splits option.splits)
    moreover note op[unfolded open_packet_sealed[OF ok(2) d]]
    ultimately show ?rhs
      by (intro exI[of _ "o_counter op"] exI[of _ fb]) (simp add: feedback_body_inverse)
  next
    assume ?rhs
    then obtain ctr fb where sealed: "seal_packet l ?d ep (se_session se) ctr KIND_FEEDBACK (encode_feedback fb) = Some pkt"
      and fb: "decode_feedback (encode_feedback fb) = Some fb"
      and fresh: "fst (commit (se_replay se) (unat ctr))"
      and se': "se' = apply_feedback (se\<lparr>se_replay := snd (commit (se_replay se) (unat ctr))\<rparr>) fb now"
      using feedback_body_inverse by blast
    from open_seal_packet[OF ok(2) d b(1,2) KIND_FEEDBACK_valid sealed]
    show "handle_feedback l se pkt now = (True, se')"
      unfolding unfold using fb fresh se' by (simp add: Let_def)
  qed
qed

lemma handle_feedback_rejects:
  assumes "handle_feedback l se pkt now = (False, se')"
  shows "se' = se \<or> (\<exists>n. se' = se\<lparr>se_replay := snd (commit (se_replay se) n)\<rparr>)"
  using assms by (auto simp: handle_feedback_def Let_def split: option.splits if_splits prod.splits)
    (metis snd_conv)+

text \<open>
  C19. The sender believes exactly the feedback that the bound receiver sealed for this session and
  that it has not seen: \<open>handle_feedback\<close> accepts a datagram if and only if it is the sealing, under
  the receiver-to-sender key of the bound epoch and this session, of a well-formed feedback body
  with a counter the replay window accepts, and then the new state is that body applied. A refused
  datagram changes nothing but the replay window.
\<close>

theorem feedback_authentic:
  assumes "hash_ok l" and "aead_ok l" and "sender_ok l se" and "se_epoch se = Some ep"
  shows "(handle_feedback l se pkt now = (True, se') \<longleftrightarrow>
      (\<exists>ctr fb. seal_packet l (receiver_to_sender (derive l (se_token se) ep (se_session se)))
           ep (se_session se) ctr KIND_FEEDBACK (encode_feedback fb) = Some pkt
         \<and> wf_feedback fb \<and> fst (commit (se_replay se) (unat ctr))
         \<and> se' = apply_feedback (se\<lparr>se_replay := snd (commit (se_replay se) (unat ctr))\<rparr>) fb now))
    \<and> (fst (handle_feedback l se pkt now) \<or> (\<exists>w. snd (handle_feedback l se pkt now) = se\<lparr>se_replay := w\<rparr>))"
proof -
  have "se = se\<lparr>se_replay := se_replay se\<rparr>" by simp
  then have "fst (handle_feedback l se pkt now) \<or> (\<exists>w. snd (handle_feedback l se pkt now) = se\<lparr>se_replay := w\<rparr>)"
    using handle_feedback_rejects[of l se pkt now "snd (handle_feedback l se pkt now)"]
    by (cases "handle_feedback l se pkt now") (metis fst_conv snd_conv)
  then show ?thesis using handle_feedback_accepts[OF assms] by blast
qed

section \<open>Every operation keeps the engine well-formed\<close>

datatype sender_op =
    SBind "byte list" socket_addr rstring "byte list"
  | SBeginProbe
  | SHello
  | SAudio "byte list" nat
  | SProbe byte nat nat
  | SFeedback "byte list" nat
  | SNoteProbe "nat list" bool

fun sender_step :: "crates \<Rightarrow> sender_op \<Rightarrow> sender \<Rightarrow> byte list option \<times> sender" where
  "sender_step l (SBind ep addr name inst) se = (None, snd (bind_peer l se ep addr name inst))"
| "sender_step l SBeginProbe se = (None, begin_probe se)"
| "sender_step l SHello se = hello l se"
| "sender_step l (SAudio pcm now) se = send_audio l se pcm now"
| "sender_step l (SProbe stp n now) se = send_probe l se stp n now"
| "sender_step l (SFeedback pkt now) se = (None, snd (handle_feedback l se pkt now))"
| "sender_step l (SNoteProbe sent gradual) se = (None, note_probe se sent gradual)"

text \<open>The packets a run sends, in order, and the state it ends in.\<close>

fun sender_run :: "crates \<Rightarrow> sender_op list \<Rightarrow> sender \<Rightarrow> byte list list \<times> sender" where
  "sender_run l [] se = ([], se)"
| "sender_run l (x # xs) se =
     (let (pkt, se1) = sender_step l x se; (pkts, se2) = sender_run l xs se1
      in ((case pkt of None \<Rightarrow> pkts | Some p \<Rightarrow> p # pkts), se2))"

lemma sender_seal_fields:
  "se_counter se \<le> u64_max \<Longrightarrow> snd (sender_seal l se knd body) = se \<or>
    snd (sender_seal l se knd body) = se\<lparr>se_counter := sat_add u64_max (se_counter se) 1\<rparr>"
  by (auto simp: sender_seal_def Let_def split: option.splits)

lemma sender_seal_ok:
  assumes "sender_ok l se"
  shows "sender_ok l (snd (sender_seal l se knd body))"
proof -
  have "se_counter se \<le> u64_max" using assms by (simp add: sender_ok_def)
  from sender_seal_fields[OF this, of l knd body] assms show ?thesis
    by (auto simp: sender_ok_def bound_def)
qed

lemma apply_feedback_ok:
  assumes "sender_ok l se" "wf_feedback fb"
  shows "sender_ok l (apply_feedback se fb now)"
  using assms by (simp add: sender_ok_def bound_def apply_feedback_def wf_feedback_def Let_def observe_ok)

lemma handle_feedback_ok:
  assumes "sender_ok l se"
  shows "sender_ok l (snd (handle_feedback l se pkt now))"
proof -
  have w: "sender_ok l (se\<lparr>se_replay := snd (commit (se_replay se) n)\<rparr>)" for n
    using assms commit_keeps by (simp add: sender_ok_def bound_def)
  obtain r se' where run: "handle_feedback l se pkt now = (r, se')" by (cases "handle_feedback l se pkt now")
  show ?thesis
  proof (cases r)
    case False
    then show ?thesis using handle_feedback_rejects[of l se pkt now se'] run assms w by auto
  next
    case True
    then obtain n fb body where "decode_feedback body = Some fb"
      "se' = apply_feedback (se\<lparr>se_replay := snd (commit (se_replay se) n)\<rparr>) fb now"
      using run by (auto simp: handle_feedback_def Let_def split: option.splits if_splits prod.splits)
        (metis snd_conv)
    then show ?thesis using run apply_feedback_ok[OF w] feedback_body_inverse by auto
  qed
qed

definition op_sized :: "sender_op \<Rightarrow> bool" where
  "op_sized x \<longleftrightarrow> (case x of SBind ep _ _ _ \<Rightarrow> length ep = 16 | _ \<Rightarrow> True)"

lemma bind_peer_ok:
  assumes "sender_ok l se" "length ep = 16"
  shows "sender_ok l (snd (bind_peer l se ep addr name inst))"
  using assms represents_some_new
  by (auto simp: bind_peer_def sender_ok_def bound_def Let_def zeros5_def u64_max_def)

lemma sender_step_ok:
  assumes "sender_ok l se" "op_sized x"
  shows "sender_ok l (snd (sender_step l x se))"
proof (cases x)
  case (SBind ep addr name inst)
  then show ?thesis using assms bind_peer_ok by (simp add: op_sized_def)
next
  case SBeginProbe
  then show ?thesis using assms by (simp add: begin_probe_def sender_ok_def bound_def zeros5_def)
next
  case SHello
  then show ?thesis using assms sender_seal_ok by (simp add: hello_def split: option.split)
next
  case (SAudio pcm now)
  have "sender_ok l (se\<lparr>se_audio_seq := sat_add u64_max (se_audio_seq se) 1\<rparr>)"
    using assms by (simp add: sender_ok_def bound_def)
  then show ?thesis using SAudio assms sender_seal_ok
    by (simp add: send_audio_def Let_def split: option.split)
next
  case (SProbe stp n now)
  let ?first = "(se_probe_send_first_us se)[unat stp := now]"
    and ?last = "(se_probe_send_last_us se)[unat stp := now]"
  have "sender_ok l (se\<lparr>se_probe_send_last_us := ?last\<rparr>)"
    "sender_ok l (se\<lparr>se_probe_send_first_us := ?first, se_probe_send_last_us := ?last\<rparr>)"
    using assms by (simp_all add: sender_ok_def bound_def)
  then show ?thesis using SProbe assms sender_seal_ok
    by (simp add: send_probe_def Let_def split: option.split)
next
  case (SFeedback pkt now)
  then show ?thesis using assms handle_feedback_ok by simp
next
  case (SNoteProbe sent gradual)
  then show ?thesis using assms by (simp add: note_probe_def sender_ok_def bound_def apply_floor_ok Let_def)
qed

lemma sender_new_ok: "length sess = 16 \<Longrightarrow> sender_ok l (sender_new tok name sess)"
  by (simp add: sender_ok_def bound_def sender_new_def represents_some_new adapt_start_ok zeros5_def u64_max_def)

section \<open>No nonce is used twice under one epoch\<close>

definition keeps_epoch :: "byte list \<Rightarrow> sender_op \<Rightarrow> bool" where
  "keeps_epoch ep x \<longleftrightarrow> (case x of SBind ep' _ _ _ \<Rightarrow> ep' = ep | _ \<Rightarrow> True)"

abbreviation send_dir :: "crates \<Rightarrow> sender \<Rightarrow> byte list \<Rightarrow> cipher_dir" where
  "send_dir l se ep \<equiv> sender_to_receiver (derive l (se_token se) ep (se_session se))"

text \<open>One step: same keys, and a packet is sealed with the counter one above the last.\<close>

definition emits :: "crates \<Rightarrow> byte list \<Rightarrow> sender \<Rightarrow> byte list option \<Rightarrow> sender \<Rightarrow> bool" where
  "emits l ep se pkt se' \<longleftrightarrow> se_epoch se' = Some ep \<and> se_token se' = se_token se
     \<and> se_session se' = se_session se \<and> se_counter se \<le> se_counter se' \<and> se_counter se' \<le> se_counter se + 1
     \<and> (\<forall>p. pkt = Some p \<longrightarrow> se_counter se' = se_counter se + 1 \<and>
            (\<exists>knd body. seal_packet l (send_dir l se ep) ep (se_session se) (of_nat (se_counter se')) knd body = Some p))"

lemma sender_seal_emits:
  assumes "sender_ok l se" "se_epoch se = Some ep" "se_counter se < u64_max"
  shows "emits l ep se (fst (sender_seal l se knd body)) (snd (sender_seal l se knd body))"
proof -
  have "se_keys se = Some (derive l (se_token se) ep (se_session se))"
    using assms(1,2) by (auto simp: sender_ok_def bound_def)
  moreover have "sat_add u64_max (se_counter se) 1 = se_counter se + 1"
    using assms(3) by (simp add: sat_add_def)
  ultimately have "sender_seal l se knd body =
      (seal_packet l (send_dir l se ep) ep (se_session se) (of_nat (se_counter se + 1)) knd body,
       se\<lparr>se_counter := se_counter se + 1\<rparr>)"
    using assms(2) by (simp add: sender_seal_def Let_def)
  then show ?thesis using assms(2) unfolding emits_def by (auto split: option.split)
qed

lemma emits_quiet: "se_epoch se' = Some ep \<Longrightarrow> se_token se' = se_token se \<Longrightarrow> se_session se' = se_session se
    \<Longrightarrow> se_counter se' = se_counter se \<Longrightarrow> emits l ep se None se'"
  by (simp add: emits_def)

lemma emits_from: "emits l ep se1 pkt se' \<Longrightarrow> se_token se1 = se_token se \<Longrightarrow> se_session se1 = se_session se
    \<Longrightarrow> se_counter se1 = se_counter se \<Longrightarrow> emits l ep se pkt se'"
  unfolding emits_def by metis

lemma handle_feedback_same:
  "se_epoch (snd (handle_feedback l se pkt now)) = se_epoch se"
  "se_token (snd (handle_feedback l se pkt now)) = se_token se"
  "se_session (snd (handle_feedback l se pkt now)) = se_session se"
  "se_counter (snd (handle_feedback l se pkt now)) = se_counter se"
  by (auto simp: handle_feedback_def apply_feedback_def Let_def split: option.splits prod.splits)

lemma sender_step_emits:
  assumes ok: "sender_ok l se" and ep: "se_epoch se = Some ep" and room: "se_counter se < u64_max"
    and same: "keeps_epoch ep x"
  shows "emits l ep se (fst (sender_step l x se)) (snd (sender_step l x se))"
proof (cases x)
  case (SBind ep' addr name inst)
  then have "ep' = ep" using same by (simp add: keeps_epoch_def)
  then show ?thesis using SBind ep by (simp add: bind_peer_def Let_def emits_quiet)
next
  case SBeginProbe
  then show ?thesis using ep by (simp add: begin_probe_def emits_quiet)
next
  case SHello
  then show ?thesis using sender_seal_emits[OF ok ep room] emits_quiet[OF ep]
    by (simp add: hello_def split: option.split)
next
  case (SAudio pcm now)
  let ?se = "se\<lparr>se_audio_seq := sat_add u64_max (se_audio_seq se) 1\<rparr>"
  have "sender_ok l ?se" using ok by (simp add: sender_ok_def bound_def)
  then have s: "emits l ep se (fst (sender_seal l ?se k b)) (snd (sender_seal l ?se k b))" for k b
    by (rule emits_from[OF sender_seal_emits]) (use ep room in simp_all)
  have q: "emits l ep se None se" "emits l ep se None ?se" using ep by (simp_all add: emits_quiet)
  show ?thesis
  proof (cases "encode_canonical (profile_codec (ad_profile (se_adapt se))) pcm")
    case None
    then show ?thesis using q unfolding SAudio sender_step.simps send_audio_def by simp
  next
    case (Some pl)
    show ?thesis unfolding SAudio sender_step.simps send_audio_def Some option.case Let_def
      using s q(2) by (auto split: option.split)
  qed
next
  case (SProbe stp n now)
  let ?first = "(se_probe_send_first_us se)[unat stp := now]"
    and ?last = "(se_probe_send_last_us se)[unat stp := now]"
  define se1 where "se1 = (if unat stp < length (se_probe_send_first_us se)
     then if se_probe_send_first_us se ! unat stp = 0
          then se\<lparr>se_probe_send_first_us := ?first, se_probe_send_last_us := ?last\<rparr>
          else se\<lparr>se_probe_send_last_us := ?last\<rparr> else se)"
  have f: "se_epoch se1 = Some ep" "se_token se1 = se_token se" "se_session se1 = se_session se"
    "se_counter se1 = se_counter se" using ep by (simp_all add: se1_def)
  have "sender_ok l se1" using ok by (simp add: sender_ok_def bound_def se1_def)
  then have "emits l ep se (fst (sender_seal l se1 k b)) (snd (sender_seal l se1 k b))" for k b
    by (rule emits_from[OF sender_seal_emits]) (use f room in simp_all)
  moreover have "sender_step l x se = (case encode_probe \<lparr>gen = se_probe_gen se1, step = stp,
      probe_send_ts_us = of_nat now, probe_payload = replicate n 0\<rparr> of
      None \<Rightarrow> (None, se1) | Some body \<Rightarrow> sender_seal l se1 KIND_PROBE body)"
    unfolding SProbe sender_step.simps send_probe_def
    by (simp add: se1_def Let_def cong: option.case_cong)
  ultimately show ?thesis using emits_quiet[of se1 ep se] f by (simp split: option.split)
next
  case (SFeedback pkt now)
  then show ?thesis using handle_feedback_same[of l se pkt now] ep by (simp add: emits_quiet)
next
  case (SNoteProbe sent gradual)
  then show ?thesis using ep by (simp add: note_probe_def emits_quiet Let_def)
qed

text \<open>A run's packets with the counters they were sealed under.\<close>

definition sealed_under :: "crates \<Rightarrow> cipher_dir \<Rightarrow> byte list \<Rightarrow> byte list \<Rightarrow> byte list \<Rightarrow> nat \<Rightarrow> bool" where
  "sealed_under l d ep sess pkt c \<longleftrightarrow>
     (\<exists>knd body. seal_packet l d ep sess (of_nat c) knd body = Some pkt)"

lemma sender_run_counters:
  assumes "sender_ok l se" "se_epoch se = Some ep" "se_counter se + length xs \<le> u64_max"
    and "list_all (\<lambda>x. op_sized x \<and> keeps_epoch ep x) xs"
  shows "\<exists>cs. sorted_wrt (<) cs \<and> (\<forall>c \<in> set cs. se_counter se < c \<and> c \<le> u64_max)
    \<and> list_all2 (sealed_under l (send_dir l se ep) ep (se_session se)) (fst (sender_run l xs se)) cs"
  using assms
proof (induction xs arbitrary: se)
  case Nil
  then show ?case by simp
next
  case (Cons x xs)
  obtain pkt se1 where step: "sender_step l x se = (pkt, se1)" by (cases "sender_step l x se")
  have sized: "op_sized x" "keeps_epoch ep x" "list_all (\<lambda>x. op_sized x \<and> keeps_epoch ep x) xs"
    using Cons.prems(4) by simp_all
  have "se_counter se < u64_max" using Cons.prems(3) by simp
  note e = sender_step_emits[OF Cons.prems(1,2) this sized(2), unfolded step fst_conv snd_conv]
  have ok1: "sender_ok l se1" using sender_step_ok[OF Cons.prems(1) sized(1)] step by simp
  have f: "se_epoch se1 = Some ep" "se_token se1 = se_token se" "se_session se1 = se_session se"
    "se_counter se \<le> se_counter se1" "se_counter se1 \<le> se_counter se + 1"
    using e unfolding emits_def by blast+
  then have "se_counter se1 + length xs \<le> u64_max" using Cons.prems(3) by simp
  from Cons.IH[OF ok1 f(1) this sized(3)] obtain cs where cs: "sorted_wrt (<) cs"
    "\<forall>c \<in> set cs. se_counter se1 < c \<and> c \<le> u64_max"
    "list_all2 (sealed_under l (send_dir l se ep) ep (se_session se)) (fst (sender_run l xs se1)) cs"
    by (auto simp: f)
  show ?case
  proof (cases pkt)
    case None
    then have "fst (sender_run l (x # xs) se) = fst (sender_run l xs se1)"
      by (simp add: step split: prod.split)
    then show ?thesis using cs f(4) by (intro exI[of _ cs]) force
  next
    case (Some p)
    then have run: "fst (sender_run l (x # xs) se) = p # fst (sender_run l xs se1)"
      by (simp add: step split: prod.split)
    have "se_counter se1 = se_counter se + 1" "sealed_under l (send_dir l se ep) ep (se_session se) p (se_counter se1)"
      using e Some unfolding emits_def sealed_under_def by blast+
    then show ?thesis unfolding run using cs Cons.prems(3)
      by (intro exI[of _ "se_counter se1 # cs"]) force
  qed
qed

text \<open>
  Nonces are never reused under one epoch. In any run of the engine that stays bound to one
  receiver epoch (hellos, audio, probes, feedback, rebinding to a new address) and stays below
  \<open>2 ^ 64\<close> packets, the packets sent are sealed under strictly increasing counters, hence under
  pairwise different AEAD nonces.
\<close>

theorem sender_nonces_distinct:
  assumes "hash_ok l" and "sender_ok l se" and "se_epoch se = Some ep"
    and "se_counter se + length xs \<le> u64_max"
    and "list_all (\<lambda>x. op_sized x \<and> keeps_epoch ep x) xs"
  shows "\<exists>cs. list_all2 (sealed_under l (send_dir l se ep) ep (se_session se)) (fst (sender_run l xs se)) cs
    \<and> sorted_wrt (<) cs \<and> distinct (map (\<lambda>c. nonce (send_dir l se ep) (of_nat c)) cs)"
proof -
  obtain cs where cs: "sorted_wrt (<) cs" "\<forall>c \<in> set cs. se_counter se < c \<and> c \<le> u64_max"
    "list_all2 (sealed_under l (send_dir l se ep) ep (se_session se)) (fst (sender_run l xs se)) cs"
    using sender_run_counters[OF assms(2-5)] by blast
  have d: "dir_ok (send_dir l se ep)" by (rule derive_ok(1)[OF assms(1)])
  have "inj_on (\<lambda>c. nonce (send_dir l se ep) (of_nat c)) (set cs)"
  proof (rule inj_onI)
    fix a b assume ab: "a \<in> set cs" "b \<in> set cs"
      and "nonce (send_dir l se ep) (of_nat a) = nonce (send_dir l se ep) (of_nat b)"
    then have "(of_nat a :: u64) = of_nat b" by (simp add: nonce_inj[OF d])
    then have "unat (of_nat a :: u64) = unat (of_nat b :: u64)" by simp
    moreover have "a < 2 ^ 64" "b < 2 ^ 64" using cs(2) ab by (auto simp: u64_max_def)
    ultimately show "a = b" by (simp add: unat_of_nat)
  qed
  moreover have "distinct cs" using cs(1) by (simp add: strict_sorted_iff)
  ultimately show ?thesis using cs(1,3) by (auto simp: distinct_map)
qed

section \<open>Applied at most once\<close>

fun feedbacks :: "crates \<Rightarrow> (byte list \<times> nat) list \<Rightarrow> sender \<Rightarrow> sender" where
  "feedbacks l [] se = se"
| "feedbacks l ((pkt, now) # xs) se = feedbacks l xs (snd (handle_feedback l se pkt now))"

definition spent_by :: "crates \<Rightarrow> opened \<Rightarrow> direction_keys \<Rightarrow> sender \<Rightarrow> bool" where
  "spent_by l op keys se \<longleftrightarrow> se_keys se = Some keys \<and> represents_some (se_replay se)
     \<and> consumed (se_replay se) (unat (o_counter op))"

lemma handle_feedback_window:
  "\<exists>ns. se_replay (snd (handle_feedback l se pkt now)) = replay.consume_all (se_replay se) ns"
proof -
  have "se_replay (snd (handle_feedback l se pkt now)) = se_replay se
      \<or> (\<exists>n. se_replay (snd (handle_feedback l se pkt now)) = snd (commit (se_replay se) n))"
    by (auto simp: handle_feedback_def apply_feedback_def Let_def split: option.splits prod.splits)
      (metis snd_conv)+
  then show ?thesis by (metis replay.consume_all.simps)
qed

lemma handle_feedback_keys: "se_keys (snd (handle_feedback l se pkt now)) = se_keys se"
  by (auto simp: handle_feedback_def apply_feedback_def Let_def split: option.splits prod.splits)

lemma spent_by_step: "spent_by l op keys se \<Longrightarrow> spent_by l op keys (snd (handle_feedback l se pkt now))"
  using handle_feedback_window[of l se pkt now] replay.spent_consume_all[of "se_replay se" "unat (o_counter op)"]
  by (auto simp: spent_by_def handle_feedback_keys)

lemma spent_by_feedbacks: "spent_by l op keys se \<Longrightarrow> spent_by l op keys (feedbacks l xs se)"
  by (induction l xs se rule: feedbacks.induct) (auto simp: spent_by_step)

text \<open>
  A feedback datagram is applied at most once: after it was accepted, any further datagrams
  may arrive, and it is refused when it arrives again.
\<close>

theorem feedback_once:
  assumes "sender_ok l se" and "handle_feedback l se pkt now = (True, se1)"
  shows "\<not> fst (handle_feedback l (feedbacks l xs se1) pkt now')"
proof -
  from assms(2) obtain keys op where
    keys: "se_keys se = Some keys" and op: "open_packet l (receiver_to_sender keys) pkt = Some op"
    and win: "se_replay se1 = snd (commit (se_replay se) (unat (o_counter op)))" "se_keys se1 = Some keys"
    by (auto simp: handle_feedback_def apply_feedback_def Let_def split: option.splits if_splits prod.splits)
  have good: "represents_some (se_replay se)" using assms(1) by (simp add: sender_ok_def)
  have "spent_by l op keys se1"
    using win replay.consume_spends[OF good] replay.consume_good[OF good] by (simp add: spent_by_def)
  then have s: "spent_by l op keys (feedbacks l xs se1)" by (rule spent_by_feedbacks)
  then have "\<not> fst (commit (se_replay (feedbacks l xs se1)) (unat (o_counter op)))"
    by (simp add: spent_by_def consumed_def)
  with s op show ?thesis
    by (auto simp: handle_feedback_def spent_by_def split: option.splits prod.splits)
qed

section \<open>The loss estimate is a proper fraction\<close>

lemma fl_count:
  assumes "n \<le> u32_max"
  shows "fl F32 (of_nat n) = Fin (rnd F32 (of_nat n))" "0 \<le> rnd F32 (of_nat n)"
    and "0 < n \<Longrightarrow> 1 \<le> rnd F32 (of_nat n)"
proof -
  have z: "representable F32 0" "representable F32 1"
    using representable_int[of 0 F32] representable_int[of 1 F32] by simp_all
  have t: "representable F32 (2 ^ 32)"
    unfolding representable_def by (rule exI[of _ 1], rule exI[of _ 32]) (simp add: pow2_numeral)
  have "n < 2 ^ 32" using assms by (simp add: u32_max_def)
  then have "(of_nat n :: rat) \<le> 2 ^ 32" by (metis less_imp_le of_nat_le_iff of_nat_numeral of_nat_power)
  moreover have "(2 ^ 32 :: rat) < pow2 128" by (simp add: pow2_numeral)
  ultimately show "fl F32 (of_nat n) = Fin (rnd F32 (of_nat n))" "0 \<le> rnd F32 (of_nat n)"
    using fl_between[of F32 0 "2 ^ 32" "of_nat n"] z t by simp_all
  show "1 \<le> rnd F32 (of_nat n)" if "0 < n"
    using rnd_mono[of F32 1 "of_nat n"] rnd_representable[OF z(2)] that by simp
qed

lemma ratio_range:
  assumes "n \<le> d" "0 < d" "d \<le> u32_max"
  shows "\<exists>r. fdiv F32 (fl F32 (of_nat n)) (fl F32 (of_nat d)) = Fin r \<and> 0 \<le> r \<and> r \<le> 1"
proof -
  let ?a = "rnd F32 (of_nat n)" and ?b = "rnd F32 (of_nat d)"
  have n: "n \<le> u32_max" using assms by simp
  note a = fl_count(1,2)[OF n] and b = fl_count(1)[OF assms(3)] fl_count(3)[OF assms(3,2)]
  have "?a \<le> ?b" by (rule rnd_mono) (use assms(1) in simp_all)
  then have q: "0 \<le> ?a / ?b" "?a / ?b \<le> 1" using a b by simp_all
  have "representable F32 0" "representable F32 1"
    using representable_int[of 0 F32] representable_int[of 1 F32] by simp_all
  moreover have "(1 :: rat) < pow2 128" by (simp add: pow2_numeral)
  ultimately show ?thesis using fl_between[of F32 0 1 "?a / ?b"] q a b by simp
qed

definition loss_ok :: "sender \<Rightarrow> bool" where
  "loss_ok se \<longleftrightarrow> (\<exists>r. se_loss se = Fin r \<and> 0 \<le> r \<and> r \<le> 1)"

lemma apply_feedback_loss: "loss_ok (apply_feedback se fb now)"
proof -
  let ?r = "unat (received fb) - se_last_recv se" and ?l = "unat (lost fb) - se_last_lost se"
  let ?d = "sat_add u32_max ?r ?l"
  have "unat (lost fb) \<le> u32_max" using unat_lt[of "lost fb"] by (simp add: u32_max_def)
  then have "?l \<le> ?d" by (simp add: sat_add_def)
  moreover have "?d \<le> u32_max" by simp
  ultimately have "0 < ?d \<Longrightarrow> \<exists>r. fdiv F32 (fl F32 (of_nat ?l)) (fl F32 (of_nat ?d)) = Fin r \<and> 0 \<le> r \<and> r \<le> 1"
    by (intro ratio_range)
  then show ?thesis unfolding loss_ok_def apply_feedback_def Let_def by auto
qed

lemma loss_same:
  "loss_ok se \<Longrightarrow> se_loss se' = se_loss se \<Longrightarrow> loss_ok se'"
  by (simp add: loss_ok_def)

lemma sender_seal_loss: "se_loss (snd (sender_seal l se knd body)) = se_loss se"
  by (auto simp: sender_seal_def Let_def split: option.splits)

lemma handle_feedback_loss: "loss_ok se \<Longrightarrow> loss_ok (snd (handle_feedback l se pkt now))"
  using apply_feedback_loss
  by (auto simp: handle_feedback_def Let_def loss_same split: option.splits prod.splits)

lemma sender_step_loss: "loss_ok se \<Longrightarrow> loss_ok (snd (sender_step l x se))"
proof (cases x)
  case (SFeedback pkt now)
  then show "loss_ok se \<Longrightarrow> ?thesis" using handle_feedback_loss by simp
qed (auto elim!: loss_same simp: bind_peer_def begin_probe_def hello_def send_audio_def send_probe_def
    note_probe_def sender_seal_loss Let_def split: option.splits)

lemma sender_run_keeps:
  assumes "sender_ok l se" "loss_ok se" "list_all op_sized xs"
  shows "sender_ok l (snd (sender_run l xs se)) \<and> loss_ok (snd (sender_run l xs se))"
  using assms
proof (induction xs arbitrary: se)
  case Nil
  then show ?case by simp
next
  case (Cons x xs)
  obtain pkt se1 where step: "sender_step l x se = (pkt, se1)" by (cases "sender_step l x se")
  have "sender_ok l se1" "loss_ok se1"
    using sender_step_ok[of l se x] sender_step_loss[of se l x] Cons.prems step by simp_all
  from Cons.IH[OF this] Cons.prems(3) show ?case by (cases "sender_run l xs se1") (simp add: step)
qed

text \<open>
  C38. Over any run of a new engine, whatever datagrams arrive, the state stays well-formed: keys and
  epoch belong together, the loss estimate is a number between 0 and 1 (never NaN), the buffer
  target lies between 20 and 150 milliseconds and the probe arrays keep their five entries.
\<close>

theorem sender_reachable_ok:
  fixes l :: crates and tok sess :: "byte list" and name :: rstring and xs :: "sender_op list"
  assumes "length sess = 16" and "list_all op_sized xs"
  defines "se \<equiv> snd (sender_run l xs (sender_new tok name sess))"
  shows "sender_ok l se
    \<and> (\<exists>r. se_loss se = Fin r \<and> 0 \<le> r \<and> r \<le> 1)
    \<and> MIN_BUFFER_MS \<le> ad_target_ms (se_adapt se) \<and> ad_target_ms (se_adapt se) \<le> MAX_BUFFER_MS"
proof -
  have "loss_ok (sender_new tok name sess)" by (simp add: loss_ok_def sender_new_def)
  from sender_run_keeps[OF sender_new_ok[OF assms(1)] this assms(2)]
  have "sender_ok l se" "loss_ok se" unfolding se_def by blast+
  then show ?thesis by (simp add: loss_ok_def sender_ok_def adapt_ok_def)
qed

section \<open>Returning to an earlier epoch\<close>

text \<open>
  C40. The nonce guarantee does not extend to an engine that leaves a receiver epoch and comes back:
  \<open>bind_peer\<close> resets the counter, while the session identifier, and with it the derived key, is the
  same. So the first packet after the return is sealed under the same key and nonce as the first
  packet of the first stay.
\<close>

theorem returning_reuses_nonce:
  fixes l :: crates and se :: sender and ep ep' inst inst' :: "byte list" and name name' :: rstring
    and addr addr' :: socket_addr
  assumes "ep \<noteq> ep'" and "se_epoch se \<noteq> Some ep"
  defines "first \<equiv> snd (bind_peer l se ep addr name inst)"
  defines "back \<equiv> snd (bind_peer l (snd (bind_peer l (snd (hello l first)) ep' addr' name' inst'))
    ep addr name inst)"
  shows "sender_seal l first knd body
      = (seal_packet l (send_dir l se ep) ep (se_session se) 1 knd body, first\<lparr>se_counter := 1\<rparr>)
    \<and> sender_seal l back knd' body'
      = (seal_packet l (send_dir l se ep) ep (se_session se) 1 knd' body', back\<lparr>se_counter := 1\<rparr>)"
proof -
  have hello: "se_token (snd (hello l s)) = se_token s" "se_session (snd (hello l s)) = se_session s"
    "se_epoch (snd (hello l s)) = se_epoch s" for s
    by (auto simp: hello_def sender_seal_def Let_def split: option.splits)
  have f: "se_epoch first = Some ep" "se_token first = se_token se" "se_session first = se_session se"
    "se_counter first = 0" "se_keys first = Some (derive l (se_token se) ep (se_session se))"
    using assms(2) by (simp_all add: first_def bind_peer_def Let_def)
  have "se_epoch back = Some ep" "se_token back = se_token se" "se_session back = se_session se"
    "se_counter back = 0" "se_keys back = Some (derive l (se_token se) ep (se_session se))"
    using assms(1) f hello[of first] by (simp_all add: back_def bind_peer_def Let_def)
  with f show ?thesis by (simp add: sender_seal_def sat_add_def u64_max_def Let_def)
qed

section \<open>Concrete engines\<close>

definition demo_ep :: "byte list" where "demo_ep = replicate 16 5"
definition demo_addr :: socket_addr where "demo_addr = (V4 (192, 168, 2, 7), 9000)"

definition demo_sender :: sender where
  "demo_sender = snd (bind_peer demo_crates (sender_new (replicate 32 7) [104, 105] (replicate 16 6))
     demo_ep demo_addr [] (replicate 16 4))"

definition demo_feedback :: feedback_body where
  "demo_feedback = \<lparr>echo_send_ts_us = 100, delay_us = 5, echo_seq = 3, received = 3, lost = 1,
     jitter_us = 20, underruns = 0, fb_buffer_ms = 20, probe_gen = 1,
     probe_bytes = replicate 5 0, probe_recv_span_us = replicate 5 0\<rparr>"

lemma demo_sender_ok: "sender_ok demo_crates demo_sender"
  unfolding demo_sender_def by (rule bind_peer_ok[OF sender_new_ok]) (simp_all add: demo_ep_def)

lemma demo_sender_fields:
  "se_epoch demo_sender = Some demo_ep" "se_session demo_sender = replicate 16 6"
  "se_counter demo_sender = 0" "se_replay demo_sender = new_window 2048"
  by (simp_all add: demo_sender_def bind_peer_def sender_new_def Let_def)

lemma demo_feedback_packet:
  "\<exists>pkt. seal_packet demo_crates (receiver_to_sender (derive demo_crates (se_token demo_sender) demo_ep
      (se_session demo_sender))) demo_ep (se_session demo_sender) 1 KIND_FEEDBACK (encode_feedback demo_feedback) = Some pkt
    \<and> wf_feedback demo_feedback \<and> fst (commit (se_replay demo_sender) (unat (1 :: u64)))"
proof -
  have wf: "wf_feedback demo_feedback" by (simp add: wf_feedback_def demo_feedback_def)
  have "length (encode_feedback demo_feedback) \<le> 1138"
    using length_encode_feedback[OF wf] by (simp add: FEEDBACK_BODY_LEN_def)
  moreover have "length demo_ep = 16" "length (se_session demo_sender) = 16"
    by (simp_all add: demo_ep_def demo_sender_fields)
  moreover have "fst (commit (se_replay demo_sender) (unat (1 :: u64)))"
    using commit_represents(1)[OF new_window_represents, of 2048 1] by (simp add: demo_sender_fields)
  ultimately show ?thesis
    using wf seal_packet_exists[OF demo_aead_ok derive_ok(2)[OF demo_hash_ok]] by (metis one_neq_zero)
qed

theorem feedback_authentic_witness:
  "\<exists>pkt. fst (handle_feedback demo_crates demo_sender pkt 0)"
proof -
  obtain pkt where "seal_packet demo_crates (receiver_to_sender (derive demo_crates (se_token demo_sender) demo_ep
      (se_session demo_sender))) demo_ep (se_session demo_sender) 1 KIND_FEEDBACK (encode_feedback demo_feedback) = Some pkt"
    "wf_feedback demo_feedback" "fst (commit (se_replay demo_sender) (unat (1 :: u64)))"
    using demo_feedback_packet by blast
  then have "\<exists>se'. handle_feedback demo_crates demo_sender pkt 0 = (True, se')"
    using feedback_authentic[OF demo_hash_ok demo_aead_ok demo_sender_ok demo_sender_fields(1)] by blast
  then show ?thesis by (metis fst_conv)
qed

theorem sender_nonces_distinct_witness:
  "\<exists>cs. list_all2 (sealed_under demo_crates (send_dir demo_crates demo_sender demo_ep) demo_ep (replicate 16 6))
      (fst (sender_run demo_crates [SHello, SFeedback [1, 2] 9, SHello] demo_sender)) cs
    \<and> sorted_wrt (<) cs"
  using sender_nonces_distinct[OF demo_hash_ok demo_sender_ok demo_sender_fields(1),
      of "[SHello, SFeedback [1, 2] 9, SHello]"]
  by (auto simp: demo_sender_fields u64_max_def op_sized_def keeps_epoch_def)

theorem feedback_once_witness:
  "\<exists>pkt se1. handle_feedback demo_crates demo_sender pkt 0 = (True, se1)
    \<and> \<not> fst (handle_feedback demo_crates (feedbacks demo_crates [([7], 3)] se1) pkt 8)"
proof -
  obtain pkt se1 where "handle_feedback demo_crates demo_sender pkt 0 = (True, se1)"
    using demo_feedback_packet
      handle_feedback_accepts[OF demo_hash_ok demo_aead_ok demo_sender_ok demo_sender_fields(1)] by blast
  with feedback_once[OF demo_sender_ok this] show ?thesis by blast
qed

theorem sender_reachable_ok_witness:
  "sender_ok demo_crates (snd (sender_run demo_crates
     [SBind (replicate 16 5) demo_addr [] [], SHello, SProbe 0 800 7]
     (sender_new (replicate 32 7) [] (replicate 16 6))))"
  using sender_reachable_ok[of "replicate 16 6"
      "[SBind (replicate 16 5) demo_addr [] [], SHello, SProbe 0 800 7]" demo_crates "replicate 32 7" "[]"]
  by (simp add: op_sized_def)

theorem returning_reuses_nonce_witness:
  "fst (sender_seal demo_crates
      (snd (bind_peer demo_crates (snd (bind_peer demo_crates (snd (hello demo_crates
        (snd (bind_peer demo_crates demo_sender (replicate 16 1) demo_addr [] []))))
        (replicate 16 2) demo_addr [] [])) (replicate 16 1) demo_addr [] [])) KIND_HELLO [0])
   = fst (sender_seal demo_crates (snd (bind_peer demo_crates demo_sender (replicate 16 1) demo_addr [] [])) KIND_HELLO [0])"
  using returning_reuses_nonce[of "replicate 16 1" "replicate 16 2" demo_sender demo_crates demo_addr
      "[]" "[]" KIND_HELLO "[0]" demo_addr "[]" "[]" KIND_HELLO "[0]"]
  by (simp add: demo_sender_fields demo_ep_def)

end
