(* ===== verification/Ordered_Map.thy ===== *)
theory Ordered_Map
  imports Prelude
begin

text \<open>
  \<open>BTreeMap\<close> and \<open>BTreeSet\<close> of the Rust standard library, as the source uses them: an ordered map
  is its list of entries in increasing key order, and a \<open>BTreeSet\<close> is an ordered map to \<open>unit\<close>.
  The interface is a locale, so that the components' proofs rest on the laws and not on lists.
\<close>

type_synonym ('k, 'v) btree = "('k \<times> 'v) list"

abbreviation bt_empty :: "('k, 'v) btree" where "bt_empty \<equiv> []"

fun bt_insert :: "'k::linorder \<Rightarrow> 'v \<Rightarrow> ('k, 'v) btree \<Rightarrow> ('k, 'v) btree" where
  "bt_insert k v [] = [(k, v)]"
| "bt_insert k v ((k', v') # m) =
     (if k < k' then (k, v) # (k', v') # m
      else if k = k' then (k, v) # m
      else (k', v') # bt_insert k v m)"

definition bt_get :: "('k, 'v) btree \<Rightarrow> 'k \<Rightarrow> 'v option" where
  "bt_get m k = map_of m k"

definition bt_remove :: "'k \<Rightarrow> ('k, 'v) btree \<Rightarrow> ('k, 'v) btree" where
  "bt_remove k m = filter (\<lambda>e. fst e \<noteq> k) m"

definition bt_retain :: "('k \<Rightarrow> bool) \<Rightarrow> ('k, 'v) btree \<Rightarrow> ('k, 'v) btree" where
  "bt_retain P m = filter (\<lambda>e. P (fst e)) m"

definition bt_keys :: "('k, 'v) btree \<Rightarrow> 'k list" where
  "bt_keys m = map fst m"

text \<open>\<open>keys().next()\<close>, \<open>keys().next_back()\<close> and \<open>range(k..).next()\<close>.\<close>

definition bt_first :: "('k, 'v) btree \<Rightarrow> 'k option" where
  "bt_first m = (case bt_keys m of [] \<Rightarrow> None | k # _ \<Rightarrow> Some k)"

definition bt_last :: "('k, 'v) btree \<Rightarrow> 'k option" where
  "bt_last m = (if bt_keys m = [] then None else Some (last (bt_keys m)))"

definition bt_from :: "'k::linorder \<Rightarrow> ('k, 'v) btree \<Rightarrow> 'k option" where
  "bt_from k m = find (\<lambda>k'. k \<le> k') (bt_keys m)"

definition bt_ok :: "('k::linorder, 'v) btree \<Rightarrow> bool" where
  "bt_ok m \<longleftrightarrow> sorted (bt_keys m) \<and> distinct (bt_keys m)"

section \<open>The interface\<close>

locale ordered_map =
  fixes keys :: "'m \<Rightarrow> 'k::linorder list"
    and lookup :: "'m \<Rightarrow> 'k \<Rightarrow> 'v option"
    and insert_at :: "'k \<Rightarrow> 'v \<Rightarrow> 'm \<Rightarrow> 'm"
    and retain :: "('k \<Rightarrow> bool) \<Rightarrow> 'm \<Rightarrow> 'm"
    and ok :: "'m \<Rightarrow> bool"
  assumes ok_sorted: "ok m \<Longrightarrow> sorted (keys m) \<and> distinct (keys m)"
    and keys_lookup: "ok m \<Longrightarrow> k \<in> set (keys m) \<longleftrightarrow> lookup m k \<noteq> None"
    and ok_insert: "ok m \<Longrightarrow> ok (insert_at k v m)"
    and lookup_insert: "ok m \<Longrightarrow> lookup (insert_at k v m) k' = (if k' = k then Some v else lookup m k')"
    and ok_retain: "ok m \<Longrightarrow> ok (retain P m)"
    and lookup_retain: "ok m \<Longrightarrow> lookup (retain P m) k = (if P k then lookup m k else None)"
begin

lemma keys_insert: "ok m \<Longrightarrow> set (keys (insert_at k v m)) = insert k (set (keys m))"
proof -
  assume m: "ok m"
  have "k' \<in> set (keys (insert_at k v m)) \<longleftrightarrow> k' \<in> insert k (set (keys m))" for k'
    using keys_lookup[OF ok_insert[OF m], of k' k v] keys_lookup[OF m, of k'] lookup_insert[OF m, of k v k']
    by auto
  then show ?thesis by blast
qed

lemma keys_retain: "ok m \<Longrightarrow> set (keys (retain P m)) = {k \<in> set (keys m). P k}"
proof -
  assume m: "ok m"
  have "k \<in> set (keys (retain P m)) \<longleftrightarrow> k \<in> set (keys m) \<and> P k" for k
    using keys_lookup[OF ok_retain[OF m], of k P] keys_lookup[OF m, of k] lookup_retain[OF m, of P k]
    by auto
  then show ?thesis by blast
qed

lemma size_insert_fresh:
  assumes "ok m" "k \<notin> set (keys m)"
  shows "length (keys (insert_at k v m)) = Suc (length (keys m))"
proof -
  have "card (set (keys (insert_at k v m))) = Suc (card (set (keys m)))"
    using assms keys_insert by (metis card_insert_disjoint List.finite_set)
  then show ?thesis
    using ok_sorted[OF assms(1)] ok_sorted[OF ok_insert[OF assms(1)]] by (simp add: distinct_card)
qed

lemma size_insert_old:
  assumes "ok m" "k \<in> set (keys m)"
  shows "length (keys (insert_at k v m)) = length (keys m)"
proof -
  have "set (keys (insert_at k v m)) = set (keys m)"
    using keys_insert[OF assms(1)] assms(2) by (simp add: insert_absorb)
  then show ?thesis
    using ok_sorted[OF assms(1)] ok_sorted[OF ok_insert[OF assms(1)]] distinct_card by metis
qed

lemma first_least: "ok m \<Longrightarrow> k \<in> set (keys m) \<Longrightarrow> hd (keys m) \<le> k"
  using ok_sorted[of m] by (cases "keys m") auto

lemma last_greatest: "ok m \<Longrightarrow> k \<in> set (keys m) \<Longrightarrow> k \<le> last (keys m)"
proof -
  assume m: "ok m" and k: "k \<in> set (keys m)"
  then obtain i where i: "i < length (keys m)" "keys m ! i = k" by (auto simp: in_set_conv_nth)
  then have "keys m ! i \<le> keys m ! (length (keys m) - 1)"
    using ok_sorted[OF m] by (intro sorted_nth_mono) auto
  moreover have "keys m \<noteq> []" using k by auto
  ultimately show ?thesis using i by (simp add: last_conv_nth)
qed

lemma retain_all: "ok m \<Longrightarrow> (\<And>k. k \<in> set (keys m) \<Longrightarrow> P k) \<Longrightarrow> length (keys (retain P m)) = length (keys m)"
proof -
  assume m: "ok m" and P: "\<And>k. k \<in> set (keys m) \<Longrightarrow> P k"
  then have "set (keys (retain P m)) = set (keys m)" using keys_retain[OF m, of P] by blast
  then show ?thesis using ok_sorted[OF m] ok_sorted[OF ok_retain[OF m, of P]] distinct_card by metis
qed

lemma size_retain: "ok m \<Longrightarrow> length (keys (retain P m)) \<le> length (keys m)"
proof -
  assume m: "ok m"
  have "card (set (keys (retain P m))) \<le> card (set (keys m))"
    using keys_retain[OF m, of P] by (intro card_mono) auto
  then show ?thesis using ok_sorted[OF m] ok_sorted[OF ok_retain[OF m, of P]] by (simp add: distinct_card)
qed

lemma size_remove:
  assumes "ok m" "k \<in> set (keys m)"
  shows "Suc (length (keys (retain (\<lambda>k'. k' \<noteq> k) m))) = length (keys m)"
proof -
  have "set (keys (retain (\<lambda>k'. k' \<noteq> k) m)) = set (keys m) - {k}"
    using keys_retain[OF assms(1)] by auto
  moreover have "card (set (keys m) - {k}) = card (set (keys m)) - 1"
    using assms(2) by simp
  moreover have "0 < card (set (keys m))" using assms(2) by (auto simp: card_gt_0_iff)
  ultimately show ?thesis
    using ok_sorted[OF assms(1)] ok_sorted[OF ok_retain[OF assms(1), of "\<lambda>k'. k' \<noteq> k"]]
    by (simp add: distinct_card[symmetric])
qed

end

section \<open>The sorted list provides it\<close>

lemma bt_keys_insert_sub: "set (bt_keys (bt_insert k v m)) = insert k (set (bt_keys m))"
  by (induction k v m rule: bt_insert.induct) (auto simp: bt_keys_def)

lemma bt_ok_Cons: "bt_ok ((k, v) # m) \<longleftrightarrow> bt_ok m \<and> (\<forall>k' \<in> set (bt_keys m). k < k')"
  by (auto simp: bt_ok_def bt_keys_def less_le)

lemma bt_ok_Nil [simp]: "bt_ok []"
  by (simp add: bt_ok_def bt_keys_def)

lemma bt_ok_insert: "bt_ok m \<Longrightarrow> bt_ok (bt_insert k v m)"
proof (induction m)
  case Nil
  then show ?case by (simp add: bt_ok_Cons bt_keys_def)
next
  case (Cons e m)
  obtain k' v' where e: "e = (k', v')" by (cases e)
  have m: "bt_ok m" and above: "\<forall>x \<in> set (bt_keys m). k' < x" using Cons.prems e by (simp_all add: bt_ok_Cons)
  consider "k < k'" | "k = k'" | "k' < k" by (rule linorder_cases)
  then show ?case
  proof cases
    case 1
    then have "\<forall>x \<in> set (bt_keys ((k', v') # m)). k < x" using above by (auto simp: bt_keys_def)
    then show ?thesis using 1 Cons.prems e by (simp add: bt_ok_Cons)
  next
    case 2
    then show ?thesis using m above e by (simp add: bt_ok_Cons)
  next
    case 3
    then have "\<forall>x \<in> set (bt_keys (bt_insert k v m)). k' < x"
      using above bt_keys_insert_sub[of k v m] by auto
    then show ?thesis using 3 Cons.IH[OF m] e by (auto simp: bt_ok_Cons)
  qed
qed

lemma bt_get_insert: "bt_ok m \<Longrightarrow> bt_get (bt_insert k v m) k' = (if k' = k then Some v else bt_get m k')"
  by (induction m) (auto simp: bt_get_def bt_ok_Cons)

lemma bt_ok_retain: "bt_ok m \<Longrightarrow> bt_ok (bt_retain P m)"
  by (induction m) (auto simp: bt_ok_Cons bt_retain_def bt_keys_def)

lemma bt_get_retain: "bt_get (bt_retain P m) k = (if P k then bt_get m k else None)"
  by (induction m) (auto simp: bt_get_def bt_retain_def)

lemma bt_remove_retain: "bt_remove k m = bt_retain (\<lambda>k'. k' \<noteq> k) m"
  by (simp add: bt_remove_def bt_retain_def)

lemma bt_keys_get: "k \<in> set (bt_keys m) \<longleftrightarrow> bt_get m k \<noteq> None"
  by (induction m) (auto simp: bt_get_def bt_keys_def)

interpretation bt: ordered_map bt_keys bt_get bt_insert bt_retain bt_ok
proof (unfold_locales, goal_cases)
  case (1 m)
  then show ?case by (simp add: bt_ok_def)
next
  case (2 m k)
  then show ?case by (simp add: bt_keys_get)
next
  case (3 m k v)
  then show ?case by (rule bt_ok_insert)
next
  case (4 m k v k')
  then show ?case by (rule bt_get_insert)
next
  case (5 m P)
  then show ?case by (rule bt_ok_retain)
next
  case (6 m P k)
  then show ?case by (simp add: bt_get_retain)
qed

lemma bt_keys_empty [simp]: "bt_keys m = [] \<longleftrightarrow> m = []"
  by (simp add: bt_keys_def)

lemma length_bt_keys [simp]: "length (bt_keys m) = length m"
  by (simp add: bt_keys_def)

lemma bt_first_hd: "bt_first m = (if m = [] then None else Some (hd (bt_keys m)))"
  by (cases m) (auto simp: bt_first_def bt_keys_def)

lemma bt_first_Some:
  assumes "bt_ok m"
  shows "bt_first m = Some k \<longleftrightarrow> k \<in> set (bt_keys m) \<and> (\<forall>k' \<in> set (bt_keys m). k \<le> k')"
proof (cases "m = []")
  case True
  then show ?thesis by (simp add: bt_first_def bt_keys_def)
next
  case False
  then have "hd (bt_keys m) \<in> set (bt_keys m)" by simp
  then show ?thesis
    using bt.first_least[OF assms] False bt_first_hd[of m] by (auto intro: antisym)
qed

lemma bt_last_Some:
  assumes "bt_ok m"
  shows "bt_last m = Some k \<longleftrightarrow> k \<in> set (bt_keys m) \<and> (\<forall>k' \<in> set (bt_keys m). k' \<le> k)"
proof (cases "m = []")
  case True
  then show ?thesis by (simp add: bt_last_def bt_keys_def)
next
  case False
  then have "last (bt_keys m) \<in> set (bt_keys m)" by simp
  then show ?thesis
    using bt.last_greatest[OF assms] False by (auto simp: bt_last_def intro: antisym)
qed

lemma bt_ends_None [simp]: "bt_first m = None \<longleftrightarrow> m = []" "bt_last m = None \<longleftrightarrow> m = []"
  by (auto simp: bt_first_hd bt_last_def)

lemma bt_from_None: "bt_from k m = None \<longleftrightarrow> (\<forall>k' \<in> set (bt_keys m). k' < k)"
  by (auto simp: bt_from_def find_None_iff not_le)

lemma bt_keys_remove: "set (bt_keys (bt_remove k m)) = set (bt_keys m) - {k}"
  by (auto simp: bt_remove_def bt_keys_def)

lemma bt_get_remove: "bt_get (bt_remove k m) k' = (if k' = k then None else bt_get m k')"
  by (simp add: bt_remove_retain bt_get_retain)

lemma bt_ok_remove: "bt_ok m \<Longrightarrow> bt_ok (bt_remove k m)"
  by (simp add: bt_remove_retain bt_ok_retain)

end
