(* ===== verification/Jitter.thy ===== *)
theory Jitter
  imports Ordered_Map
begin

text \<open>
  \<open>src/src/mixer/jitter.rs\<close>: the reordering playout buffer of one stream. Sequence numbers are
  \<open>u64\<close> values kept as \<open>nat\<close>; the code saturates them (\<open>u64_max\<close>). The one unchecked product, in
  \<open>queued_frames\<close>, is taken modulo \<open>2 ^ 64\<close>. Event counters count up from zero and cannot reach
  their bound. \<open>Instant\<close>s are microseconds: a clock reading is an argument.
\<close>

definition MAX_SLOTS :: nat where "MAX_SLOTS = 32"

record jpacket =
  jp_pcm :: "byte list"
  jp_arrived :: nat

record jitter_buffer =
  jb_bpf :: nat
  jb_frames :: nat
  jb_bytes :: nat
  jb_target :: nat
  jb_slots :: "(nat, jpacket) btree"
  jb_primed :: bool
  jb_starved :: bool
  jb_started :: bool
  jb_play :: "nat option"
  jb_off :: nat
  jb_underruns :: nat
  jb_starvations :: nat
  jb_losses :: nat
  jb_discarded :: nat
  jb_arrived :: nat
  jb_residence_us :: nat

definition jitter_new :: "nat \<Rightarrow> nat \<Rightarrow> jitter_buffer" where
  "jitter_new bytes_per_frame packet_frames =
     (let bpf = max bytes_per_frame 1; frames = max packet_frames 1
      in \<lparr>jb_bpf = bpf, jb_frames = frames, jb_bytes = bpf * frames, jb_target = 4,
          jb_slots = bt_empty, jb_primed = False, jb_starved = False, jb_started = False,
          jb_play = None, jb_off = 0, jb_underruns = 0, jb_starvations = 0, jb_losses = 0,
          jb_discarded = 0, jb_arrived = 0, jb_residence_us = 0\<rparr>)"

definition buffered_packets :: "jitter_buffer \<Rightarrow> nat" where
  "buffered_packets jb = length (jb_slots jb)"

definition target_ms :: "jitter_buffer \<Rightarrow> nat" where
  "target_ms jb = jb_target jb * 5"

definition queued_frames :: "jitter_buffer \<Rightarrow> nat" where
  "queued_frames jb =
     (case bt_last (jb_slots jb) of
        None \<Rightarrow> 0
      | Some lst \<Rightarrow>
          let first = (case jb_play jb of Some p \<Rightarrow> p
                       | None \<Rightarrow> (case bt_first (jb_slots jb) of Some k \<Rightarrow> k | None \<Rightarrow> lst))
          in (sat_add u64_max (lst - first) 1 * jb_frames jb) mod 2 ^ 64 - jb_off jb)"

definition trim_latency :: "jitter_buffer \<Rightarrow> jitter_buffer" where
  "trim_latency jb =
     (case bt_last (jb_slots jb) of
        None \<Rightarrow> jb
      | Some lst \<Rightarrow>
          (case jb_play jb of
             None \<Rightarrow> jb
           | Some play \<Rightarrow>
               if jb_target jb + 2 < lst - play then
                 (let new_play = lst - (jb_target jb - 1);
                      old = length (jb_slots jb);
                      slots = bt_retain (\<lambda>seq. new_play \<le> seq) (jb_slots jb)
                  in jb\<lparr>jb_slots := slots,
                        jb_discarded := jb_discarded jb + (old - length slots),
                        jb_play := Some new_play, jb_off := 0\<rparr>)
               else jb))"

definition set_target_packets :: "jitter_buffer \<Rightarrow> nat \<Rightarrow> jitter_buffer" where
  "set_target_packets jb packets =
     (let target = clamp 1 MAX_SLOTS packets
      in if target = jb_target jb then jb
         else
           (let jb = (if jb_target jb < target \<and> jb_primed jb
                         \<and> queued_frames jb < target * jb_frames jb
                      then jb\<lparr>jb_primed := False\<rparr> else jb)
            in trim_latency (jb\<lparr>jb_target := target\<rparr>)))"

definition set_target_ms :: "jitter_buffer \<Rightarrow> nat \<Rightarrow> jitter_buffer" where
  "set_target_ms jb ms = set_target_packets jb (clamp 4 30 ((clamp 20 150 ms + 4) div 5))"

text \<open>The two early blocks of \<open>push\<close>: a starved buffer starts over, a far jump flushes.\<close>

definition restart_if_starved :: "jitter_buffer \<Rightarrow> jitter_buffer" where
  "restart_if_starved jb =
     (if jb_starved jb
      then jb\<lparr>jb_slots := bt_empty, jb_play := None, jb_off := 0, jb_primed := False,
              jb_starved := False, jb_started := False\<rparr>
      else jb)"

definition flush_if_jump :: "jitter_buffer \<Rightarrow> nat \<Rightarrow> jitter_buffer" where
  "flush_if_jump jb seq =
     (case jb_play jb of
        Some play \<Rightarrow>
          if sat_add u64_max play (MAX_SLOTS * 2) < seq
          then jb\<lparr>jb_slots := bt_empty, jb_play := None, jb_off := 0, jb_primed := False\<rparr>
          else jb
      | None \<Rightarrow> jb)"

text \<open>The loop \<open>while self.slots.len() > MAX_SLOTS\<close>: each round removes the first slot.\<close>

function evict_loop :: "jitter_buffer \<Rightarrow> jitter_buffer" where
  "evict_loop jb =
     (if MAX_SLOTS < length (jb_slots jb) then
        (case bt_first (jb_slots jb) of
           None \<Rightarrow> jb
         | Some first \<Rightarrow>
             let slots = bt_remove first (jb_slots jb);
                 jb1 = jb\<lparr>jb_slots := slots, jb_discarded := jb_discarded jb + 1\<rparr>
             in evict_loop
                  (if (case jb_play jb of Some play \<Rightarrow> play \<le> first | None \<Rightarrow> False)
                   then jb1\<lparr>jb_play := bt_first slots, jb_off := 0\<rparr> else jb1))
      else jb)"
  by pat_completeness auto

lemma length_bt_remove_first:
  "bt_first m = Some k \<Longrightarrow> length (bt_remove k m) < length m"
  unfolding bt_remove_def by (cases m) (auto simp: bt_first_def bt_keys_def le_imp_less_Suc)

termination evict_loop
  by (relation "measure (\<lambda>jb. length (jb_slots jb))") (auto simp: length_bt_remove_first)

declare evict_loop.simps [simp del]

definition push :: "jitter_buffer \<Rightarrow> nat \<Rightarrow> byte list \<Rightarrow> nat \<Rightarrow> bool \<times> jitter_buffer" where
  "push jb seq pcm now =
     (if seq = 0 \<or> length pcm \<noteq> jb_bytes jb then (False, jb)
      else
        (let jb = restart_if_starved jb
         in if (case jb_play jb of Some play \<Rightarrow> seq < play \<and> jb_started jb | None \<Rightarrow> False)
            then (False, jb\<lparr>jb_discarded := jb_discarded jb + 1\<rparr>)
            else
              (let jb = flush_if_jump jb seq
               in if bt_get (jb_slots jb) seq \<noteq> None then (False, jb)
                  else
                    (let jb = jb\<lparr>jb_slots := bt_insert seq \<lparr>jp_pcm = pcm, jp_arrived = now\<rparr> (jb_slots jb),
                                 jb_arrived := jb_arrived jb + 1\<rparr>;
                         jb = evict_loop jb;
                         jb = (if jb_play jb = None \<or> \<not> jb_started jb
                               then jb\<lparr>jb_play := bt_first (jb_slots jb)\<rparr> else jb);
                         jb = (if \<not> jb_primed jb \<and> jb_target jb * jb_frames jb \<le> queued_frames jb
                               then jb\<lparr>jb_primed := True\<rparr> else jb)
                     in (True, trim_latency jb)))))"

text \<open>The end of a round of \<open>pull\<close>'s loop: \<open>n\<close> frames of packet \<open>seq\<close> are played.\<close>

definition advance :: "jitter_buffer \<Rightarrow> nat \<Rightarrow> nat \<Rightarrow> jitter_buffer" where
  "advance jb seq n =
     (let jb = jb\<lparr>jb_off := jb_off jb + n\<rparr>
      in if jb_frames jb \<le> jb_off jb
         then (let jb = (if bt_get (jb_slots jb) seq = None then jb\<lparr>jb_losses := jb_losses jb + 1\<rparr>
                         else jb\<lparr>jb_slots := bt_remove seq (jb_slots jb)\<rparr>)
               in jb\<lparr>jb_play := Some (sat_add u64_max seq 1), jb_off := 0\<rparr>)
         else jb)"

text \<open>
  The loop of \<open>pull\<close>. It may not end when \<open>packet_frames\<close> is zero, which \<open>new\<close> excludes, so it is
  a partial function and its return is a theorem. \<open>clk done\<close> is the clock when \<open>done\<close> frames are out.
\<close>

partial_function (option) pull_loop ::
  "(nat \<Rightarrow> nat) \<Rightarrow> nat \<Rightarrow> jitter_buffer \<Rightarrow> byte list \<Rightarrow> nat \<Rightarrow> (jitter_buffer \<times> byte list) option" where
  "pull_loop clk frames jb dst done =
     (if \<not> done < frames then Some (jb, dst)
      else case jb_play jb of
        None \<Rightarrow> Some (jb, dst)
      | Some seq \<Rightarrow>
          let off = min (jb_off jb) (jb_frames jb);
              n = min (jb_frames jb - off) (frames - done);
              bpf = jb_bpf jb
          in if n = 0 then
               pull_loop clk frames (jb\<lparr>jb_play := Some (sat_add u64_max seq 1), jb_off := 0\<rparr>) dst done
             else
               (case bt_get (jb_slots jb) seq of
                  Some packet \<Rightarrow>
                    pull_loop clk frames
                      (advance (jb\<lparr>jb_residence_us := min (clk done - jp_arrived packet) u64_max\<rparr>) seq n)
                      (copy_at (done * bpf) (subslice (off * bpf) ((off + n) * bpf) (jp_pcm packet)) dst)
                      (done + n)
                | None \<Rightarrow>
                    if bt_from seq (jb_slots jb) = None
                    then Some (jb\<lparr>jb_underruns := jb_underruns jb + (frames - done),
                                  jb_starvations := jb_starvations jb + 1, jb_primed := False,
                                  jb_starved := True, jb_play := None, jb_off := 0\<rparr>, dst)
                    else
                      pull_loop clk frames
                        (advance (jb\<lparr>jb_underruns := jb_underruns jb + n\<rparr>) seq n) dst (done + n)))"

definition pull :: "(nat \<Rightarrow> nat) \<Rightarrow> jitter_buffer \<Rightarrow> byte list \<Rightarrow> nat \<Rightarrow> (nat \<times> jitter_buffer \<times> byte list) option" where
  "pull clk jb dst frames =
     (let bpf = jb_bpf jb;
          frames = min frames (length dst div bpf);
          dst = replicate (frames * bpf) 0 @ drop (frames * bpf) dst
      in if \<not> jb_primed jb then Some (frames, jb, dst)
         else map_option (\<lambda>(jb, dst). (frames, jb, dst))
                (pull_loop clk frames (jb\<lparr>jb_started := True\<rparr>) dst 0))"

section \<open>Invariant\<close>

definition basic :: "jitter_buffer \<Rightarrow> bool" where
  "basic jb \<longleftrightarrow> 0 < jb_bpf jb \<and> 0 < jb_frames jb \<and> jb_bytes jb = jb_bpf jb * jb_frames jb
     \<and> 1 \<le> jb_target jb \<and> jb_target jb \<le> MAX_SLOTS \<and> bt_ok (jb_slots jb)
     \<and> (\<forall>k pk. bt_get (jb_slots jb) k = Some pk \<longrightarrow>
          0 < k \<and> k \<le> u64_max \<and> length (jp_pcm pk) = jb_bytes jb)
     \<and> jb_off jb < jb_frames jb \<and> (\<not> jb_started jb \<longrightarrow> jb_off jb = 0)"

definition ahead :: "jitter_buffer \<Rightarrow> bool" where
  "ahead jb \<longleftrightarrow> (\<forall>p. jb_play jb = Some p \<longrightarrow>
     0 < p \<and> p \<le> u64_max \<and> (\<forall>k \<in> set (bt_keys (jb_slots jb)). p \<le> k))"

text \<open>The playout position trails the newest packet by at most the target and two packets.\<close>

definition near :: "jitter_buffer \<Rightarrow> bool" where
  "near jb \<longleftrightarrow> (\<forall>p. jb_play jb = Some p \<longrightarrow>
     (\<forall>k \<in> set (bt_keys (jb_slots jb)). k \<le> p + jb_target jb + 2))"

definition jitter_ok :: "jitter_buffer \<Rightarrow> bool" where
  "jitter_ok jb \<longleftrightarrow> basic jb \<and> ahead jb \<and> near jb \<and> length (jb_slots jb) \<le> MAX_SLOTS
     \<and> (jb_play jb = None \<longrightarrow> jb_slots jb = [] \<and> jb_off jb = 0 \<and> \<not> jb_primed jb)
     \<and> (jb_starved jb \<longrightarrow> jb_play jb = None)"

lemma jitter_okD:
  assumes "jitter_ok jb"
  shows "basic jb" "ahead jb" "near jb" "length (jb_slots jb) \<le> MAX_SLOTS"
    "jb_play jb = None \<Longrightarrow> jb_slots jb = []" "jb_play jb = None \<Longrightarrow> jb_off jb = 0"
    "jb_play jb = None \<Longrightarrow> \<not> jb_primed jb" "jb_starved jb \<Longrightarrow> jb_play jb = None"
  using assms by (simp_all add: jitter_ok_def)

lemma basicD:
  assumes "basic jb"
  shows "0 < jb_bpf jb" "0 < jb_frames jb" "jb_bytes jb = jb_bpf jb * jb_frames jb"
    "1 \<le> jb_target jb" "jb_target jb \<le> MAX_SLOTS" "bt_ok (jb_slots jb)"
    "bt_get (jb_slots jb) k = Some pk \<Longrightarrow> 0 < k"
    "bt_get (jb_slots jb) k = Some pk \<Longrightarrow> k \<le> u64_max"
    "bt_get (jb_slots jb) k = Some pk \<Longrightarrow> length (jp_pcm pk) = jb_bytes jb"
    "jb_off jb < jb_frames jb" "\<not> jb_started jb \<Longrightarrow> jb_off jb = 0"
proof -
  have e: "\<forall>k pk. bt_get (jb_slots jb) k = Some pk \<longrightarrow> 0 < k \<and> k \<le> u64_max \<and> length (jp_pcm pk) = jb_bytes jb"
    using assms by (simp add: basic_def)
  show "0 < jb_bpf jb" "0 < jb_frames jb" "jb_bytes jb = jb_bpf jb * jb_frames jb"
    "1 \<le> jb_target jb" "jb_target jb \<le> MAX_SLOTS" "bt_ok (jb_slots jb)"
    "jb_off jb < jb_frames jb" "\<not> jb_started jb \<Longrightarrow> jb_off jb = 0"
    using assms by (simp_all add: basic_def)
  show "bt_get (jb_slots jb) k = Some pk \<Longrightarrow> 0 < k"
    "bt_get (jb_slots jb) k = Some pk \<Longrightarrow> k \<le> u64_max"
    "bt_get (jb_slots jb) k = Some pk \<Longrightarrow> length (jp_pcm pk) = jb_bytes jb"
    using e by blast+
qed

lemma basic_key:
  assumes "basic jb" "k \<in> set (bt_keys (jb_slots jb))"
  shows "0 < k \<and> k \<le> u64_max"
proof -
  obtain pk where "bt_get (jb_slots jb) k = Some pk" using assms(2) bt_keys_get by force
  then show ?thesis using basicD(7,8)[OF assms(1)] by blast
qed

text \<open>A buffer with the same sizes, no new packets and a valid offset is basic too.\<close>

lemma basic_shrink:
  assumes "basic jb" "jb_bpf jb' = jb_bpf jb" "jb_frames jb' = jb_frames jb" "jb_bytes jb' = jb_bytes jb"
    "1 \<le> jb_target jb'" "jb_target jb' \<le> MAX_SLOTS" "bt_ok (jb_slots jb')"
    "\<And>k pk. bt_get (jb_slots jb') k = Some pk \<Longrightarrow> bt_get (jb_slots jb) k = Some pk"
    "jb_off jb' < jb_frames jb" "\<not> jb_started jb' \<longrightarrow> jb_off jb' = 0"
  shows "basic jb'"
proof -
  have "\<forall>k pk. bt_get (jb_slots jb') k = Some pk \<longrightarrow> 0 < k \<and> k \<le> u64_max \<and> length (jp_pcm pk) = jb_bytes jb"
    using assms(1,8) unfolding basic_def by blast
  then show ?thesis using assms(1-7,9,10) unfolding basic_def by presburger
qed

lemma jitter_new_ok: "jitter_ok (jitter_new b f)"
  by (auto simp: jitter_ok_def basic_def ahead_def near_def jitter_new_def MAX_SLOTS_def bt_get_def Let_def)

lemma trim_fields [simp]:
  "jb_target (trim_latency jb) = jb_target jb" "jb_frames (trim_latency jb) = jb_frames jb"
  "jb_bpf (trim_latency jb) = jb_bpf jb" "jb_bytes (trim_latency jb) = jb_bytes jb"
  "jb_starved (trim_latency jb) = jb_starved jb" "jb_started (trim_latency jb) = jb_started jb"
  "jb_primed (trim_latency jb) = jb_primed jb"
  "jb_play (trim_latency jb) = None \<longleftrightarrow> jb_play jb = None"
  by (auto simp: trim_latency_def Let_def split: option.splits)

text \<open>Trimming restores the latency bound and keeps the rest.\<close>

lemma trim_ok:
  assumes "basic jb" "ahead jb" "length (jb_slots jb) \<le> MAX_SLOTS"
    "jb_play jb = None \<longrightarrow> jb_slots jb = [] \<and> jb_off jb = 0 \<and> \<not> jb_primed jb"
    "jb_starved jb \<longrightarrow> jb_play jb = None"
  shows "jitter_ok (trim_latency jb)"
proof (cases "jb_play jb")
  case None
  then show ?thesis
    using assms by (simp add: trim_latency_def jitter_ok_def near_def bt_last_def)
next
  case (Some p)
  show ?thesis
  proof (cases "jb_slots jb = []")
    case True
    then show ?thesis
      using assms Some by (simp add: trim_latency_def jitter_ok_def near_def bt_last_def bt_keys_def)
  next
    case False
    then obtain lst where lst: "bt_last (jb_slots jb) = Some lst"
      by (metis bt_ends_None(2) not_None_eq)
    then have last: "lst \<in> set (bt_keys (jb_slots jb))" "\<forall>k \<in> set (bt_keys (jb_slots jb)). k \<le> lst"
      using bt_last_Some[OF basicD(6)[OF assms(1)]] by blast+
    have lp: "p \<le> lst" "0 < p" using assms(2) Some last(1) unfolding ahead_def by blast+
    show ?thesis
    proof (cases "jb_target jb + 2 < lst - p")
      case False
      have "k \<le> p + jb_target jb + 2" if "k \<in> set (bt_keys (jb_slots jb))" for k
        using last(2) that False lp(1) by fastforce
      then have "near jb" using Some by (simp add: near_def)
      moreover have "trim_latency jb = jb" using False lst Some by (simp add: trim_latency_def)
      ultimately show ?thesis using assms by (simp add: jitter_ok_def)
    next
      case True
      let ?np = "lst - (jb_target jb - 1)"
      let ?slots = "bt_retain (\<lambda>seq. ?np \<le> seq) (jb_slots jb)"
      let ?jb = "jb\<lparr>jb_slots := ?slots, jb_discarded := jb_discarded jb + (length (jb_slots jb) - length ?slots),
                 jb_play := Some ?np, jb_off := 0\<rparr>"
      have t: "trim_latency jb = ?jb" using True lst Some by (simp add: trim_latency_def Let_def)
      note b = basicD[OF assms(1)]
      have keys: "set (bt_keys ?slots) = {k \<in> set (bt_keys (jb_slots jb)). ?np \<le> k}"
        by (rule bt.keys_retain[OF b(6)])
      have "basic ?jb"
        by (rule basic_shrink[OF assms(1)])
          (simp_all add: b(2) b(4)[unfolded One_nat_def] b(5) bt_ok_retain[OF b(6)] bt_get_retain split: if_splits)
      moreover have "\<forall>k \<in> set (bt_keys ?slots). ?np \<le> k" using keys by blast
      moreover have "0 < ?np" "?np \<le> u64_max" "lst \<le> ?np + jb_target jb + 2"
        using True basic_key[OF assms(1) last(1)] by linarith+
      moreover have "\<forall>k \<in> set (bt_keys ?slots). k \<le> lst" using keys last(2) by blast
      ultimately have "basic ?jb \<and> ahead ?jb \<and> near ?jb"
        unfolding ahead_def near_def by fastforce
      moreover have "length ?slots \<le> MAX_SLOTS"
        using bt.size_retain[OF b(6), of "\<lambda>seq. ?np \<le> seq"] assms(3) by simp
      ultimately show ?thesis using assms(5) Some unfolding t jitter_ok_def by simp
    qed
  qed
qed

lemma set_target_ok: "jitter_ok jb \<Longrightarrow> jitter_ok (set_target_packets jb n)"
proof -
  assume ok: "jitter_ok jb"
  let ?t = "clamp 1 MAX_SLOTS n"
  have t: "1 \<le> ?t" "?t \<le> MAX_SLOTS" by (simp_all add: clamp_def MAX_SLOTS_def)
  have "jitter_ok (trim_latency (jb'\<lparr>jb_target := ?t\<rparr>))" if "jb' = jb \<or> jb' = jb\<lparr>jb_primed := False\<rparr>" for jb'
    using that ok t by (intro trim_ok) (auto simp: jitter_ok_def basic_def ahead_def)
  then show ?thesis using ok by (simp add: set_target_packets_def Let_def)
qed

lemma set_target_ms_ok: "jitter_ok jb \<Longrightarrow> jitter_ok (set_target_ms jb ms)"
  by (simp add: set_target_ms_def set_target_ok)

section \<open>Push\<close>

text \<open>What one round of eviction keeps; \<open>evict_loop\<close> runs it while there are too many slots.\<close>

definition evict_frame :: "jitter_buffer \<Rightarrow> jitter_buffer \<Rightarrow> bool" where
  "evict_frame jb jb' \<longleftrightarrow> basic jb' \<and> jb_slots jb' \<noteq> []
     \<and> (ahead jb \<longrightarrow> ahead jb') \<and> (jb_play jb' = None \<longleftrightarrow> jb_play jb = None)
     \<and> jb_started jb' = jb_started jb \<and> jb_starved jb' = jb_starved jb \<and> jb_primed jb' = jb_primed jb
     \<and> jb_target jb' = jb_target jb \<and> jb_frames jb' = jb_frames jb \<and> jb_bytes jb' = jb_bytes jb
     \<and> jb_bpf jb' = jb_bpf jb
     \<and> (\<forall>k pk. bt_get (jb_slots jb') k = Some pk \<longrightarrow> bt_get (jb_slots jb) k = Some pk)"

lemma evict_frame_refl: "basic jb \<Longrightarrow> jb_slots jb \<noteq> [] \<Longrightarrow> evict_frame jb jb"
  by (simp add: evict_frame_def)

lemma evict_frame_trans: "evict_frame a b \<Longrightarrow> evict_frame b c \<Longrightarrow> evict_frame a c"
  unfolding evict_frame_def by presburger

lemma evict_frameD: "evict_frame a b \<Longrightarrow> basic b \<and> jb_slots b \<noteq> []"
  unfolding evict_frame_def by blast

lemma evict_round:
  assumes "basic jb" "MAX_SLOTS < length (jb_slots jb)" "bt_first (jb_slots jb) = Some first"
  defines "slots \<equiv> bt_remove first (jb_slots jb)"
  defines "jb1 \<equiv> jb\<lparr>jb_slots := slots, jb_discarded := jb_discarded jb + 1\<rparr>"
  shows "evict_frame jb
    (if (case jb_play jb of Some play \<Rightarrow> play \<le> first | None \<Rightarrow> False)
     then jb1\<lparr>jb_play := bt_first slots, jb_off := 0\<rparr> else jb1)"
proof -
  note b = basicD[OF assms(1)]
  have ok: "bt_ok slots" unfolding slots_def using b(6) by (rule bt_ok_remove)
  have sub: "bt_get slots k = Some pk \<Longrightarrow> bt_get (jb_slots jb) k = Some pk" for k pk
    unfolding slots_def by (simp add: bt_get_remove split: if_splits)
  have keys: "set (bt_keys slots) = set (bt_keys (jb_slots jb)) - {first}"
    unfolding slots_def by (rule bt_keys_remove)
  have "first \<in> set (bt_keys (jb_slots jb))" using assms(3) bt_first_Some[OF b(6)] by blast
  then have "Suc (length slots) = length (jb_slots jb)"
    using bt.size_remove[OF b(6)] unfolding slots_def bt_remove_retain by simp
  then have ne: "slots \<noteq> []" using assms(2) by (auto simp: MAX_SLOTS_def)
  then obtain nxt where nxt: "bt_first slots = Some nxt" using bt_ends_None(1) by blast
  have nk: "nxt \<in> set (bt_keys slots)" "\<forall>k \<in> set (bt_keys slots). nxt \<le> k"
    using bt_first_Some[OF ok] nxt by blast+
  then have nr: "0 < nxt" "nxt \<le> u64_max" using keys basic_key[OF assms(1)] by auto
  have b1: "basic jb1" and b2: "basic (jb1\<lparr>jb_play := Some nxt, jb_off := 0\<rparr>)"
    unfolding jb1_def
    by (rule basic_shrink[OF assms(1)]; simp add: b(2,5,10,11) b(4)[unfolded One_nat_def] ok sub)+
  have a2: "ahead (jb1\<lparr>jb_play := Some nxt, jb_off := 0\<rparr>)"
    using nk nr by (simp add: ahead_def jb1_def)
  have a1: "ahead jb \<longrightarrow> ahead jb1"
    using keys by (simp add: ahead_def jb1_def)
  show ?thesis
    using b1 b2 a1 a2 ne sub nxt unfolding evict_frame_def
    by (auto simp: jb1_def split: option.splits)
qed

lemma evict_loop_frame:
  "basic jb \<Longrightarrow> jb_slots jb \<noteq> [] \<Longrightarrow>
    evict_frame jb (evict_loop jb) \<and> length (jb_slots (evict_loop jb)) \<le> MAX_SLOTS"
proof (induction jb rule: evict_loop.induct)
  case (1 jb)
  show ?case
  proof (cases "MAX_SLOTS < length (jb_slots jb)")
    case False
    then show ?thesis using "1.prems" evict_frame_refl by (simp add: evict_loop.simps [of jb])
  next
    case True
    then obtain first where f: "bt_first (jb_slots jb) = Some first"
      using "1.prems"(2) bt_ends_None(1) by blast
    note r = evict_round[OF "1.prems"(1) True f]
    let ?slots = "bt_remove first (jb_slots jb)"
    let ?jb1 = "jb\<lparr>jb_slots := ?slots, jb_discarded := jb_discarded jb + 1\<rparr>"
    let ?nx = "if (case jb_play jb of Some play \<Rightarrow> play \<le> first | None \<Rightarrow> False)
        then ?jb1\<lparr>jb_play := bt_first ?slots, jb_off := 0\<rparr> else ?jb1"
    have e: "evict_loop jb = evict_loop ?nx"
      using True f by (simp add: evict_loop.simps [of jb] Let_def)
    have "basic ?nx" "jb_slots ?nx \<noteq> []" using evict_frameD[OF r] by blast+
    with "1.IH"[OF True f refl refl] have
      "evict_frame ?nx (evict_loop ?nx)" "length (jb_slots (evict_loop ?nx)) \<le> MAX_SLOTS" by blast+
    then show ?thesis unfolding e using evict_frame_trans[OF r] by blast
  qed
qed

lemma emptied_ok:
  assumes "basic jb" "jb_bpf jb' = jb_bpf jb" "jb_frames jb' = jb_frames jb" "jb_bytes jb' = jb_bytes jb"
    "jb_target jb' = jb_target jb" "jb_slots jb' = []" "jb_play jb' = None" "jb_off jb' = 0" "\<not> jb_primed jb'"
  shows "jitter_ok jb'"
proof -
  note b = basicD[OF assms(1)]
  have "basic jb'"
    by (rule basic_shrink[OF assms(1)]) (simp_all add: assms b(2,5) b(4)[unfolded One_nat_def] bt_get_def)
  then show ?thesis using assms by (simp add: jitter_ok_def ahead_def near_def)
qed

lemma restart_ok:
  assumes "jitter_ok jb"
  shows "jitter_ok (restart_if_starved jb)" "\<not> jb_starved (restart_if_starved jb)"
    "jb_bytes (restart_if_starved jb) = jb_bytes jb"
proof -
  show "jitter_ok (restart_if_starved jb)"
    unfolding restart_if_starved_def
    using emptied_ok[OF jitter_okD(1)[OF assms]] assms by simp
  show "\<not> jb_starved (restart_if_starved jb)" "jb_bytes (restart_if_starved jb) = jb_bytes jb"
    by (simp_all add: restart_if_starved_def)
qed

lemma flush_ok:
  assumes "jitter_ok jb"
  shows "jitter_ok (flush_if_jump jb seq)" "jb_starved (flush_if_jump jb seq) = jb_starved jb"
    "jb_bytes (flush_if_jump jb seq) = jb_bytes jb" "jb_started (flush_if_jump jb seq) = jb_started jb"
    "jb_play (flush_if_jump jb seq) = None \<or> jb_play (flush_if_jump jb seq) = jb_play jb"
proof -
  have e: "jitter_ok (jb\<lparr>jb_slots := bt_empty, jb_play := None, jb_off := 0, jb_primed := False\<rparr>)"
    by (rule emptied_ok[OF jitter_okD(1)[OF assms]]) simp_all
  then show "jitter_ok (flush_if_jump jb seq)" using assms
    by (cases "jb_play jb") (simp_all add: flush_if_jump_def)
  show "jb_starved (flush_if_jump jb seq) = jb_starved jb" "jb_bytes (flush_if_jump jb seq) = jb_bytes jb"
    "jb_started (flush_if_jump jb seq) = jb_started jb"
    "jb_play (flush_if_jump jb seq) = None \<or> jb_play (flush_if_jump jb seq) = jb_play jb"
    by (auto simp: flush_if_jump_def split: option.splits)
qed

text \<open>The rest of an accepted push, after the checks.\<close>

definition store :: "jitter_buffer \<Rightarrow> nat \<Rightarrow> byte list \<Rightarrow> nat \<Rightarrow> jitter_buffer" where
  "store jb seq pcm now =
     (let jb = jb\<lparr>jb_slots := bt_insert seq \<lparr>jp_pcm = pcm, jp_arrived = now\<rparr> (jb_slots jb),
                  jb_arrived := jb_arrived jb + 1\<rparr>;
          jb = evict_loop jb;
          jb = (if jb_play jb = None \<or> \<not> jb_started jb
                then jb\<lparr>jb_play := bt_first (jb_slots jb)\<rparr> else jb)
      in (if \<not> jb_primed jb \<and> jb_target jb * jb_frames jb \<le> queued_frames jb
          then jb\<lparr>jb_primed := True\<rparr> else jb))"

lemma store_ok:
  assumes ok: "jitter_ok jb" and new: "0 < seq" "seq \<le> u64_max" "length pcm = jb_bytes jb"
    and fresh: "jb_started jb \<longrightarrow> (\<forall>p. jb_play jb = Some p \<longrightarrow> p \<le> seq)" "\<not> jb_starved jb"
  shows "jitter_ok (trim_latency (store jb seq pcm now))"
proof -
  note b = basicD[OF jitter_okD(1)[OF ok]]
  let ?pk = "\<lparr>jp_pcm = pcm, jp_arrived = now\<rparr>"
  let ?jb1 = "jb\<lparr>jb_slots := bt_insert seq ?pk (jb_slots jb), jb_arrived := jb_arrived jb + 1\<rparr>"
  have get: "bt_get (bt_insert seq ?pk (jb_slots jb)) k = (if k = seq then Some ?pk else bt_get (jb_slots jb) k)" for k
    by (rule bt_get_insert[OF b(6)])
  have b1: "basic ?jb1"
    unfolding basic_def using b(1-6,10,11) b(7-9) new bt_ok_insert[OF b(6)] by (simp add: get)
  have keys1: "set (bt_keys (jb_slots ?jb1)) = insert seq (set (bt_keys (jb_slots jb)))"
    by (simp add: bt_keys_insert_sub)
  then have ne: "jb_slots ?jb1 \<noteq> []" by (metis bt_keys_empty insert_not_empty list.set(1))
  define jb2 where "jb2 = evict_loop ?jb1"
  note e = evict_loop_frame[OF b1 ne, folded jb2_def]
  have e_fields: "basic jb2" "jb_slots jb2 \<noteq> []" "jb_started jb2 = jb_started jb"
    "\<not> jb_starved jb2" "length (jb_slots jb2) \<le> MAX_SLOTS"
    using e fresh(2) unfolding evict_frame_def by simp_all
  obtain fst where fst: "bt_first (jb_slots jb2) = Some fst" using e_fields(2) bt_ends_None(1) by blast
  then have fk: "fst \<in> set (bt_keys (jb_slots jb2))" "\<forall>k \<in> set (bt_keys (jb_slots jb2)). fst \<le> k"
    using bt_first_Some[OF basicD(6)[OF e_fields(1)]] by blast+
  define jb3 where "jb3 = (if jb_play jb2 = None \<or> \<not> jb_started jb2
      then jb2\<lparr>jb_play := Some fst\<rparr> else jb2)"
  have "ahead jb2" if "jb_started jb2"
  proof -
    have "ahead ?jb1"
      using fresh(1) that e_fields(3) jitter_okD(2)[OF ok] keys1 unfolding ahead_def by simp
    then show ?thesis using e by (simp add: evict_frame_def)
  qed
  then have a3: "ahead jb3"
    using fk basic_key[OF e_fields(1) fk(1)] by (auto simp: jb3_def ahead_def)
  have play3: "jb_play jb3 \<noteq> None" by (simp add: jb3_def)
  have b3: "basic jb3"
    using e_fields(1) by (simp add: jb3_def basic_def)
  define jb4 where "jb4 = (if \<not> jb_primed jb3 \<and> jb_target jb3 * jb_frames jb3 \<le> queued_frames jb3
      then jb3\<lparr>jb_primed := True\<rparr> else jb3)"
  have store: "store jb seq pcm now = jb4"
    unfolding store_def Let_def jb2_def[symmetric] fst jb3_def[symmetric] jb4_def[symmetric]
    by (rule refl)
  have "basic jb4" using b3 by (simp add: jb4_def basic_def)
  moreover have "ahead jb4" using a3 by (simp add: jb4_def ahead_def)
  moreover have "length (jb_slots jb4) \<le> MAX_SLOTS" using e_fields(5) by (simp add: jb4_def jb3_def)
  moreover have "jb_play jb4 \<noteq> None" using play3 by (simp add: jb4_def)
  moreover have "\<not> jb_starved jb4" using e_fields(4) by (simp add: jb4_def jb3_def)
  ultimately show ?thesis unfolding store by (intro trim_ok) auto
qed

lemma push_unfold:
  "push jb seq pcm now =
     (if seq = 0 \<or> length pcm \<noteq> jb_bytes jb then (False, jb)
      else
        (let jb1 = restart_if_starved jb; jb2 = flush_if_jump jb1 seq
         in if \<exists>play. jb_play jb1 = Some play \<and> seq < play \<and> jb_started jb1
            then (False, jb1\<lparr>jb_discarded := jb_discarded jb1 + 1\<rparr>)
            else if bt_get (jb_slots jb2) seq \<noteq> None then (False, jb2)
            else (True, trim_latency (store jb2 seq pcm now))))"
  by (cases "jb_play (restart_if_starved jb)") (simp_all add: push_def store_def Let_def)

lemma push_ok:
  assumes "jitter_ok jb" "seq \<le> u64_max"
  shows "jitter_ok (snd (push jb seq pcm now))"
proof (cases "seq = 0 \<or> length pcm \<noteq> jb_bytes jb")
  case True
  then show ?thesis using assms by (simp add: push_unfold)
next
  case False
  let ?jb1 = "restart_if_starved jb"
  let ?jb2 = "flush_if_jump ?jb1 seq"
  note r = restart_ok[OF assms(1)]
  note f = flush_ok[OF r(1), of seq]
  have rej: "jitter_ok (?jb1\<lparr>jb_discarded := jb_discarded ?jb1 + 1\<rparr>)"
    using r(1) by (simp add: jitter_ok_def basic_def ahead_def near_def)
  show ?thesis
  proof (cases "\<exists>play. jb_play ?jb1 = Some play \<and> seq < play \<and> jb_started ?jb1")
    case True
    then show ?thesis using False rej by (simp add: push_unfold Let_def)
  next
    case fresh: False
    have "jitter_ok (trim_latency (store ?jb2 seq pcm now))"
      by (rule store_ok[OF f(1)]) (use False assms(2) fresh f r(2,3) in fastforce)+
    then show ?thesis using False fresh f(1) by (auto simp: push_unfold Let_def)
  qed
qed

text \<open>What a push accepts and what it leaves in the buffer.\<close>

definition arrives_late :: "jitter_buffer \<Rightarrow> nat \<Rightarrow> bool" where
  "arrives_late jb seq \<longleftrightarrow> jb_started jb \<and> (case jb_play jb of None \<Rightarrow> False | Some p \<Rightarrow> seq < p)"

definition jumps_ahead :: "jitter_buffer \<Rightarrow> nat \<Rightarrow> bool" where
  "jumps_ahead jb seq \<longleftrightarrow> (case jb_play jb of None \<Rightarrow> False | Some p \<Rightarrow> sat_add u64_max p 64 < seq)"

lemma trim_subset:
  "bt_get (jb_slots (trim_latency jb)) k = Some pk \<Longrightarrow> bt_get (jb_slots jb) k = Some pk"
  by (auto simp: trim_latency_def bt_get_retain Let_def split: option.splits if_splits)

lemma store_subset:
  assumes "jitter_ok jb" "0 < seq" "seq \<le> u64_max" "length pcm = jb_bytes jb"
    and "bt_get (jb_slots (store jb seq pcm now)) k = Some pk"
  shows "k = seq \<and> pk = \<lparr>jp_pcm = pcm, jp_arrived = now\<rparr> \<or> bt_get (jb_slots jb) k = Some pk"
proof -
  note b = basicD[OF jitter_okD(1)[OF assms(1)]]
  let ?pk = "\<lparr>jp_pcm = pcm, jp_arrived = now\<rparr>"
  let ?jb1 = "jb\<lparr>jb_slots := bt_insert seq ?pk (jb_slots jb), jb_arrived := jb_arrived jb + 1\<rparr>"
  have get: "bt_get (bt_insert seq ?pk (jb_slots jb)) x = (if x = seq then Some ?pk else bt_get (jb_slots jb) x)" for x
    by (rule bt_get_insert[OF b(6)])
  have "basic ?jb1"
    unfolding basic_def using b(1-6,10,11) b(7-9) assms(2-4) bt_ok_insert[OF b(6)] by (simp add: get)
  moreover have "jb_slots ?jb1 \<noteq> []" by (cases "jb_slots jb") (auto split: if_splits)
  ultimately have "evict_frame ?jb1 (evict_loop ?jb1)" using evict_loop_frame by blast
  then have "bt_get (jb_slots (evict_loop ?jb1)) k = Some pk \<Longrightarrow> bt_get (jb_slots ?jb1) k = Some pk"
    unfolding evict_frame_def by blast
  moreover have "jb_slots (store jb seq pcm now) = jb_slots (evict_loop ?jb1)"
    by (simp add: store_def Let_def)
  ultimately show ?thesis using assms(5) get by (auto split: if_splits)
qed

text \<open>
  Push decides as intended and invents nothing. A packet is accepted exactly when its number
  is not zero, its size is right and, unless the buffer starved, it is neither late nor a duplicate
  (a far jump flushes the buffer first, so nothing is a duplicate then). Every packet in the buffer
  afterwards is the new one under its own number or one that was there before.
\<close>

theorem push_accepts:
  assumes "jitter_ok jb" and "seq \<le> u64_max"
  shows "(fst (push jb seq pcm now) \<longleftrightarrow> seq \<noteq> 0 \<and> length pcm = jb_bytes jb
      \<and> (jb_starved jb \<or> (\<not> arrives_late jb seq \<and> (jumps_ahead jb seq \<or> bt_get (jb_slots jb) seq = None))))
    \<and> (\<forall>k pk. bt_get (jb_slots (snd (push jb seq pcm now))) k = Some pk \<longrightarrow>
         (k = seq \<and> jp_pcm pk = pcm) \<or> bt_get (jb_slots jb) k = Some pk)"
proof (cases "seq = 0 \<or> length pcm \<noteq> jb_bytes jb")
  case True
  then show ?thesis by (auto simp: push_unfold)
next
  case valid: False
  let ?jb1 = "restart_if_starved jb"
  let ?jb2 = "flush_if_jump ?jb1 seq"
  let ?late = "\<exists>play. jb_play ?jb1 = Some play \<and> seq < play \<and> jb_started ?jb1"
  have late: "?late \<longleftrightarrow> \<not> jb_starved jb \<and> arrives_late jb seq"
    by (auto simp: restart_if_starved_def arrives_late_def split: option.splits)
  have dup: "bt_get (jb_slots ?jb2) seq = None \<longleftrightarrow>
      jb_starved jb \<or> jumps_ahead jb seq \<or> bt_get (jb_slots jb) seq = None"
    by (auto simp: restart_if_starved_def flush_if_jump_def jumps_ahead_def MAX_SLOTS_def bt_get_def
        split: option.splits)
  have sub1: "bt_get (jb_slots ?jb1) k = Some pk \<Longrightarrow> bt_get (jb_slots jb) k = Some pk" for k pk
    by (auto simp: restart_if_starved_def bt_get_def split: if_splits)
  have sub2: "bt_get (jb_slots ?jb2) k = Some pk \<Longrightarrow> bt_get (jb_slots jb) k = Some pk" for k pk
    by (rule sub1) (auto simp: flush_if_jump_def bt_get_def split: option.splits if_splits)
  have ok2: "jitter_ok ?jb2" "length pcm = jb_bytes ?jb2"
    using flush_ok[OF restart_ok(1)[OF assms(1)]] restart_ok(3)[OF assms(1)] valid by simp_all
  have stored: "(k = seq \<and> jp_pcm pk = pcm) \<or> bt_get (jb_slots jb) k = Some pk"
    if "bt_get (jb_slots (trim_latency (store ?jb2 seq pcm now))) k = Some pk" for k pk
    using store_subset[OF ok2(1) _ assms(2) ok2(2) trim_subset[OF that]] valid sub2 by auto
  show ?thesis
  proof (cases ?late)
    case True
    then have "push jb seq pcm now = (False, ?jb1\<lparr>jb_discarded := jb_discarded ?jb1 + 1\<rparr>)"
      using valid by (simp add: push_unfold Let_def)
    then show ?thesis using True late sub1 by simp
  next
    case False
    have "push jb seq pcm now = (if bt_get (jb_slots ?jb2) seq \<noteq> None then (False, ?jb2)
        else (True, trim_latency (store ?jb2 seq pcm now)))"
      unfolding push_unfold Let_def if_not_P[OF valid] if_not_P[OF False] by (rule refl)
    then show ?thesis using False late dup sub2 stored valid by (auto split: if_splits)
  qed
qed

theorem push_accepts_witness:
  "fst (push (jitter_new 1 2) 7 [3, 4] 0) \<and> \<not> fst (push (jitter_new 1 2) 7 [3] 0)"
proof -
  have s: "7 \<le> u64_max" by (simp add: u64_max_def)
  note a = push_accepts[OF jitter_new_ok[of 1 2] s, of "[3, 4]" 0]
  note b = push_accepts[OF jitter_new_ok[of 1 2] s, of "[3]" 0]
  from a b show ?thesis
    by (simp add: jitter_new_def arrives_late_def bt_get_def Let_def)
qed

section \<open>Pull\<close>

text \<open>
  The reference: frame \<open>i\<close> from the playout position is the frame of the buffered packet it falls
  into, and silence when that packet is not there.
\<close>

definition stream_packet :: "jitter_buffer \<Rightarrow> nat \<Rightarrow> jpacket option" where
  "stream_packet jb i =
     (case jb_play jb of None \<Rightarrow> None
      | Some p \<Rightarrow> bt_get (jb_slots jb) (p + (jb_off jb + i) div jb_frames jb))"

definition stream_frame :: "jitter_buffer \<Rightarrow> nat \<Rightarrow> byte list" where
  "stream_frame jb i =
     (case stream_packet jb i of
        None \<Rightarrow> replicate (jb_bpf jb) 0
      | Some pk \<Rightarrow>
          let f = (jb_off jb + i) mod jb_frames jb
          in subslice (f * jb_bpf jb) ((f + 1) * jb_bpf jb) (jp_pcm pk))"

definition missing_frames :: "jitter_buffer \<Rightarrow> nat \<Rightarrow> nat" where
  "missing_frames jb n = length (filter (\<lambda>i. stream_packet jb i = None) [0..<n])"

lemma advance_fields:
  "jb_frames (advance jb p n) = jb_frames jb" "jb_bpf (advance jb p n) = jb_bpf jb"
  "jb_underruns (advance jb p n) = jb_underruns jb" "jb_primed (advance jb p n) = jb_primed jb"
  "jb_starvations (advance jb p n) = jb_starvations jb" "jb_play (advance jb p n) \<noteq> None \<longleftrightarrow> jb_play jb \<noteq> None \<or> jb_frames jb \<le> jb_off jb + n"
  by (auto simp: advance_def Let_def)

lemma advance_slots: "jb_slots (advance jb p n)
    = (if jb_frames jb \<le> jb_off jb + n then bt_remove p (jb_slots jb) else jb_slots jb)"
proof -
  have "bt_get (jb_slots jb) p = None \<Longrightarrow> bt_remove p (jb_slots jb) = jb_slots jb"
    by (induction "jb_slots jb") (auto simp: bt_remove_def bt_get_def filter_id_conv map_of_eq_None_iff)
  then show ?thesis by (simp add: advance_def Let_def)
qed

lemma advance_pos:
  "jb_play (advance jb p n) = (if jb_frames jb \<le> jb_off jb + n then Some (sat_add u64_max p 1) else jb_play jb)"
  "jb_off (advance jb p n) = (if jb_frames jb \<le> jb_off jb + n then 0 else jb_off jb + n)"
  by (simp_all add: advance_def Let_def)

lemma advance_stream:
  assumes b: "basic jb" and a: "ahead jb" and p: "jb_play jb = Some p" and n: "jb_off jb + n \<le> jb_frames jb"
  shows "stream_packet (advance jb p n) i = stream_packet jb (n + i)"
    and "stream_frame (advance jb p n) i = stream_frame jb (n + i)"
proof -
  have F: "0 < jb_frames jb" by (rule basicD(2)[OF b])
  show pkt: "stream_packet (advance jb p n) i = stream_packet jb (n + i)"
  proof (cases "jb_frames jb \<le> jb_off jb + n")
    case False
    then show ?thesis by (simp add: stream_packet_def advance_pos advance_slots advance_fields p add.assoc)
  next
    case True
    with n have on: "jb_off jb + (n + i) = jb_frames jb + i" by simp
    then have q: "p + (jb_off jb + (n + i)) div jb_frames jb = p + 1 + i div jb_frames jb"
      unfolding on using div_add_self1[of "jb_frames jb" i] F by simp
    have lhs: "stream_packet (advance jb p n) i
        = bt_get (bt_remove p (jb_slots jb)) (sat_add u64_max p 1 + i div jb_frames jb)"
      using True by (simp add: stream_packet_def advance_pos advance_slots advance_fields)
    have rhs: "stream_packet jb (n + i) = bt_get (jb_slots jb) (p + 1 + i div jb_frames jb)"
      unfolding stream_packet_def p option.case q by (rule refl)
    show ?thesis
    proof (cases "p + 1 \<le> u64_max")
      case True
      then show ?thesis unfolding lhs rhs by (simp add: sat_add_def bt_get_remove)
    next
      case False
      have "bt_get (jb_slots jb) (p + 1 + i div jb_frames jb) = None"
        using basicD(8)[OF b] False by (metis not_Some_eq le_trans le_add1)
      moreover have "bt_get (bt_remove p (jb_slots jb)) (sat_add u64_max p 1 + i div jb_frames jb) = None"
      proof (rule ccontr)
        assume "bt_get (bt_remove p (jb_slots jb)) (sat_add u64_max p 1 + i div jb_frames jb) \<noteq> None"
        then obtain pk where "bt_get (jb_slots jb) (sat_add u64_max p 1 + i div jb_frames jb) = Some pk"
          and ne: "sat_add u64_max p 1 + i div jb_frames jb \<noteq> p"
          by (auto simp: bt_get_remove split: if_splits)
        then have "sat_add u64_max p 1 + i div jb_frames jb \<le> u64_max" using basicD(8)[OF b] by blast
        moreover have "sat_add u64_max p 1 = u64_max" using False by (simp add: sat_add_def)
        moreover have "p = u64_max" using False a p unfolding ahead_def by fastforce
        ultimately show False using ne by simp
      qed
      ultimately show ?thesis unfolding lhs rhs by simp
    qed
  qed
  have eq: "(jb_off (advance jb p n) + i) mod jb_frames jb = (jb_off jb + (n + i)) mod jb_frames jb"
  proof (cases "jb_frames jb \<le> jb_off jb + n")
    case True
    with n have "jb_off jb + (n + i) = jb_frames jb + i" by simp
    then show ?thesis using True by (simp only: advance_pos if_True mod_add_self1 add_0)
  qed (simp add: advance_pos add.assoc)
  show "stream_frame (advance jb p n) i = stream_frame jb (n + i)"
    unfolding stream_frame_def pkt advance_fields eq by (rule refl)
qed

lemma advance_ok:
  assumes ok: "jitter_ok jb" and p: "jb_play jb = Some p" and n: "jb_off jb + n \<le> jb_frames jb"
    and st: "jb_started jb"
  shows "jitter_ok (advance jb p n)"
proof -
  note b = basicD[OF jitter_okD(1)[OF ok]]
  let ?jb = "advance jb p n"
  have fields: "jb_bpf ?jb = jb_bpf jb" "jb_frames ?jb = jb_frames jb" "jb_bytes ?jb = jb_bytes jb"
    "jb_target ?jb = jb_target jb" "jb_started ?jb = jb_started jb" "jb_starved ?jb = jb_starved jb"
    by (simp_all add: advance_def Let_def)
  have sub: "bt_get (jb_slots ?jb) k = Some pk \<Longrightarrow> bt_get (jb_slots jb) k = Some pk" for k pk
    by (simp add: advance_slots bt_get_remove split: if_splits)
  have ok': "bt_ok (jb_slots ?jb)" using b(6) bt_ok_remove[OF b(6)] by (simp add: advance_slots)
  have off: "jb_off ?jb < jb_frames jb" using b(2) by (simp add: advance_pos)
  have basic: "basic ?jb"
    by (rule basic_shrink[OF jitter_okD(1)[OF ok]])
      (simp_all add: fields b(5) b(4)[unfolded One_nat_def] ok' off st, rule sub)
  have keys: "set (bt_keys (jb_slots ?jb)) \<subseteq> set (bt_keys (jb_slots jb))"
    "jb_frames jb \<le> jb_off jb + n \<Longrightarrow> p \<notin> set (bt_keys (jb_slots ?jb))"
    using bt_keys_remove[of p "jb_slots jb"] by (auto simp: advance_slots)
  have pr: "0 < p" "p \<le> u64_max" "\<forall>k \<in> set (bt_keys (jb_slots jb)). p \<le> k"
    using jitter_okD(2)[OF ok] p unfolding ahead_def by blast+
  have nr: "\<forall>k \<in> set (bt_keys (jb_slots jb)). k \<le> p + jb_target jb + 2"
    using jitter_okD(3)[OF ok] p unfolding near_def by blast
  have "ahead ?jb \<and> near ?jb"
  proof (cases "jb_frames jb \<le> jb_off jb + n")
    case False
    then show ?thesis using pr nr keys(1) p by (auto simp: ahead_def near_def advance_pos fields)
  next
    case True
    let ?q = "sat_add u64_max p 1"
    have q: "0 < ?q" "?q \<le> u64_max" "p \<le> ?q" "?q \<le> p + 1" using pr by (auto simp: sat_add_def)
    have "?q \<le> k \<and> k \<le> ?q + jb_target jb + 2" if k: "k \<in> set (bt_keys (jb_slots ?jb))" for k
    proof -
      have "p \<le> k" "k \<le> p + jb_target jb + 2" using k keys(1) pr(3) nr by blast+
      moreover have "k \<noteq> p" using k keys(2)[OF True] by blast
      ultimately show ?thesis using q by linarith
    qed
    then show ?thesis using q True by (simp add: ahead_def near_def advance_pos fields)
  qed
  moreover have "length (jb_slots ?jb) \<le> length (jb_slots jb)"
    using bt.size_retain[OF b(6)] by (simp add: advance_slots bt_remove_retain)
  moreover have "jb_play ?jb \<noteq> None" using p by (simp add: advance_pos)
  moreover have "\<not> jb_starved ?jb" using jitter_okD(8)[OF ok] p fields by auto
  ultimately show ?thesis using basic jitter_okD(4)[OF ok] unfolding jitter_ok_def by linarith
qed

lemma upt_split: "[0..<n + m] = [0..<n] @ map (\<lambda>i. n + i) [0..<m]"
  by (rule nth_equalityI) (auto simp: nth_append)

lemma missing_split:
  assumes "\<And>i. stream_packet jb' i = stream_packet jb (n + i)"
  shows "missing_frames jb (n + m) = missing_frames jb n + missing_frames jb' m"
proof -
  show ?thesis unfolding missing_frames_def upt_split by (simp add: assms filter_map comp_def)
qed

lemma frames_split:
  assumes "\<And>i. stream_frame jb' i = stream_frame jb (n + i)"
  shows "concat (map (stream_frame jb) [0..<n + m])
    = concat (map (stream_frame jb) [0..<n]) @ concat (map (stream_frame jb') [0..<m])"
proof -
  have "stream_frame jb' = (\<lambda>i. stream_frame jb (n + i))" using assms by blast
  then show ?thesis unfolding upt_split by (simp add: comp_def)
qed

text \<open>Within one packet: the frames are a slice of its PCM, or silence.\<close>

lemma concat_subslices:
  assumes "(a + n) * w \<le> length xs"
  shows "concat (map (\<lambda>i. subslice ((a + i) * w) ((a + i + 1) * w) xs) [0..<n]) = subslice (a * w) ((a + n) * w) xs"
  using assms
proof (induction n)
  case 0
  then show ?case by (simp add: subslice_def)
next
  case (Suc n)
  have "subslice (a * w) ((a + Suc n) * w) xs
      = subslice (a * w) ((a + n) * w) xs @ subslice ((a + n) * w) ((a + Suc n) * w) xs"
    by (rule subslice_split) simp_all
  then show ?case using Suc by (simp add: algebra_simps)
qed

lemma packet_frames_here:
  assumes b: "basic jb" and p: "jb_play jb = Some p" and n: "jb_off jb + n \<le> jb_frames jb" "i < n"
  shows "stream_packet jb i = bt_get (jb_slots jb) p" and "(jb_off jb + i) mod jb_frames jb = jb_off jb + i"
  using n p by (simp_all add: stream_packet_def)

lemma frames_here:
  assumes b: "basic jb" and p: "jb_play jb = Some p" and n: "jb_off jb + n \<le> jb_frames jb"
  shows "concat (map (stream_frame jb) [0..<n]) = (case bt_get (jb_slots jb) p of
      None \<Rightarrow> replicate (n * jb_bpf jb) 0
    | Some pk \<Rightarrow> subslice (jb_off jb * jb_bpf jb) ((jb_off jb + n) * jb_bpf jb) (jp_pcm pk))"
proof (cases "bt_get (jb_slots jb) p")
  case None
  have "map (stream_frame jb) [0..<n] = map (\<lambda>_. replicate (jb_bpf jb) 0) [0..<n]"
    using packet_frames_here[OF b p n] None by (auto simp: stream_frame_def)
  moreover have "concat (map (\<lambda>_. replicate (jb_bpf jb) 0) [0..<n]) = replicate (n * jb_bpf jb) (0 :: byte)"
    by (induction n) (auto simp: replicate_add[symmetric] add.commute)
  ultimately show ?thesis by (simp only: None option.case)
next
  case (Some pk)
  have "map (stream_frame jb) [0..<n]
      = map (\<lambda>i. subslice ((jb_off jb + i) * jb_bpf jb) ((jb_off jb + i + 1) * jb_bpf jb) (jp_pcm pk)) [0..<n]"
    using packet_frames_here[OF b p n] Some by (auto simp: stream_frame_def Let_def)
  moreover have "(jb_off jb + n) * jb_bpf jb \<le> length (jp_pcm pk)"
    using basicD(9)[OF b Some] basicD(3)[OF b] n by (metis mult.commute mult_le_mono1)
  ultimately show ?thesis by (simp only: Some option.case concat_subslices)
qed

lemma missing_here:
  assumes "basic jb" "jb_play jb = Some p" "jb_off jb + n \<le> jb_frames jb"
  shows "missing_frames jb n = (if bt_get (jb_slots jb) p = None then n else 0)"
proof -
  have "\<forall>i \<in> set [0..<n]. stream_packet jb i = bt_get (jb_slots jb) p"
    using packet_frames_here(1)[OF assms] by simp
  then have "filter (\<lambda>i. stream_packet jb i = None) [0..<n] = (if bt_get (jb_slots jb) p = None then [0..<n] else [])"
    by (auto simp: filter_id_conv filter_empty_conv)
  then show ?thesis by (simp add: missing_frames_def)
qed

text \<open>Beyond the last buffered packet everything is missing.\<close>

lemma stream_ended:
  assumes "jb_play jb = Some p" "bt_from p (jb_slots jb) = None"
  shows "stream_packet jb i = None"
proof -
  have "p + (jb_off jb + i) div jb_frames jb \<notin> set (bt_keys (jb_slots jb))"
    using assms(2) unfolding bt_from_None by fastforce
  then show ?thesis using assms(1) by (simp add: stream_packet_def bt_keys_get)
qed

lemma starve_ok:
  assumes "jitter_ok jb" "jb_slots jb = []"
  shows "jitter_ok (jb\<lparr>jb_underruns := u, jb_starvations := v, jb_primed := False,
    jb_starved := True, jb_play := None, jb_off := 0\<rparr>)"
  by (rule emptied_ok[OF jitter_okD(1)[OF assms(1)]]) (simp_all add: assms(2))

lemma ended_empty:
  assumes "jitter_ok jb" "jb_play jb = Some p" "bt_from p (jb_slots jb) = None"
  shows "jb_slots jb = []"
proof -
  have "\<forall>k \<in> set (bt_keys (jb_slots jb)). p \<le> k \<and> k < p"
    using assms jitter_okD(2)[OF assms(1)] unfolding ahead_def bt_from_None by blast
  then have "set (bt_keys (jb_slots jb)) = {}" by (metis all_not_in_conv leD)
  then show ?thesis by simp
qed

lemma copy_at_zeros:
  assumes "length chunk = n" "n \<le> m"
  shows "copy_at (length pre) chunk (pre @ replicate m 0 @ post) = (pre @ chunk) @ replicate (m - n) 0 @ post"
  using assms by (simp add: copy_at_def)

lemma count_ok:
  assumes "jitter_ok jb"
  shows "jitter_ok (jb\<lparr>jb_underruns := u\<rparr>)" "jitter_ok (jb\<lparr>jb_residence_us := u\<rparr>)"
    "jitter_ok (jb\<lparr>jb_started := True\<rparr>)"
  using assms by (auto simp: jitter_ok_def basic_def ahead_def near_def)

lemma count_stream [simp]:
  "stream_packet (jb\<lparr>jb_underruns := u\<rparr>) = stream_packet jb"
  "stream_packet (jb\<lparr>jb_residence_us := u\<rparr>) = stream_packet jb"
  "stream_packet (jb\<lparr>jb_started := b\<rparr>) = stream_packet jb"
  "stream_frame (jb\<lparr>jb_underruns := u\<rparr>) = stream_frame jb"
  "stream_frame (jb\<lparr>jb_residence_us := u\<rparr>) = stream_frame jb"
  "stream_frame (jb\<lparr>jb_started := b\<rparr>) = stream_frame jb"
  by (simp_all add: fun_eq_iff stream_frame_def stream_packet_def split: option.split)

text \<open>The sizes a pull leaves alone, and what it may count.\<close>

definition pulled :: "jitter_buffer \<Rightarrow> jitter_buffer \<Rightarrow> nat \<Rightarrow> bool" where
  "pulled jb jb' missed \<longleftrightarrow> jitter_ok jb' \<and> jb_underruns jb' = jb_underruns jb + missed
     \<and> jb_bpf jb' = jb_bpf jb \<and> jb_frames jb' = jb_frames jb
     \<and> (jb_primed jb' \<longleftrightarrow> jb_starvations jb' = jb_starvations jb)
     \<and> jb_starvations jb' \<in> {jb_starvations jb, jb_starvations jb + 1}"

text \<open>
  What the buffer would play from now on if nothing arrived: silence while it is not primed. After a
  pull of \<open>n\<close> frames it goes on where these end.
\<close>

definition sounds :: "jitter_buffer \<Rightarrow> nat \<Rightarrow> byte list" where
  "sounds jb i = (if jb_primed jb then stream_frame jb i else replicate (jb_bpf jb) 0)"

definition continues :: "jitter_buffer \<Rightarrow> nat \<Rightarrow> jitter_buffer \<Rightarrow> bool" where
  "continues jb n jb' \<longleftrightarrow> (\<forall>i. sounds jb' i = sounds jb (n + i))"

lemma continues_0: "continues jb 0 jb"
  by (simp add: continues_def)

lemma continues_advance:
  assumes "continues jb2 m jb'" "\<And>i. sounds jb2 i = sounds jb (n + i)"
  shows "continues jb (n + m) jb'"
  using assms by (simp add: continues_def add.assoc)

lemma continues_starved:
  assumes "jb_play jb = Some p" "bt_from p (jb_slots jb) = None" "jb_bpf jb' = jb_bpf jb" "\<not> jb_primed jb'"
  shows "continues jb m jb'"
  using stream_ended[OF assms(1,2)] assms(3,4) by (simp add: continues_def sounds_def stream_frame_def)

lemma concat_sounds:
  "(if jb_primed jb then concat (map (stream_frame jb) [0..<n]) else replicate (n * jb_bpf jb) 0)
    = concat (map (sounds jb) [0..<n])"
proof (cases "jb_primed jb")
  case True
  then show ?thesis by (simp add: sounds_def[abs_def])
next
  case False
  then have "concat (map (sounds jb) [0..<n]) = replicate (n * jb_bpf jb) 0"
    by (induction n) (simp_all add: sounds_def replicate_add[symmetric] add.commute)
  with False show ?thesis by simp
qed

lemma pull_loop_round:
  assumes ok: "jitter_ok jb" and st: "jb_started jb" and p: "jb_play jb = Some p"
    and n: "n = min (jb_frames jb - jb_off jb) m" "0 < m"
  shows "0 < n" "n \<le> m" "jb_off jb + n \<le> jb_frames jb"
  using basicD(10)[OF jitter_okD(1)[OF ok]] n by auto

lemma pull_loop_step:
  assumes "jitter_ok jb" "jb_play jb = Some p" "done + m = frames" "0 < m" "n = min (jb_frames jb - jb_off jb) m" "0 < n"
  shows "pull_loop clk frames jb dst done =
        (case bt_get (jb_slots jb) p of
           Some packet \<Rightarrow>
             pull_loop clk frames
               (advance (jb\<lparr>jb_residence_us := min (clk done - jp_arrived packet) u64_max\<rparr>) p n)
               (copy_at (done * jb_bpf jb)
                 (subslice (jb_off jb * jb_bpf jb) ((jb_off jb + n) * jb_bpf jb) (jp_pcm packet)) dst)
               (done + n)
         | None \<Rightarrow>
             if bt_from p (jb_slots jb) = None
             then Some (jb\<lparr>jb_underruns := jb_underruns jb + m,
                           jb_starvations := jb_starvations jb + 1, jb_primed := False,
                           jb_starved := True, jb_play := None, jb_off := 0\<rparr>, dst)
             else pull_loop clk frames (advance (jb\<lparr>jb_underruns := jb_underruns jb + n\<rparr>) p n) dst (done + n))"
proof -
  have "min (jb_off jb) (jb_frames jb) = jb_off jb" using basicD(10)[OF jitter_okD(1)[OF assms(1)]] by simp
  moreover have "frames - done = m" "done < frames" using assms(3,4) by simp_all
  ultimately show ?thesis using assms(6)
    by (subst pull_loop.simps) (auto simp: assms(2) assms(5)[symmetric] Let_def split: option.split)
qed

lemma ended_stream:
  assumes "jb_play jb = Some p" "bt_from p (jb_slots jb) = None"
  shows "concat (map (stream_frame jb) [0..<m]) = replicate (m * jb_bpf jb) 0" "missing_frames jb m = m"
proof -
  have gone: "stream_packet jb i = None" for i by (rule stream_ended[OF assms])
  show "concat (map (stream_frame jb) [0..<m]) = replicate (m * jb_bpf jb) 0"
    by (induction m) (simp_all add: stream_frame_def gone replicate_add[symmetric] add.commute)
  show "missing_frames jb m = m" by (simp add: missing_frames_def gone)
qed

lemma pull_loop_plays:
  assumes "jitter_ok jb" "jb_started jb" "jb_primed jb"
    and "length pre = done * jb_bpf jb" "done + m = frames"
  shows "\<exists>jb'. pull_loop clk frames jb (pre @ replicate (m * jb_bpf jb) 0 @ post) done
      = Some (jb', pre @ concat (map (stream_frame jb) [0..<m]) @ post)
    \<and> pulled jb jb' (missing_frames jb m) \<and> continues jb m jb'"
  using assms
proof (induction m arbitrary: jb pre "done" rule: less_induct)
  case (less m)
  note ok = less.prems(1) and st = less.prems(2)
  note b = basicD[OF jitter_okD(1)[OF ok]]
  show ?case
  proof (cases "m = 0")
    case True
    then show ?thesis using less.prems
      by (subst pull_loop.simps) (simp add: pulled_def missing_frames_def continues_0)
  next
    case False
    obtain p where p: "jb_play jb = Some p"
      using jitter_okD(7)[OF ok] less.prems(3) by blast
    define n where "n = min (jb_frames jb - jb_off jb) m"
    note n = pull_loop_round[OF ok st p n_def] 
    have n': "0 < n" "n \<le> m" "jb_off jb + n \<le> jb_frames jb" using n False by simp_all
    let ?dst = "pre @ replicate (m * jb_bpf jb) 0 @ post"
    have "0 < m" using False by simp
    note unfold = pull_loop_step[OF ok p less.prems(5) this n_def n'(1), of clk ?dst]
    have split: "m = n + (m - n)" using n'(2) by simp
    have rest: "done + n + (m - n) = frames" "m - n < m" using less.prems(5) n' by simp_all
    have zeros: "replicate (m * jb_bpf jb) (0 :: byte)
        = replicate (n * jb_bpf jb) 0 @ replicate ((m - n) * jb_bpf jb) 0"
      using split by (metis add_mult_distrib replicate_add)
    text \<open>One round, for the buffer \<open>jb1\<close> with its statistics updated.\<close>
    have round: "\<exists>jb'. pull_loop clk frames (advance jb1 p n) ((pre @ chunk) @ replicate ((m - n) * jb_bpf jb) 0 @ post) (done + n)
          = Some (jb', pre @ concat (map (stream_frame jb) [0..<m]) @ post)
        \<and> pulled jb jb' (missing_frames jb m) \<and> continues jb m jb'"
      if jb1: "jitter_ok jb1" "jb_started jb1" "jb_primed jb1" "jb_bpf jb1 = jb_bpf jb"
          "jb_frames jb1 = jb_frames jb" "jb_off jb1 = jb_off jb" "jb_play jb1 = Some p"
          "jb_slots jb1 = jb_slots jb" "stream_packet jb1 = stream_packet jb" "stream_frame jb1 = stream_frame jb"
          "jb_starvations jb1 = jb_starvations jb"
        and und: "jb_underruns jb1 = jb_underruns jb + missing_frames jb n"
        and chunk: "chunk = concat (map (stream_frame jb) [0..<n])" "length chunk = n * jb_bpf jb"
      for jb1 chunk
    proof -
      let ?jb2 = "advance jb1 p n"
      have n1: "jb_off jb1 + n \<le> jb_frames jb1" using n'(3) jb1 by simp
      have ok2: "jitter_ok ?jb2" by (rule advance_ok[OF jb1(1,7) n1 jb1(2)])
      have st2: "jb_started ?jb2" "jb_primed ?jb2" using jb1 by (simp_all add: advance_def Let_def)
      have "length (pre @ chunk) = (done + n) * jb_bpf ?jb2"
        using less.prems(4) chunk(2) jb1(4) by (simp add: advance_fields add_mult_distrib)
      from less.IH[OF rest(2) ok2 st2 this rest(1)] obtain jb' where
        run: "pull_loop clk frames ?jb2 ((pre @ chunk) @ replicate ((m - n) * jb_bpf jb) 0 @ post) (done + n)
          = Some (jb', (pre @ chunk) @ concat (map (stream_frame ?jb2) [0..<m - n]) @ post)"
        and pd: "pulled ?jb2 jb' (missing_frames ?jb2 (m - n))" "continues ?jb2 (m - n) jb'"
        using jb1(4) by (auto simp: advance_fields)
      note adv = advance_stream[OF jitter_okD(1,2)[OF jb1(1)] jb1(7) n1, unfolded jb1(9,10)]
      have "concat (map (stream_frame jb) [0..<m]) = chunk @ concat (map (stream_frame ?jb2) [0..<m - n])"
        unfolding chunk(1) using frames_split[of ?jb2 jb n "m - n", OF adv(2)] split by simp
      moreover have "missing_frames jb m = missing_frames jb n + missing_frames ?jb2 (m - n)"
        using missing_split[of ?jb2 jb n "m - n", OF adv(1)] split by simp
      moreover have "continues jb m jb'"
        using continues_advance[OF pd(2), of jb n] adv(2) jb1(3) st2(2) less.prems(3) split by (simp add: sounds_def)
      ultimately show ?thesis
        using run pd und jb1 by (simp add: pulled_def advance_fields)
    qed
    note here = frames_here[OF jitter_okD(1)[OF ok] p n'(3)]
    note miss = missing_here[OF jitter_okD(1)[OF ok] p n'(3)]
    show ?thesis
    proof (cases "bt_get (jb_slots jb) p")
      case (Some pk)
      let ?chunk = "subslice (jb_off jb * jb_bpf jb) ((jb_off jb + n) * jb_bpf jb) (jp_pcm pk)"
      have "(jb_off jb + n) * jb_bpf jb \<le> length (jp_pcm pk)"
        using b(9)[OF Some] b(3) n'(3) by (metis mult.commute mult_le_mono1)
      then have len: "length ?chunk = n * jb_bpf jb" by (simp add: algebra_simps)
      have copy: "copy_at (done * jb_bpf jb) ?chunk ?dst
          = (pre @ ?chunk) @ replicate ((m - n) * jb_bpf jb) 0 @ post"
        using copy_at_zeros[OF len, of "m * jb_bpf jb" pre post] less.prems(4) n'(2)
        by (simp add: diff_mult_distrib)
      show ?thesis
        unfolding unfold Some option.case copy
        by (rule round) (use ok st less.prems(3) p len here miss Some in \<open>simp_all add: count_ok\<close>)
    next
      case None
      show ?thesis
      proof (cases "bt_from p (jb_slots jb) = None")
        case False
        show ?thesis
          unfolding unfold unfolding None option.case if_not_P[OF False] unfolding zeros append.assoc
          using round[of "jb\<lparr>jb_underruns := jb_underruns jb + n\<rparr>" "replicate (n * jb_bpf jb) 0"]
            ok st less.prems(3) p here miss None by (simp add: count_ok)
      next
        case True
        have "jb_slots jb = []" by (rule ended_empty[OF ok p True])
        note s = starve_ok[OF ok this]
        show ?thesis
          unfolding unfold None option.case if_P[OF True] ended_stream[OF p True]
          using s continues_starved[OF p True] by (simp add: pulled_def)
      qed
    qed
  qed
qed

lemma pull_plays:
  assumes ok: "jitter_ok jb" and F: "n = min frames (length dst div jb_bpf jb)"
  shows "\<exists>jb'. pull clk jb dst frames = Some (n, jb',
      (if jb_primed jb then concat (map (stream_frame jb) [0..<n]) else replicate (n * jb_bpf jb) 0)
      @ drop (n * jb_bpf jb) dst)
    \<and> (if jb_primed jb then pulled jb jb' (missing_frames jb n) else jb' = jb) \<and> continues jb n jb'"
proof (cases "jb_primed jb")
  case False
  then show ?thesis using F by (simp add: pull_def Let_def continues_def sounds_def)
next
  case True
  let ?jb = "jb\<lparr>jb_started := True\<rparr>"
  have "jitter_ok ?jb" "jb_started ?jb" "jb_primed ?jb" using count_ok(3)[OF ok] True by simp_all
  from pull_loop_plays[OF this, of "[]" 0 n n clk "drop (n * jb_bpf jb) dst"] obtain jb' where
    "pull_loop clk n ?jb (replicate (n * jb_bpf jb) 0 @ drop (n * jb_bpf jb) dst) 0
      = Some (jb', concat (map (stream_frame ?jb) [0..<n]) @ drop (n * jb_bpf jb) dst)"
    "pulled ?jb jb' (missing_frames ?jb n)" "continues ?jb n jb'" by auto
  then show ?thesis using True F by (simp add: pull_def Let_def pulled_def missing_frames_def continues_def sounds_def)
qed

text \<open>
  C10. What a pull plays. From a buffer in a reachable state \<open>pull\<close> always returns; it writes as
  many whole frames as were asked for and fit, and leaves the rest of the output alone. A primed
  buffer writes the stream from its playout position, each frame taken from its packet and silence
  where the packet is missing, and counts exactly the silent frames as underruns; it stays primed
  unless it ran dry. A buffer that is not primed writes silence and does not change.
\<close>

theorem pull_plays_stream:
  assumes "jitter_ok jb"
  shows "\<exists>n jb' out. pull clk jb dst frames = Some (n, jb', out)
    \<and> n = min frames (length dst div jb_bpf jb)
    \<and> out = (if jb_primed jb then concat (map (stream_frame jb) [0..<n])
              else replicate (n * jb_bpf jb) 0) @ drop (n * jb_bpf jb) dst
    \<and> jitter_ok jb'
    \<and> (if jb_primed jb
       then jb_underruns jb' = jb_underruns jb + missing_frames jb n
         \<and> (jb_primed jb' \<longleftrightarrow> jb_starvations jb' = jb_starvations jb)
       else jb' = jb)"
  using pull_plays[OF assms refl, where frames = frames and dst = dst and clk = clk] assms
  by (cases "jb_primed jb") (auto simp: pulled_def)

definition demo_jitter :: jitter_buffer where
  "demo_jitter = snd (push (set_target_packets (jitter_new 1 2) 1) 7 [3, 4] 0)"

lemma demo_jitter_eval: "demo_jitter = (jitter_new 1 2)\<lparr>jb_target := 1, jb_primed := True,
    jb_slots := [(7, \<lparr>jp_pcm = [3, 4], jp_arrived = 0\<rparr>)], jb_play := Some 7, jb_arrived := 1\<rparr>"
  by (simp add: demo_jitter_def push_unfold store_def evict_loop.simps restart_if_starved_def
      flush_if_jump_def set_target_packets_def trim_latency_def queued_frames_def jitter_new_def
      bt_get_def bt_first_def bt_last_def bt_keys_def MAX_SLOTS_def sat_add_def u64_max_def
      clamp_def Let_def)

lemma demo_jitter_ok: "jitter_ok demo_jitter"
  unfolding demo_jitter_def
  by (rule push_ok[OF set_target_ok[OF jitter_new_ok]]) (simp add: u64_max_def)

theorem pull_plays_stream_witness:
  "\<exists>jb'. pull id demo_jitter [9, 9, 9, 9] 3 = Some (3, jb', [3, 4, 0, 9]) \<and> jb_underruns jb' = 1"
proof -
  have demo: "jb_bpf demo_jitter = 1" "jb_primed demo_jitter" "jb_underruns demo_jitter = 0"
    and frames: "concat (map (stream_frame demo_jitter) [0..<3]) = [3, 4, 0]"
    and missing: "missing_frames demo_jitter 3 = 1"
    by (simp_all add: demo_jitter_eval stream_frame_def stream_packet_def missing_frames_def
        bt_get_def subslice_def jitter_new_def Let_def upt_rec)
  obtain n jb' out where run: "pull id demo_jitter [9, 9, 9, 9] 3 = Some (n, jb', out)"
    and n: "n = min 3 (length [9 :: byte, 9, 9, 9] div jb_bpf demo_jitter)"
    and out: "out = concat (map (stream_frame demo_jitter) [0..<n]) @ drop (n * jb_bpf demo_jitter) [9, 9, 9, 9]"
    and und: "jb_underruns jb' = jb_underruns demo_jitter + missing_frames demo_jitter n"
    using pull_plays_stream[OF demo_jitter_ok, of id "[9, 9, 9, 9]" 3] demo(2) by auto
  have "n = 3" using n demo(1) by simp
  then show ?thesis using run out und demo missing by (simp add: frames)
qed

section \<open>Every reachable buffer\<close>

datatype jitter_op =
    JPush u64 "byte list" nat
  | JPull "nat \<Rightarrow> nat" "byte list" nat
  | JTargetPackets nat
  | JTargetMs nat

fun jitter_step :: "jitter_op \<Rightarrow> jitter_buffer \<Rightarrow> jitter_buffer option" where
  "jitter_step (JPush s pcm now) jb = Some (snd (push jb (unat s) pcm now))"
| "jitter_step (JPull clk dst n) jb = map_option (\<lambda>(_, jb', _). jb') (pull clk jb dst n)"
| "jitter_step (JTargetPackets n) jb = Some (set_target_packets jb n)"
| "jitter_step (JTargetMs ms) jb = Some (set_target_ms jb ms)"

fun jitter_run :: "jitter_op list \<Rightarrow> jitter_buffer \<Rightarrow> jitter_buffer option" where
  "jitter_run [] jb = Some jb"
| "jitter_run (x # xs) jb = Option.bind (jitter_step x jb) (jitter_run xs)"

lemma unat_u64_le: "unat (w :: u64) \<le> u64_max"
  using unat_lt[of w] by (simp add: u64_max_def)

lemma jitter_step_ok: "jitter_ok jb \<Longrightarrow> \<exists>jb'. jitter_step x jb = Some jb' \<and> jitter_ok jb'"
proof (cases x)
  case (JPull clk dst n)
  assume ok: "jitter_ok jb"
  show ?thesis using pull_plays[OF ok refl, where frames = n and dst = dst and clk = clk] ok JPull
    by (auto simp: pulled_def split: if_splits)
qed (auto simp: push_ok unat_u64_le set_target_ok set_target_ms_ok)

lemma jitter_run_ok: "jitter_ok jb \<Longrightarrow> \<exists>jb'. jitter_run xs jb = Some jb' \<and> jitter_ok jb'"
proof (induction xs arbitrary: jb)
  case Nil
  then show ?case by simp
next
  case (Cons x xs)
  then show ?case using jitter_step_ok[OF Cons.prems, of x] by auto
qed

lemma jitter_ok_latency:
  assumes "jitter_ok jb"
  shows "queued_frames jb \<le> (jb_target jb + 3) * jb_frames jb"
proof (cases "bt_last (jb_slots jb)")
  case None
  show ?thesis unfolding queued_frames_def None option.case by simp
next
  case (Some lst)
  have key: "lst \<in> set (bt_keys (jb_slots jb))"
    using Some bt_last_Some[OF basicD(6)[OF jitter_okD(1)[OF assms]]] by blast
  then have "jb_slots jb \<noteq> []" by (auto simp: bt_keys_def)
  then obtain p where p: "jb_play jb = Some p" using jitter_okD(5)[OF assms] by blast
  have "lst - p + 1 \<le> jb_target jb + 3"
    using jitter_okD(3)[OF assms] p key unfolding near_def by fastforce
  then have "sat_add u64_max (lst - p) 1 \<le> jb_target jb + 3" by (simp add: sat_add_def)
  then have "sat_add u64_max (lst - p) 1 * jb_frames jb mod 2 ^ 64 \<le> (jb_target jb + 3) * jb_frames jb"
    by (meson mod_less_eq_dividend le_trans mult_le_mono1)
  then show ?thesis unfolding queued_frames_def Some p option.case Let_def by linarith
qed

text \<open>
  Every operation sequence on a new buffer runs to the end, pulls included, and keeps the
  invariant: at most 32 packets, all of the packet size, none behind the playout position; and the
  latency is bounded: the queue is never longer than the target and three packets.
\<close>

theorem jitter_reachable_ok:
  "\<exists>jb. jitter_run ops (jitter_new bpf frames) = Some jb \<and> jitter_ok jb
    \<and> buffered_packets jb \<le> MAX_SLOTS
    \<and> queued_frames jb \<le> (jb_target jb + 3) * jb_frames jb"
proof -
  obtain jb where jb: "jitter_run ops (jitter_new bpf frames) = Some jb" "jitter_ok jb"
    using jitter_run_ok[OF jitter_new_ok] by blast
  with jitter_okD(4)[OF jb(2)] jitter_ok_latency[OF jb(2)] show ?thesis
    by (auto simp: buffered_packets_def)
qed

end
