(* ===== verification/Sample_Scale.thy ===== *)
theory Sample_Scale
  imports Ieee_Float
begin

text \<open>
  The scale of 16-bit samples, shared by the mixer and the PCM conversion: the samples are exact in
  \<open>f32\<close>, also divided by 32768, and the way back by 32767 moves them by at most one unit.
\<close>

lemma sint_u16_bounds: "- 32768 \<le> sint (w :: u16) \<and> sint w \<le> 32767"
  using sint_greater_eq[of w] sint_less[of w] by simp

lemma sint_u16_abs: "\<bar>sint (w :: u16)\<bar> < 2 ^ 24"
proof -
  have "\<bar>sint w\<bar> \<le> 32768" using sint_u16_bounds[of w] by linarith
  then show ?thesis by simp
qed

lemma representable_sample: "\<bar>k\<bar> < 2 ^ 24 \<Longrightarrow> representable F32 (of_int k / 32768)"
  unfolding representable_def by (rule exI[of _ k], rule exI[of _ "- 15"]) (simp add: pow2_def)

lemma fl_int: "\<bar>k\<bar> < 2 ^ 24 \<Longrightarrow> fl F32 (of_int k) = Fin (of_int k)"
proof (rule fl_exact)
  assume k: "\<bar>k\<bar> < 2 ^ 24"
  then show "representable F32 (of_int k)" by (intro representable_int) simp_all
  have "\<bar>of_int k :: rat\<bar> < 2 ^ 24" using k by (metis of_int_abs of_int_less_iff of_int_numeral of_int_power)
  also have "\<dots> < (2 :: rat) ^ 128" by (rule power_strict_increasing) simp_all
  finally show "\<bar>of_int k\<bar> < pow2 (top_exp F32)" by (simp add: pow2_numeral)
qed

lemma fl_sample:
  assumes "\<bar>k\<bar> < 2 ^ 24"
  shows "fl F32 (of_int k / 32768) = Fin (of_int k / 32768)"
proof (rule fl_exact[OF representable_sample[OF assms]])
  have "\<bar>of_int k :: rat\<bar> < 2 ^ 24" using assms by (metis of_int_abs of_int_less_iff of_int_numeral of_int_power)
  then have "\<bar>of_int k / 32768 :: rat\<bar> < 2 ^ 24" by simp
  also have "\<dots> < (2 :: rat) ^ 128" by (rule power_strict_increasing) simp_all
  finally show "\<bar>of_int k / 32768\<bar> < pow2 (top_exp F32)" by (simp add: pow2_numeral)
qed

lemma sint_of_int_u16:
  assumes "- 32768 \<le> k" "k \<le> 32767"
  shows "sint (of_int k :: u16) = k"
  using assms by (simp add: sint_sbintrunc' signed_take_bit_int_eq_self)

lemma scale_back:
  assumes "- 32768 \<le> k" "k \<le> 32767"
  shows "\<bar>to_int_sat (- 32768) 32767 (fmul F32 (Fin (of_int k / 32768)) (Fin 32767)) - k\<bar> \<le> 1"
proof -
  let ?r = "of_int k / 32768 * 32767 :: rat"
  define lo where "lo = (if 0 \<le> k then k - 1 else k)"
  define hi where "hi = (if 0 \<le> k then k else k + 1)"
  have r: "?r = of_int k - of_int k / 32768" by simp
  have kb: "- 32768 \<le> (of_int k :: rat)" "(of_int k :: rat) \<le> 32767" using assms by linarith+
  have b: "of_int lo \<le> ?r" "?r \<le> of_int hi"
    unfolding r lo_def hi_def using kb by (auto simp: field_simps)
  have lohi: "\<bar>lo\<bar> < 2 ^ 24" "\<bar>hi\<bar> < 2 ^ 24" "- 32768 \<le> lo" "hi \<le> 32767" "\<bar>lo - k\<bar> \<le> 1" "\<bar>hi - k\<bar> \<le> 1"
    using assms by (auto simp: lo_def hi_def)
  have top: "\<bar>of_int j :: rat\<bar> < pow2 (top_exp F32)" if "\<bar>j\<bar> < 2 ^ 24" for j :: int
  proof -
    have "\<bar>of_int j :: rat\<bar> < 2 ^ 24" using that by (metis of_int_abs of_int_less_iff of_int_numeral of_int_power)
    also have "\<dots> < (2 :: rat) ^ 128" by (rule power_strict_increasing) simp_all
    finally show ?thesis by (simp add: pow2_numeral)
  qed
  have rep: "representable F32 (of_int lo)" "representable F32 (of_int hi)"
    using lohi(1,2) by (auto intro!: representable_int)
  note f = fl_between[OF _ rep b top[OF lohi(1)] top[OF lohi(2)]]
  have "lo \<le> to_int_sat (- 32768) 32767 (Fin (rnd F32 ?r)) \<and> to_int_sat (- 32768) 32767 (Fin (rnd F32 ?r)) \<le> hi"
    by (rule to_int_sat_between) (use f lohi in simp_all)
  then have "\<bar>to_int_sat (- 32768) 32767 (Fin (rnd F32 ?r)) - k\<bar> \<le> 1" using lohi(5,6) by linarith
  then show ?thesis using f(1) by (simp only: fmul.simps) simp
qed

text \<open>The error of one operation whose exact result is at most \<open>c\<close> in magnitude.\<close>

lemma fl_near:
  assumes "\<bar>r\<bar> \<le> of_int c" "c < 2 ^ prec fmt" "of_int c \<le> pow2 k" "quantum_exp fmt + int (prec fmt) \<le> k"
    "k < top_exp fmt" "0 < prec fmt" "quantum_exp fmt \<le> 0"
  obtains x where "fl fmt r = Fin x" "\<bar>x - r\<bar> \<le> pow2 (k - int (prec fmt))" "\<bar>x\<bar> \<le> of_int c" "0 \<le> r \<Longrightarrow> 0 \<le> x"
proof -
  have k: "\<bar>r\<bar> \<le> pow2 k" using assms(1,3) by linarith
  obtain x where x: "fl fmt r = Fin x" "\<bar>x - r\<bar> \<le> pow2 (k - int (prec fmt))"
    by (rule fl_error[OF k assms(4-6)])
  have c: "0 \<le> c" using assms(1) by (metis abs_ge_zero of_int_0_le_iff order_trans)
  have rep: "representable fmt (of_int (- c))" "representable fmt (of_int c)"
    using assms(2,7) c by (auto intro!: representable_int simp del: of_int_minus)
  have "of_int (- c) \<le> rnd fmt r \<and> rnd fmt r \<le> of_int c"
    by (rule rnd_between[OF assms(6) rep]) (use assms(1) in \<open>simp_all add: abs_le_iff\<close>)
  moreover have e: "x = rnd fmt r" using x(1) by (auto simp: fl_def Let_def split: if_splits)
  ultimately have "\<bar>x\<bar> \<le> of_int c" by (simp add: abs_le_iff)
  then show thesis using that x e rnd_nonneg by blast
qed

lemma fl32_near:
  assumes "\<bar>r\<bar> \<le> of_int c" "c < 2 ^ 24" "of_int c \<le> pow2 k" "- 125 \<le> k" "k < 128"
  obtains x where "fl F32 r = Fin x" "\<bar>x - r\<bar> \<le> pow2 (k - 24)" "\<bar>x\<bar> \<le> of_int c" "0 \<le> r \<Longrightarrow> 0 \<le> x"
  by (rule fl_near[OF assms(1), of F32 k]) (use assms(2-5) in simp_all)

text \<open>The relative error of one \<open>f64\<close> operation on moderate values.\<close>

lemma fl64_relative:
  assumes "1 / 2 ^ 20 \<le> \<bar>r\<bar>" "\<bar>r\<bar> \<le> 2 ^ 64"
  obtains x where "fl F64 r = Fin x" "\<bar>x - r\<bar> \<le> \<bar>r\<bar> / 2 ^ 53" "0 \<le> r \<Longrightarrow> 0 \<le> x"
proof -
  have "\<bar>r\<bar> \<le> pow2 64" using assms(2) by (simp add: pow2_numeral)
  then obtain x where x: "fl F64 r = Fin x" by (rule fl_error[of r 64 F64]) simp_all
  have e: "x = rnd F64 r" using x by (auto simp: fl_def Let_def split: if_splits)
  have "pow2 (- 1021) \<le> pow2 (- 20)" by (rule pow2_mono) simp
  then have "pow2 (- 1021) \<le> \<bar>r\<bar>" using assms(1) by (simp add: pow2_def[of "- 20"])
  then have "\<bar>rnd F64 r - r\<bar> \<le> \<bar>r\<bar> * pow2 (- 53)" using rnd_relative_error[of F64 r] by simp
  then have "\<bar>x - r\<bar> \<le> \<bar>r\<bar> / 2 ^ 53" by (simp add: e pow2_def)
  then show thesis using that x e rnd_nonneg by blast
qed

lemma fl64_nat:
  assumes "n < 2 ^ 53"
  shows "fl F64 (of_nat n) = Fin (of_nat n)"
proof -
  have n: "int n < 2 ^ 53" using assms by (metis of_nat_less_iff of_nat_numeral of_nat_power)
  have "representable F64 (of_int (int n))"
  proof (rule representable_int)
    show "\<bar>int n\<bar> < 2 ^ prec F64" using n by (simp only: fmt_simps abs_of_nat)
  qed simp
  moreover have "(of_nat n :: rat) < 2 ^ 53" using assms by (metis of_nat_less_iff of_nat_numeral of_nat_power)
  then have "\<bar>of_nat n :: rat\<bar> < pow2 53" by (simp add: pow2_numeral)
  then have "\<bar>of_nat n\<bar> < pow2 (top_exp F64)" using pow2_less[of 53 1024] by (simp only: fmt_simps) linarith
  ultimately show ?thesis by (intro fl_exact) simp_all
qed

end
