(* ===== verification/Mixer.thy ===== *)
theory Mixer
  imports Jitter Audio_Format Utf8 Ieee_Float Sample_Scale
begin

text \<open>
  \<open>src/src/mixer/mod.rs\<close>: the mixer, a bounded set of named streams with a jitter buffer each, and
  the mixing of their frames into the output of the playback callback. The mutex makes every
  operation atomic, so an operation is a function of the state; it is never poisoned because no
  operation panics while holding it. \<open>pull\<close> only tries the lock: \<open>busy\<close> says that another thread
  holds it. Readings of the clock are arguments, in microseconds.
\<close>

record stream =
  ms_id :: rstring
  ms_name :: rstring
  ms_gain :: flt
  ms_last_seen :: nat
  ms_buffer :: jitter_buffer

record mixer =
  mx_format :: audio_format
  mx_streams :: "stream list"
  mx_master_gain :: flt
  mx_scratch :: "flt list"
  mx_frame_buf :: "byte list"
  mx_default_target :: nat
  mx_callbacks :: nat
  mx_last_callback_ms :: nat

definition mixer_new :: "audio_format \<Rightarrow> mixer" where
  "mixer_new fmt =
     (let packet_frames = max (unat (frame_samples fmt)) 1
      in \<lparr>mx_format = fmt, mx_streams = [], mx_master_gain = Fin 1,
          mx_scratch = replicate (4096 * unat (channels fmt)) (Fin 0),
          mx_frame_buf = replicate (4096 * bytes_per_frame fmt) 0,
          mx_default_target = (if 240 \<le> packet_frames then 4 else 1),
          mx_callbacks = 0, mx_last_callback_ms = 0\<rparr>)"

definition set_master_gain :: "mixer \<Rightarrow> flt \<Rightarrow> mixer" where
  "set_master_gain mx gain =
     (if \<not> is_finite gain then mx
      else mx\<lparr>mx_master_gain := flt_clamp (Fin 0) (Fin 2) gain\<rparr>)"

text \<open>\<open>iter_mut().find(|s| s.id == id)\<close>: the first stream of that name is updated.\<close>

fun update_stream :: "rstring \<Rightarrow> (stream \<Rightarrow> stream) \<Rightarrow> stream list \<Rightarrow> stream list" where
  "update_stream i f [] = []"
| "update_stream i f (s # ss) = (if ms_id s = i then f s # ss else s # update_stream i f ss)"

definition find_stream :: "rstring \<Rightarrow> stream list \<Rightarrow> stream option" where
  "find_stream i ss = find (\<lambda>s. ms_id s = i) ss"

datatype mixer_error = MaxStreamsReached

definition ensure_stream :: "mixer \<Rightarrow> rstring \<Rightarrow> rstring \<Rightarrow> nat \<Rightarrow> mixer \<times> (mixer_error + unit)" where
  "ensure_stream mx i name now =
     (if find_stream i (mx_streams mx) \<noteq> None
      then (mx\<lparr>mx_streams := update_stream i (\<lambda>s. s\<lparr>ms_name := name, ms_last_seen := now\<rparr>) (mx_streams mx)\<rparr>,
            Inr ())
      else if MAX_STREAMS \<le> length (mx_streams mx) then (mx, Inl MaxStreamsReached)
      else
        (let bpf = max (bytes_per_frame (mx_format mx)) 1;
             frames = max (unat (frame_samples (mx_format mx))) 1;
             buffer = set_target_packets (jitter_new bpf frames) (mx_default_target mx)
         in (mx\<lparr>mx_streams := mx_streams mx @ [\<lparr>ms_id = i, ms_name = name, ms_gain = Fin 1,
                  ms_last_seen = now, ms_buffer = buffer\<rparr>]\<rparr>, Inr ())))"

definition remove_stream :: "mixer \<Rightarrow> rstring \<Rightarrow> mixer" where
  "remove_stream mx i = mx\<lparr>mx_streams := filter (\<lambda>s. ms_id s \<noteq> i) (mx_streams mx)\<rparr>"

definition touch :: "mixer \<Rightarrow> rstring \<Rightarrow> nat \<Rightarrow> mixer" where
  "touch mx i now = mx\<lparr>mx_streams := update_stream i (\<lambda>s. s\<lparr>ms_last_seen := now\<rparr>) (mx_streams mx)\<rparr>"

definition stream_ids :: "mixer \<Rightarrow> rstring list" where
  "stream_ids mx = map ms_id (mx_streams mx)"

definition set_stream_gain :: "mixer \<Rightarrow> rstring \<Rightarrow> flt \<Rightarrow> bool \<times> mixer" where
  "set_stream_gain mx i gain =
     (if \<not> is_finite gain then (False, mx)
      else (find_stream i (mx_streams mx) \<noteq> None,
            mx\<lparr>mx_streams := update_stream i (\<lambda>s. s\<lparr>ms_gain := flt_clamp (Fin 0) (Fin 2) gain\<rparr>) (mx_streams mx)\<rparr>))"

definition set_stream_target_ms :: "mixer \<Rightarrow> rstring \<Rightarrow> nat \<Rightarrow> bool \<times> mixer" where
  "set_stream_target_ms mx i ms =
     (find_stream i (mx_streams mx) \<noteq> None,
      mx\<lparr>mx_streams := update_stream i (\<lambda>s. s\<lparr>ms_buffer := set_target_ms (ms_buffer s) ms\<rparr>) (mx_streams mx)\<rparr>)"

definition mixer_set_target_packets :: "mixer \<Rightarrow> nat \<Rightarrow> mixer" where
  "mixer_set_target_packets mx packets =
     mx\<lparr>mx_default_target := clamp 1 MAX_SLOTS packets,
        mx_streams := map (\<lambda>s. s\<lparr>ms_buffer := set_target_packets (ms_buffer s) packets\<rparr>) (mx_streams mx)\<rparr>"

definition push_packet :: "mixer \<Rightarrow> rstring \<Rightarrow> nat \<Rightarrow> byte list \<Rightarrow> nat \<Rightarrow> nat \<Rightarrow> bool \<times> mixer" where
  "push_packet mx i sq pcm now arrived =
     (case find_stream i (mx_streams mx) of
        None \<Rightarrow> (False, mx)
      | Some s \<Rightarrow>
          (fst (push (ms_buffer s) sq pcm arrived),
           mx\<lparr>mx_streams := update_stream i
              (\<lambda>s. s\<lparr>ms_last_seen := now, ms_buffer := snd (push (ms_buffer s) sq pcm arrived)\<rparr>) (mx_streams mx)\<rparr>))"

definition expire_idle :: "mixer \<Rightarrow> nat \<Rightarrow> nat \<Rightarrow> mixer \<times> rstring list" where
  "expire_idle mx max_idle now =
     (let keep = (\<lambda>s. now - ms_last_seen s < max_idle)
      in (mx\<lparr>mx_streams := filter keep (mx_streams mx)\<rparr>,
          map ms_id (filter (\<lambda>s. \<not> keep s) (mx_streams mx))))"

record stream_stat =
  st_id :: rstring
  st_name :: rstring
  st_packets :: nat
  st_lost :: nat
  st_underruns :: nat
  st_starvations :: nat
  st_buffer_ms :: nat
  st_buffered_packets :: nat
  st_queued_ms :: flt
  st_residence_us :: nat

definition stream_stats :: "mixer \<Rightarrow> stream_stat list" where
  "stream_stats mx = map (\<lambda>s.
     \<lparr>st_id = ms_id s, st_name = ms_name s, st_packets = jb_arrived (ms_buffer s),
      st_lost = jb_losses (ms_buffer s), st_underruns = jb_underruns (ms_buffer s),
      st_starvations = jb_starvations (ms_buffer s), st_buffer_ms = target_ms (ms_buffer s),
      st_buffered_packets = buffered_packets (ms_buffer s),
      st_queued_ms = fdiv F64 (fmul F64 (fl F64 (of_nat (queued_frames (ms_buffer s)))) (Fin 1000))
        (fl F64 (of_nat (unat (sample_rate (mx_format mx))))),
      st_residence_us = jb_residence_us (ms_buffer s)\<rparr>) (mx_streams mx)"

section \<open>Mixing\<close>

definition sample_f32 :: "byte list \<Rightarrow> nat \<Rightarrow> flt" where
  "sample_f32 buf b = fdiv F32 (fl F32 (of_int (sint (i16_from_le (buf ! b) (buf ! (b + 1)))))) (Fin 32768)"

text \<open>The channel loop of one frame, with its \<open>break\<close>, and the frame loop of one stream.\<close>

fun mix_channels :: "byte list \<Rightarrow> flt \<Rightarrow> nat \<Rightarrow> nat \<Rightarrow> nat list \<Rightarrow> flt list \<Rightarrow> flt list" where
  "mix_channels buf gain chans frame [] scratch = scratch"
| "mix_channels buf gain chans frame (ch # chs) scratch =
     (let b = (frame * chans + ch) * 2
      in if length buf \<le> b + 1 then scratch
         else
           (let i = frame * chans + ch
            in mix_channels buf gain chans frame chs
                 (scratch[i := fadd F32 (scratch ! i) (fmul F32 (sample_f32 buf b) gain)])))"

definition mix_frames :: "byte list \<Rightarrow> flt \<Rightarrow> nat \<Rightarrow> nat \<Rightarrow> flt list \<Rightarrow> flt list" where
  "mix_frames buf gain chans n scratch =
     fold (\<lambda>frame. mix_channels buf gain chans frame [0..<chans]) [0..<n] scratch"

text \<open>The loop over the streams; each clock reading is that of its stream's \<open>pull\<close>.\<close>

fun mix_streams :: "(nat \<Rightarrow> nat) \<Rightarrow> nat \<Rightarrow> nat \<Rightarrow> nat \<Rightarrow> stream list \<Rightarrow> byte list \<Rightarrow> flt list
    \<Rightarrow> (stream list \<times> byte list \<times> flt list) option" where
  "mix_streams clk chans nbytes frames [] buf scratch = Some ([], buf, scratch)"
| "mix_streams clk chans nbytes frames (s # ss) buf scratch =
     (case pull clk (ms_buffer s) (take nbytes buf) frames of
        None \<Rightarrow> None
      | Some (got, jb, dst) \<Rightarrow>
          (let buf = dst @ drop nbytes buf;
               scratch = (if got = 0 then scratch
                          else mix_frames buf (ms_gain s) chans (min got frames) scratch)
           in case mix_streams clk chans nbytes frames ss buf scratch of
                None \<Rightarrow> None
              | Some (ss', buf', scratch') \<Rightarrow> Some (s\<lparr>ms_buffer := jb\<rparr> # ss', buf', scratch')))"

definition mixed_sample :: "flt \<Rightarrow> flt \<Rightarrow> u16" where
  "mixed_sample x master =
     of_int (to_int_sat (- 32768) 32767
       (fmul F32 (flt_clamp (Fin (- 1)) (Fin 1) (fmul F32 x master)) (Fin 32767)))"

text \<open>The output loop, with its \<open>break\<close>.\<close>

fun write_samples :: "flt list \<Rightarrow> flt \<Rightarrow> nat list \<Rightarrow> byte list \<Rightarrow> byte list" where
  "write_samples scratch master [] out = out"
| "write_samples scratch master (i # is) out =
     (if length out \<le> i * 2 + 1 then out
      else write_samples scratch master is
             (copy_at (i * 2) (i16_le (mixed_sample (scratch ! i) master)) out))"

definition resize :: "nat \<Rightarrow> 'a \<Rightarrow> 'a list \<Rightarrow> 'a list" where
  "resize n x xs = (if length xs < n then xs @ replicate (n - length xs) x else xs)"

definition mixer_pull :: "(nat \<Rightarrow> nat) \<Rightarrow> bool \<Rightarrow> nat \<Rightarrow> mixer \<Rightarrow> byte list \<Rightarrow> nat \<Rightarrow> (mixer \<times> byte list) option" where
  "mixer_pull clk busy now_ms mx out frame_count =
     (let bpf = bytes_per_frame (mx_format mx); chans = unat (channels (mx_format mx))
      in if bpf = 0 \<or> chans = 0 \<or> frame_count = 0 \<or> length out < bpf then Some (mx, out)
         else
           (let asked = min frame_count (length out div bpf);
                out = replicate (asked * bpf) 0 @ drop (asked * bpf) out;
                frames = min asked 4096
            in if busy then Some (mx, out)
               else
                 (let samples = frames * chans; nbytes = frames * bpf;
                      scratch = resize samples (Fin 0) (mx_scratch mx);
                      scratch = replicate samples (Fin 0) @ drop samples scratch;
                      buf = resize nbytes 0 (mx_frame_buf mx)
                  in case mix_streams clk chans nbytes frames (mx_streams mx) buf scratch of
                       None \<Rightarrow> None
                     | Some (ss, buf, scratch) \<Rightarrow>
                         Some (mx\<lparr>mx_streams := ss, mx_scratch := scratch, mx_frame_buf := buf,
                                  mx_callbacks := mx_callbacks mx + 1, mx_last_callback_ms := now_ms\<rparr>,
                               write_samples scratch (mx_master_gain mx) [0..<frames * chans] out))))"

section \<open>Invariant\<close>

definition gain_ok :: "flt \<Rightarrow> bool" where
  "gain_ok g \<longleftrightarrow> (\<exists>r. g = Fin r \<and> 0 \<le> r \<and> r \<le> 2)"

definition stream_ok :: "audio_format \<Rightarrow> stream \<Rightarrow> bool" where
  "stream_ok fmt s \<longleftrightarrow> jitter_ok (ms_buffer s) \<and> gain_ok (ms_gain s)
     \<and> jb_bpf (ms_buffer s) = max (bytes_per_frame fmt) 1
     \<and> jb_frames (ms_buffer s) = max (unat (frame_samples fmt)) 1"

definition mixer_ok :: "mixer \<Rightarrow> bool" where
  "mixer_ok mx \<longleftrightarrow> list_all (stream_ok (mx_format mx)) (mx_streams mx)
     \<and> distinct (stream_ids mx) \<and> length (mx_streams mx) \<le> MAX_STREAMS \<and> gain_ok (mx_master_gain mx)"

lemma gain_ok_clamp: "is_finite g \<Longrightarrow> gain_ok (flt_clamp (Fin 0) (Fin 2) g)"
  using clamp_finite[of g 0 2] by (cases g) (auto simp: gain_ok_def)

lemma update_stream_ids:
  "(\<And>s. ms_id (f s) = ms_id s) \<Longrightarrow> map ms_id (update_stream i f ss) = map ms_id ss"
  by (induction ss) auto

lemma update_stream_all:
  "(\<And>s. P s \<Longrightarrow> P (f s)) \<Longrightarrow> list_all P ss \<Longrightarrow> list_all P (update_stream i f ss)"
  by (induction ss) auto

lemma length_update_stream [simp]: "length (update_stream i f ss) = length ss"
  by (induction ss) auto

lemma mixer_ok_update:
  assumes "mixer_ok mx" "\<And>s. ms_id (f s) = ms_id s" "\<And>s. stream_ok (mx_format mx) s \<Longrightarrow> stream_ok (mx_format mx) (f s)"
  shows "mixer_ok (mx\<lparr>mx_streams := update_stream i f (mx_streams mx)\<rparr>)"
  using assms update_stream_all[of "stream_ok (mx_format mx)" f]
  by (simp add: mixer_ok_def stream_ids_def update_stream_ids)

lemma mixer_ok_filter:
  "mixer_ok mx \<Longrightarrow> mixer_ok (mx\<lparr>mx_streams := filter P (mx_streams mx)\<rparr>)"
  by (auto simp: mixer_ok_def stream_ids_def list_all_iff distinct_map_filter intro: le_trans[OF length_filter_le])

text \<open>The sizes of a jitter buffer never change.\<close>

lemma set_target_sizes [simp]:
  "jb_bpf (set_target_packets jb n) = jb_bpf jb" "jb_frames (set_target_packets jb n) = jb_frames jb"
  by (simp_all add: set_target_packets_def Let_def)

lemma set_target_ms_sizes [simp]:
  "jb_bpf (set_target_ms jb n) = jb_bpf jb" "jb_frames (set_target_ms jb n) = jb_frames jb"
  by (simp_all add: set_target_ms_def)

lemma evict_sizes: "jb_bpf (evict_loop jb) = jb_bpf jb \<and> jb_frames (evict_loop jb) = jb_frames jb"
proof (induction jb rule: evict_loop.induct)
  case (1 jb)
  show ?case
  proof (cases "MAX_SLOTS < length (jb_slots jb)")
    case False
    show ?thesis unfolding evict_loop.simps[of jb] if_not_P[OF False] by simp
  next
    case True
    show ?thesis
    proof (cases "bt_first (jb_slots jb)")
      case None
      show ?thesis unfolding evict_loop.simps[of jb] if_P[OF True] None option.case by simp
    next
      case (Some first)
      show ?thesis unfolding evict_loop.simps[of jb] if_P[OF True] Some option.case Let_def
        using 1[OF True Some refl refl] by simp
    qed
  qed
qed

lemma push_sizes:
  "jb_bpf (snd (push jb sq pcm now)) = jb_bpf jb" "jb_frames (snd (push jb sq pcm now)) = jb_frames jb"
  using evict_sizes
  by (simp_all add: push_unfold store_def restart_if_starved_def flush_if_jump_def Let_def split: option.split)

lemma jitter_new_sizes: "jb_bpf (jitter_new b f) = max b 1" "jb_frames (jitter_new b f) = max f 1"
  by (simp_all add: jitter_new_def Let_def)

lemma stream_ok_push:
  "stream_ok fmt s \<Longrightarrow> sq \<le> u64_max \<Longrightarrow>
    stream_ok fmt (s\<lparr>ms_last_seen := now, ms_buffer := snd (push (ms_buffer s) sq pcm arr)\<rparr>)"
  by (simp add: stream_ok_def push_ok push_sizes)

lemma stream_ok_targets:
  "stream_ok fmt s \<Longrightarrow> stream_ok fmt (s\<lparr>ms_buffer := set_target_ms (ms_buffer s) ms\<rparr>)"
  "stream_ok fmt s \<Longrightarrow> stream_ok fmt (s\<lparr>ms_buffer := set_target_packets (ms_buffer s) n\<rparr>)"
  by (simp_all add: stream_ok_def set_target_ms_ok set_target_ok)

lemma find_stream_None: "find_stream i ss = None \<longleftrightarrow> i \<notin> set (map ms_id ss)"
  by (auto simp: find_stream_def find_None_iff)

lemma mixer_new_ok: "mixer_ok (mixer_new fmt)"
  by (simp add: mixer_ok_def mixer_new_def stream_ids_def gain_ok_def MAX_STREAMS_def Let_def)

lemma ensure_stream_ok:
  assumes "mixer_ok mx"
  shows "mixer_ok (fst (ensure_stream mx i name now))"
proof -
  have "stream_ok (mx_format mx) (s\<lparr>ms_name := name, ms_last_seen := now\<rparr>)"
    if "stream_ok (mx_format mx) s" for s
    using that by (simp add: stream_ok_def)
  then have upd: "mixer_ok (mx\<lparr>mx_streams := update_stream i (\<lambda>s. s\<lparr>ms_name := name, ms_last_seen := now\<rparr>) (mx_streams mx)\<rparr>)"
    by (intro mixer_ok_update assms) simp_all
  let ?b = "set_target_packets (jitter_new (max (bytes_per_frame (mx_format mx)) 1)
      (max (unat (frame_samples (mx_format mx))) 1)) (mx_default_target mx)"
  let ?s = "\<lparr>ms_id = i, ms_name = name, ms_gain = Fin 1, ms_last_seen = now, ms_buffer = ?b\<rparr>"
  have new: "stream_ok (mx_format mx) ?s"
    by (simp add: stream_ok_def set_target_ok jitter_new_ok jitter_new_sizes gain_ok_def)
  have "mixer_ok (mx\<lparr>mx_streams := mx_streams mx @ [?s]\<rparr>)"
    if "find_stream i (mx_streams mx) = None" "length (mx_streams mx) < MAX_STREAMS"
    using assms that new by (auto simp: mixer_ok_def stream_ids_def find_stream_None)
  with upd assms show ?thesis by (simp add: ensure_stream_def Let_def)
qed

lemma push_packet_ok:
  assumes "mixer_ok mx" "sq \<le> u64_max"
  shows "mixer_ok (snd (push_packet mx i sq pcm now arr))"
proof -
  let ?f = "\<lambda>s. s\<lparr>ms_last_seen := now, ms_buffer := snd (push (ms_buffer s) sq pcm arr)\<rparr>"
  have "mixer_ok (mx\<lparr>mx_streams := update_stream i ?f (mx_streams mx)\<rparr>)"
    by (rule mixer_ok_update[OF assms(1)]) (simp_all add: stream_ok_push assms(2))
  then show ?thesis using assms(1) by (simp add: push_packet_def split: option.split)
qed

lemma mixer_ops_ok:
  assumes "mixer_ok mx"
  shows "mixer_ok (set_master_gain mx g)" "mixer_ok (remove_stream mx i)" "mixer_ok (touch mx i now)"
    "mixer_ok (snd (set_stream_gain mx i g))" "mixer_ok (snd (set_stream_target_ms mx i ms))"
    "mixer_ok (mixer_set_target_packets mx n)" "mixer_ok (fst (expire_idle mx idle now))"
proof -
  show "mixer_ok (set_master_gain mx g)"
    using assms by (simp add: set_master_gain_def mixer_ok_def stream_ids_def gain_ok_clamp)
  show "mixer_ok (remove_stream mx i)" using assms by (simp add: remove_stream_def mixer_ok_filter)
  show "mixer_ok (touch mx i now)"
    unfolding touch_def by (rule mixer_ok_update[OF assms]) (simp_all add: stream_ok_def)
  have "mixer_ok (mx\<lparr>mx_streams := update_stream i (\<lambda>s. s\<lparr>ms_gain := flt_clamp (Fin 0) (Fin 2) g\<rparr>) (mx_streams mx)\<rparr>)"
    if "is_finite g"
    by (rule mixer_ok_update[OF assms]) (simp_all add: stream_ok_def gain_ok_clamp that)
  then show "mixer_ok (snd (set_stream_gain mx i g))" using assms by (simp add: set_stream_gain_def)
  show "mixer_ok (snd (set_stream_target_ms mx i ms))"
    unfolding set_stream_target_ms_def snd_conv
    by (rule mixer_ok_update[OF assms]) (simp_all add: stream_ok_targets)
  show "mixer_ok (mixer_set_target_packets mx n)"
    using assms by (auto simp: mixer_set_target_packets_def mixer_ok_def stream_ids_def list_all_iff
        comp_def stream_ok_targets)
  show "mixer_ok (fst (expire_idle mx idle now))"
    using assms by (simp add: expire_idle_def Let_def mixer_ok_filter)
qed

section \<open>What a pull writes\<close>

text \<open>The PCM bytes a stream contributes to \<open>n\<close> frames, and the mix of the streams' samples.\<close>

definition stream_pcm :: "stream \<Rightarrow> nat \<Rightarrow> byte list" where
  "stream_pcm s n =
     (if jb_primed (ms_buffer s) then concat (map (stream_frame (ms_buffer s)) [0..<n])
      else replicate (n * jb_bpf (ms_buffer s)) 0)"

definition mix_value :: "nat \<Rightarrow> stream list \<Rightarrow> nat \<Rightarrow> flt" where
  "mix_value n ss i =
     foldl (\<lambda>acc s. fadd F32 acc (fmul F32 (sample_f32 (stream_pcm s n) (2 * i)) (ms_gain s))) (Fin 0) ss"

lemma mix_channels_spec:
  assumes "(frame + 1) * chans * 2 \<le> length buf" "(frame + 1) * chans \<le> length scratch" "a \<le> chans"
  shows "length (mix_channels buf gain chans frame [a..<chans] scratch) = length scratch
    \<and> (\<forall>i < length scratch. mix_channels buf gain chans frame [a..<chans] scratch ! i =
        (if frame * chans + a \<le> i \<and> i < (frame + 1) * chans
         then fadd F32 (scratch ! i) (fmul F32 (sample_f32 buf (2 * i)) gain) else scratch ! i))"
  using assms
proof (induction "chans - a" arbitrary: a scratch)
  case 0
  then have a: "a = chans" by simp
  show ?case unfolding a by auto
next
  case (Suc n)
  then have lt: "a < chans" by simp
  let ?i = "frame * chans + a"
  have i: "?i < (frame + 1) * chans" using lt by simp
  then have inb: "?i < length scratch" using Suc.prems(2) by (rule less_le_trans)
  have "?i * 2 + 2 \<le> (frame + 1) * chans * 2" using mult_le_mono1[OF Suc_leI[OF i], of 2] by simp
  then have buf: "\<not> length buf \<le> ?i * 2 + 1" using Suc.prems(1) by linarith
  let ?s = "scratch[?i := fadd F32 (scratch ! ?i) (fmul F32 (sample_f32 buf (?i * 2)) gain)]"
  have step: "mix_channels buf gain chans frame [a..<chans] scratch
      = mix_channels buf gain chans frame [Suc a..<chans] ?s"
    unfolding upt_conv_Cons[OF lt] mix_channels.simps Let_def if_not_P[OF buf] by (rule refl)
  have "n = chans - Suc a" "(frame + 1) * chans \<le> length ?s" "Suc a \<le> chans"
    using Suc.hyps(2) Suc.prems(2) lt by simp_all
  note IH = Suc.hyps(1)[OF this(1) Suc.prems(1) this(2,3)]
  have "frame * chans + a \<le> k \<longleftrightarrow> k = ?i \<or> frame * chans + Suc a \<le> k" for k by linarith
  then show ?case unfolding step using IH inb i
    by (auto simp: nth_list_update mult.commute[of _ 2])
qed

lemma mix_frames_spec:
  assumes "n * chans * 2 \<le> length buf" "n * chans \<le> length scratch"
  shows "length (mix_frames buf gain chans n scratch) = length scratch
    \<and> (\<forall>i < length scratch. mix_frames buf gain chans n scratch ! i =
        (if i < n * chans then fadd F32 (scratch ! i) (fmul F32 (sample_f32 buf (2 * i)) gain)
         else scratch ! i))"
  using assms
proof (induction n)
  case 0
  then show ?case by (simp add: mix_frames_def)
next
  case (Suc n)
  let ?m = "mix_frames buf gain chans n scratch"
  have IH: "length ?m = length scratch" "\<forall>i < length scratch. ?m ! i =
      (if i < n * chans then fadd F32 (scratch ! i) (fmul F32 (sample_f32 buf (2 * i)) gain) else scratch ! i)"
    using Suc by simp_all
  have step: "mix_frames buf gain chans (Suc n) scratch = mix_channels buf gain chans n [0..<chans] ?m"
    by (simp add: mix_frames_def)
  have "(n + 1) * chans * 2 \<le> length buf" "(n + 1) * chans \<le> length ?m" using Suc.prems IH(1) by simp_all
  note c = mix_channels_spec[OF this le0, of gain]
  have "n * chans + 0 \<le> i \<and> i < (n + 1) * chans \<longleftrightarrow> \<not> i < n * chans \<and> i < Suc n * chans" for i by auto
  with c IH show ?case unfolding step by (auto simp: not_less)
qed

text \<open>The output loop writes the samples one after another and leaves the rest alone.\<close>

lemma write_samples_step:
  assumes "a < n" "2 * n \<le> length out"
  shows "write_samples scratch master [a..<n] out
    = write_samples scratch master [Suc a..<n] (copy_at (2 * a) (i16_le (mixed_sample (scratch ! a) master)) out)"
proof -
  have "\<not> length out \<le> a * 2 + 1" using assms by linarith
  then show ?thesis
    unfolding upt_conv_Cons[OF assms(1)] write_samples.simps if_not_P[OF \<open>\<not> length out \<le> a * 2 + 1\<close>]
    by (simp add: mult.commute)
qed

lemma write_samples_spec:
  assumes "a \<le> n" "2 * n \<le> length out"
  shows "write_samples scratch master [a..<n] out
    = take (2 * a) out @ concat (map (\<lambda>i. i16_le (mixed_sample (scratch ! i) master)) [a..<n]) @ drop (2 * n) out"
  using assms
proof (induction "n - a" arbitrary: a out)
  case 0
  then have "a = n" by simp
  then show ?case by simp
next
  case (Suc k)
  then have lt: "a < n" by simp
  let ?w = "i16_le (mixed_sample (scratch ! a) master)"
  let ?out = "copy_at (2 * a) ?w out"
  have len: "length ?out = length out" using lt Suc.prems(2) by simp
  have "2 * a + 2 + (2 * n - (2 * a + 2)) = 2 * n" using lt by simp
  then have split: "take (2 * Suc a) ?out = take (2 * a) out @ ?w" "drop (2 * n) ?out = drop (2 * n) out"
    using lt Suc.prems(2) by (simp_all add: copy_at_def del: drop_drop) (simp add: drop_drop)
  have "k = n - Suc a" "Suc a \<le> n" "2 * n \<le> length ?out" using Suc.hyps(2) lt len Suc.prems(2) by simp_all
  note IH = Suc.hyps(1)[OF this]
  have "concat (map (\<lambda>i. i16_le (mixed_sample (scratch ! i) master)) [a..<n])
      = ?w @ concat (map (\<lambda>i. i16_le (mixed_sample (scratch ! i) master)) [Suc a..<n])"
    by (simp add: upt_conv_Cons[OF lt])
  with IH show ?case by (simp only: write_samples_step[OF lt Suc.prems(2)] split append.assoc)
qed

text \<open>The loop over the streams returns, keeps the streams and adds each one's samples.\<close>

lemma stream_pcm_pull:
  assumes ok: "jitter_ok (ms_buffer s)" and bpf: "jb_bpf (ms_buffer s) = bpf" and len: "n * bpf \<le> length buf"
  shows "\<exists>jb. pull clk (ms_buffer s) (take (n * bpf) buf) n = Some (n, jb, stream_pcm s n)
    \<and> jitter_ok jb \<and> jb_bpf jb = bpf \<and> jb_frames jb = jb_frames (ms_buffer s) \<and> continues (ms_buffer s) n jb"
proof -
  have pos: "0 < bpf" using basicD(1)[OF jitter_okD(1)[OF ok]] bpf by simp
  have "n = min n (length (take (n * bpf) buf) div jb_bpf (ms_buffer s))" using len pos bpf by simp
  from pull_plays[OF ok this, of clk] obtain jb where
    "pull clk (ms_buffer s) (take (n * bpf) buf) n = Some (n, jb, stream_pcm s n @ drop (n * bpf) (take (n * bpf) buf))"
    "if jb_primed (ms_buffer s) then pulled (ms_buffer s) jb (missing_frames (ms_buffer s) n) else jb = ms_buffer s"
    "continues (ms_buffer s) n jb"
    using bpf by (auto simp: stream_pcm_def split: if_splits)
  then show ?thesis using ok bpf by (auto simp: pulled_def split: if_splits)
qed

lemma length_stream_frame:
  assumes "jitter_ok jb"
  shows "length (stream_frame jb i) = jb_bpf jb"
proof (cases "stream_packet jb i")
  case None
  then show ?thesis by (simp add: stream_frame_def)
next
  case (Some pk)
  note b = basicD[OF jitter_okD(1)[OF assms]]
  let ?f = "(jb_off jb + i) mod jb_frames jb"
  have "?f + 1 \<le> jb_frames jb" using b(2) by (simp add: Suc_leI)
  then have "(?f + 1) * jb_bpf jb \<le> jb_frames jb * jb_bpf jb" by (rule mult_le_mono1)
  moreover have "length (jp_pcm pk) = jb_bytes jb"
    using Some b(9) by (auto simp: stream_packet_def split: option.splits if_splits)
  ultimately have "(?f + 1) * jb_bpf jb \<le> length (jp_pcm pk)" using b(3) by (simp add: mult.commute)
  then show ?thesis by (simp add: stream_frame_def Some Let_def algebra_simps)
qed

lemma length_stream_pcm:
  assumes "jitter_ok (ms_buffer s)"
  shows "length (stream_pcm s n) = n * jb_bpf (ms_buffer s)"
proof -
  have "length (concat (map (stream_frame (ms_buffer s)) [0..<n])) = n * jb_bpf (ms_buffer s)"
    by (induction n) (simp_all add: length_stream_frame[OF assms])
  then show ?thesis by (simp add: stream_pcm_def)
qed

lemma sample_f32_append: "i + 1 < length xs \<Longrightarrow> sample_f32 (xs @ ys) i = sample_f32 xs i"
  by (simp add: sample_f32_def nth_append)

text \<open>After a pull of \<open>n\<close> frames every stream has its gain and goes on where these frames end.\<close>

definition streams_continue :: "nat \<Rightarrow> stream list \<Rightarrow> stream list \<Rightarrow> bool" where
  "streams_continue n =
     list_all2 (\<lambda>s s'. ms_gain s' = ms_gain s \<and> continues (ms_buffer s) n (ms_buffer s'))"

lemma mix_streams_spec:
  assumes "list_all (stream_ok fmt) ss" "bytes_per_frame fmt = 2 * chans" "0 < chans" "0 < n"
    "n * (2 * chans) \<le> length buf" "n * chans \<le> length scratch"
  shows "\<exists>ss' buf' scratch'. mix_streams clk chans (n * (2 * chans)) n ss buf scratch = Some (ss', buf', scratch')
    \<and> list_all (stream_ok fmt) ss' \<and> map ms_id ss' = map ms_id ss \<and> length scratch' = length scratch
    \<and> streams_continue n ss ss'
    \<and> (\<forall>i < n * chans. scratch' ! i = foldl (\<lambda>acc s. fadd F32 acc
          (fmul F32 (sample_f32 (stream_pcm s n) (2 * i)) (ms_gain s))) (scratch ! i) ss)"
  using assms(1,5,6)
proof (induction ss arbitrary: buf scratch)
  case Nil
  then show ?case by (simp add: streams_continue_def)
next
  case (Cons s ss)
  have s: "stream_ok fmt s" and ss: "list_all (stream_ok fmt) ss" using Cons.prems(1) by simp_all
  have ok: "jitter_ok (ms_buffer s)" and bpf: "jb_bpf (ms_buffer s) = 2 * chans"
    using s assms(2,3) by (simp_all add: stream_ok_def)
  obtain jb where run: "pull clk (ms_buffer s) (take (n * (2 * chans)) buf) n = Some (n, jb, stream_pcm s n)"
    and jb: "jitter_ok jb" "jb_bpf jb = 2 * chans" "jb_frames jb = jb_frames (ms_buffer s)"
      "continues (ms_buffer s) n jb"
    using stream_pcm_pull[OF ok bpf Cons.prems(2), of clk] by blast
  let ?buf = "stream_pcm s n @ drop (n * (2 * chans)) buf"
  let ?scr = "mix_frames ?buf (ms_gain s) chans n scratch"
  have plen: "length (stream_pcm s n) = n * (2 * chans)" using length_stream_pcm[OF ok] bpf by simp
  have blen: "n * (2 * chans) \<le> length ?buf" "n * chans * 2 \<le> length ?buf" using plen by simp_all
  note fr = mix_frames_spec[OF blen(2) Cons.prems(3), of "ms_gain s"]
  have "n * chans \<le> length ?scr" using fr Cons.prems(3) by simp
  from Cons.IH[OF ss blen(1) this] obtain ss' buf' scratch' where
    rec: "mix_streams clk chans (n * (2 * chans)) n ss ?buf ?scr = Some (ss', buf', scratch')"
    and ss': "list_all (stream_ok fmt) ss'" "map ms_id ss' = map ms_id ss" "length scratch' = length ?scr"
      "streams_continue n ss ss'"
    and val: "\<forall>i < n * chans. scratch' ! i = foldl (\<lambda>acc s. fadd F32 acc
          (fmul F32 (sample_f32 (stream_pcm s n) (2 * i)) (ms_gain s))) (?scr ! i) ss" by blast
  have at: "?scr ! i = fadd F32 (scratch ! i) (fmul F32 (sample_f32 (stream_pcm s n) (2 * i)) (ms_gain s))"
    if i: "i < n * chans" for i
  proof -
    have "2 * i + 1 < length (stream_pcm s n)" using i plen by simp
    then show ?thesis using fr i Cons.prems(3) by (simp add: sample_f32_append)
  qed
  have "mix_streams clk chans (n * (2 * chans)) n (s # ss) buf scratch
      = Some (s\<lparr>ms_buffer := jb\<rparr> # ss', buf', scratch')"
    using assms(4) by (simp add: run rec Let_def)
  moreover have "stream_ok fmt (s\<lparr>ms_buffer := jb\<rparr>)"
    using s jb assms(2,3) by (simp add: stream_ok_def)
  ultimately show ?case using ss' val at fr jb(4) by (simp add: streams_continue_def)
qed

lemma mixer_pull_spec:
  assumes "mixer_ok mx" "0 < unat (channels (mx_format mx))" "0 < count" "bytes_per_frame (mx_format mx) \<le> length out"
  shows "\<exists>asked n mx' out'. mixer_pull clk False now mx out count = Some (mx', out')
    \<and> asked = min count (length out div bytes_per_frame (mx_format mx)) \<and> n = min asked 4096
    \<and> out' = concat (map (\<lambda>i. i16_le (mixed_sample (mix_value n (mx_streams mx) i) (mx_master_gain mx)))
                 [0..<n * unat (channels (mx_format mx))])
        @ replicate ((asked - n) * bytes_per_frame (mx_format mx)) 0
        @ drop (asked * bytes_per_frame (mx_format mx)) out
    \<and> mixer_ok mx' \<and> stream_ids mx' = stream_ids mx \<and> mx_format mx' = mx_format mx
    \<and> streams_continue n (mx_streams mx) (mx_streams mx') \<and> mx_master_gain mx' = mx_master_gain mx"
proof -
  let ?bpf = "bytes_per_frame (mx_format mx)" and ?ch = "unat (channels (mx_format mx))"
  define asked where "asked = min count (length out div ?bpf)"
  define n where "n = min asked 4096"
  have bpf: "?bpf = 2 * ?ch" by (simp add: bytes_per_frame_def)
  have guard: "\<not> (?bpf = 0 \<or> ?ch = 0 \<or> count = 0 \<or> length out < ?bpf)" using assms bpf by simp
  have "0 < length out div ?bpf" using assms(2,4) bpf by (simp add: div_greater_zero_iff)
  then have npos: "0 < n" using assms(3) by (simp add: n_def asked_def)
  have na: "n \<le> asked" by (simp add: n_def)
  let ?scr = "replicate (n * ?ch) (Fin 0) @ drop (n * ?ch) (resize (n * ?ch) (Fin 0) (mx_scratch mx))"
  let ?buf = "resize (n * (2 * ?ch)) 0 (mx_frame_buf mx)"
  have lens: "n * (2 * ?ch) \<le> length ?buf" "n * ?ch \<le> length ?scr" by (simp_all add: resize_def)
  have oks: "list_all (stream_ok (mx_format mx)) (mx_streams mx)" using assms(1) by (simp add: mixer_ok_def)
  obtain ss' buf' scr' where run: "mix_streams clk ?ch (n * (2 * ?ch)) n (mx_streams mx) ?buf ?scr = Some (ss', buf', scr')"
    and ss': "list_all (stream_ok (mx_format mx)) ss'" "map ms_id ss' = map ms_id (mx_streams mx)"
      "streams_continue n (mx_streams mx) ss'"
    and val: "\<forall>i < n * ?ch. scr' ! i = foldl (\<lambda>acc s. fadd F32 acc
          (fmul F32 (sample_f32 (stream_pcm s n) (2 * i)) (ms_gain s))) (?scr ! i) (mx_streams mx)"
    using mix_streams_spec[OF oks bpf assms(2) npos lens, of clk] by blast
  have mixed: "scr' ! i = mix_value n (mx_streams mx) i" if "i < n * ?ch" for i
    using val that by (simp add: mix_value_def nth_append)
  let ?zero = "replicate (asked * ?bpf) 0 @ drop (asked * ?bpf) out"
  have le: "2 * (n * ?ch) \<le> asked * ?bpf" using mult_le_mono1[OF na, of "2 * ?ch"] by (simp add: bpf)
  have dropz: "drop (2 * (n * ?ch)) ?zero = replicate ((asked - n) * ?bpf) 0 @ drop (asked * ?bpf) out"
    using le by (simp add: bpf diff_mult_distrib algebra_simps)
  have lenz: "2 * (n * ?ch) \<le> length ?zero" using le by simp
  have "map (\<lambda>i. i16_le (mixed_sample (scr' ! i) (mx_master_gain mx))) [0..<n * ?ch]
      = map (\<lambda>i. i16_le (mixed_sample (mix_value n (mx_streams mx) i) (mx_master_gain mx))) [0..<n * ?ch]"
    by (rule map_cong) (simp_all add: mixed)
  then have out: "write_samples scr' (mx_master_gain mx) [0..<n * ?ch] ?zero
      = concat (map (\<lambda>i. i16_le (mixed_sample (mix_value n (mx_streams mx) i) (mx_master_gain mx))) [0..<n * ?ch])
        @ replicate ((asked - n) * ?bpf) 0 @ drop (asked * ?bpf) out"
    by (simp only: write_samples_spec[OF le0 lenz] mult_0_right take_0 append_Nil dropz)
  let ?mx = "mx\<lparr>mx_streams := ss', mx_scratch := scr', mx_frame_buf := buf',
      mx_callbacks := mx_callbacks mx + 1, mx_last_callback_ms := now\<rparr>"
  have "mixer_pull clk False now mx out count = Some (?mx, write_samples scr' (mx_master_gain mx) [0..<n * ?ch] ?zero)"
    using guard run unfolding mixer_pull_def Let_def n_def asked_def bpf by simp
  moreover have "length ss' = length (mx_streams mx)" using ss'(2) by (metis length_map)
  then have "mixer_ok ?mx" using assms(1) ss' by (simp add: mixer_ok_def stream_ids_def)
  ultimately show ?thesis using out ss'(2,3) n_def asked_def
    by (intro exI[of _ asked] exI[of _ n] exI[of _ ?mx] exI) (simp add: stream_ids_def)
qed

text \<open>So the mix of more frames is the mix of the first and, from the streams as they are left, of the rest.\<close>

lemma stream_pcm_add:
  assumes "continues (ms_buffer s) n (ms_buffer s')"
  shows "stream_pcm s (n + m) = stream_pcm s n @ stream_pcm s' m"
proof -
  have "stream_pcm s k = concat (map (sounds (ms_buffer s)) [0..<k])" for s k
    unfolding stream_pcm_def by (rule concat_sounds)
  moreover have "sounds (ms_buffer s') = (\<lambda>i. sounds (ms_buffer s) (n + i))"
    using assms by (simp add: continues_def fun_eq_iff)
  ultimately show ?thesis by (simp add: upt_split comp_def)
qed

lemma sample_f32_past: "sample_f32 (xs @ ys) (length xs + i) = sample_f32 ys i"
  by (simp add: sample_f32_def nth_append add.assoc)

lemma mix_value_split:
  assumes "list_all (stream_ok fmt) ss" "bytes_per_frame fmt = 2 * chans" "0 < chans" "streams_continue n ss ss'"
  shows "i < n * chans \<Longrightarrow> mix_value (n + m) ss i = mix_value n ss i"
    and "mix_value (n + m) ss (n * chans + i) = mix_value m ss' i"
proof -
  let ?f = "\<lambda>n i acc s. fadd F32 acc (fmul F32 (sample_f32 (stream_pcm s n) (2 * i)) (ms_gain s))"
  have one: "length (stream_pcm s n) = n * (2 * chans)" if "stream_ok fmt s" for s
    using that assms(2,3) length_stream_pcm[of s n] by (simp add: stream_ok_def)
  have "(i < n * chans \<longrightarrow> foldl (?f (n + m) i) acc ss = foldl (?f n i) acc ss)
      \<and> foldl (?f (n + m) (n * chans + i)) acc ss = foldl (?f m i) acc ss'" for acc
    using assms(4,1) unfolding streams_continue_def
  proof (induction ss ss' arbitrary: acc rule: list_all2_induct)
    case (Cons s ss s' ss')
    then have c: "stream_pcm s (n + m) = stream_pcm s n @ stream_pcm s' m" "ms_gain s' = ms_gain s"
      "length (stream_pcm s n) = n * (2 * chans)" using one by (simp_all add: stream_pcm_add)
    have "sample_f32 (stream_pcm s (n + m)) (2 * i) = sample_f32 (stream_pcm s n) (2 * i)" if "i < n * chans"
      unfolding c(1) by (rule sample_f32_append) (use that c(3) in simp)
    moreover have "sample_f32 (stream_pcm s (n + m)) (2 * (n * chans + i)) = sample_f32 (stream_pcm s' m) (2 * i)"
      using sample_f32_past[of "stream_pcm s n" "stream_pcm s' m" "2 * i"] unfolding c(1,3) by (simp add: algebra_simps)
    ultimately show ?case using Cons c(2) by simp
  qed simp
  then show "i < n * chans \<Longrightarrow> mix_value (n + m) ss i = mix_value n ss i"
    "mix_value (n + m) ss (n * chans + i) = mix_value m ss' i"
    unfolding mix_value_def by blast+
qed

section \<open>The mix against exact arithmetic\<close>

text \<open>
  What a sample should be, without floating point: the signed samples of the streams, on the scale
  where 32768 is one, times the gains of their streams and the master gain, added up, cut to the
  range from minus one to one and brought to the 16-bit scale.
\<close>

definition pcm_sample :: "byte list \<Rightarrow> nat \<Rightarrow> int" where
  "pcm_sample bytes i = sint (i16_from_le (bytes ! (2 * i)) (bytes ! (2 * i + 1)))"

fun gain_value :: "flt \<Rightarrow> rat" where
  "gain_value (Fin r) = r"
| "gain_value x = 0"

definition exact_sum :: "nat \<Rightarrow> stream list \<Rightarrow> nat \<Rightarrow> rat" where
  "exact_sum n ss i =
     (\<Sum>s\<leftarrow>ss. gain_value (ms_gain s) * (of_int (pcm_sample (stream_pcm s n) i) / 32768))"

definition full_scale :: "rat \<Rightarrow> rat" where
  "full_scale x = 32767 * max (- 1) (min 1 x)"

lemma sample_f32_exact:
  "sample_f32 buf b = Fin (of_int (sint (i16_from_le (buf ! b) (buf ! (b + 1)))) / 32768)"
  by (simp only: sample_f32_def fl_int[OF sint_u16_abs] fdiv.simps fl_sample[OF sint_u16_abs]) simp

lemma gain_okE:
  assumes "gain_ok g"
  obtains "g = Fin (gain_value g)" "0 \<le> gain_value g" "gain_value g \<le> 2"
  using assms by (auto simp: gain_ok_def)

lemma gain_times_sample:
  assumes "0 \<le> g" "g \<le> 2"
  shows "\<bar>g * (of_int (pcm_sample xs i) / 32768)\<bar> \<le> (2 :: rat)"
proof -
  have "- 32768 \<le> pcm_sample xs i" "pcm_sample xs i \<le> 32767"
    unfolding pcm_sample_def using sint_u16_bounds by blast+
  then have "- 32768 \<le> (of_int (pcm_sample xs i) :: rat)" "(of_int (pcm_sample xs i) :: rat) \<le> 32767" by linarith+
  then have "\<bar>of_int (pcm_sample xs i) / 32768 :: rat\<bar> \<le> 1" by (simp add: abs_le_iff)
  then have "\<bar>g\<bar> * \<bar>of_int (pcm_sample xs i) / 32768 :: rat\<bar> \<le> 2 * 1"
    using assms by (intro mult_mono) simp_all
  then show ?thesis by (simp add: abs_mult)
qed

lemma sum_error:
  fixes w v p e q :: rat
  shows "\<bar>w - (v + p)\<bar> \<le> a \<Longrightarrow> \<bar>v - e\<bar> \<le> b \<Longrightarrow> \<bar>p - q\<bar> \<le> c \<Longrightarrow> \<bar>w - (e + q)\<bar> \<le> a + b + c"
  by linarith

lemma scaled_error:
  fixes t y c d :: rat
  shows "\<bar>t - y\<bar> < 1 \<Longrightarrow> \<bar>y - c * 32767\<bar> \<le> 1 / 512 \<Longrightarrow> \<bar>c - d\<bar> \<le> 20 / 1048576 \<Longrightarrow> \<bar>t - 32767 * d\<bar> < 2"
  by linarith

lemma clamp_close:
  fixes a b d :: rat
  shows "\<bar>a - b\<bar> \<le> d \<Longrightarrow> \<bar>max (- 1) (min 1 a) - max (- 1) (min 1 b)\<bar> \<le> d"
  by linarith

lemma mix_value_near:
  assumes "list_all (\<lambda>s. gain_ok (ms_gain s)) ss" "length ss \<le> 8"
  shows "\<exists>v. mix_value n ss i = Fin v \<and> \<bar>v\<bar> \<le> 2 * of_nat (length ss)
    \<and> \<bar>v - exact_sum n ss i\<bar> \<le> of_nat (length ss) * (9 / 2 ^ 23)"
  using assms
proof (induction ss rule: rev_induct)
  case Nil
  show ?case by (simp add: mix_value_def exact_sum_def)
next
  case (snoc s ss)
  then obtain v where v: "mix_value n ss i = Fin v" "\<bar>v\<bar> \<le> 2 * of_nat (length ss)"
      "\<bar>v - exact_sum n ss i\<bar> \<le> of_nat (length ss) * (9 / 2 ^ 23)" by auto
  let ?k = "of_int (pcm_sample (stream_pcm s n) i) / 32768 :: rat"
  have "gain_ok (ms_gain s)" using snoc.prems(1) by simp
  then obtain g where g: "ms_gain s = Fin g" "0 \<le> g" "g \<le> 2" by (auto simp: gain_ok_def)
  have b: "\<bar>g * ?k\<bar> \<le> of_int 2" using gain_times_sample[OF g(2,3)] by simp
  obtain p where p: "fl F32 (g * ?k) = Fin p" "\<bar>p - g * ?k\<bar> \<le> pow2 (1 - 24)" "\<bar>p\<bar> \<le> of_int 2"
    by (rule fl32_near[OF b, of 1]) (simp_all add: pow2_one)
  let ?c = "2 * int (Suc (length ss))"
  have len: "length ss \<le> 7" using snoc.prems(2) by simp
  have vp: "\<bar>v + p\<bar> \<le> of_int ?c" using v(2) p(3) by (simp add: abs_le_iff)
  have c: "(of_int ?c :: rat) \<le> pow2 4" using len by (simp add: pow2_numeral)
  obtain w where w: "fl F32 (v + p) = Fin w" "\<bar>w - (v + p)\<bar> \<le> pow2 (4 - 24)" "\<bar>w\<bar> \<le> of_int ?c"
    by (rule fl32_near[OF vp _ c]) (use len in simp_all)
  have "sample_f32 (stream_pcm s n) (2 * i) = Fin ?k"
    by (simp add: sample_f32_exact pcm_sample_def)
  then have eq: "mix_value n (ss @ [s]) i = Fin w"
    using v(1) p(1) w(1) g(1) by (simp add: mix_value_def mult.commute)
  have sum: "exact_sum n (ss @ [s]) i = exact_sum n ss i + g * ?k" by (simp add: exact_sum_def g(1))
  have pw: "pow2 (1 - 24) = 1 / 2 ^ 23" "pow2 (4 - 24) = 8 / 2 ^ 23" by (simp_all add: pow2_def)
  have "\<bar>w - exact_sum n (ss @ [s]) i\<bar> \<le> of_nat (Suc (length ss)) * (9 / 2 ^ 23)"
    using sum_error[OF w(2) v(3) p(2)] unfolding sum pw by (simp add: distrib_right)
  then show ?case using eq w(3) by simp
qed

lemma mixed_sample_near:
  assumes "\<bar>v\<bar> \<le> 16" "\<bar>v - e\<bar> \<le> 9 / 2 ^ 20" "0 \<le> m" "m \<le> 2"
  shows "\<bar>of_int (sint (mixed_sample (Fin v) (Fin m))) - full_scale (m * e)\<bar> < 2"
proof -
  have "\<bar>v\<bar> * \<bar>m\<bar> \<le> 16 * 2" using assms by (intro mult_mono) simp_all
  then have b1: "\<bar>v * m\<bar> \<le> of_int 32" by (simp add: abs_mult)
  obtain x where x: "fl F32 (v * m) = Fin x" "\<bar>x - v * m\<bar> \<le> pow2 (5 - 24)"
    by (rule fl32_near[OF b1, of 5]) (simp_all add: pow2_numeral)
  have "\<bar>v - e\<bar> * \<bar>m\<bar> \<le> 9 / 2 ^ 20 * 2" using assms by (intro mult_mono) simp_all
  moreover have "v * m - m * e = (v - e) * m" by algebra
  ultimately have "\<bar>v * m - m * e\<bar> \<le> 18 / 2 ^ 20" by (simp add: abs_mult)
  moreover have "pow2 (5 - 24) = 2 / 2 ^ 20" by (simp add: pow2_def)
  ultimately have "\<bar>x - m * e\<bar> \<le> 20 / 2 ^ 20" using x(2) by linarith
  moreover have "(20 / 2 ^ 20 :: rat) = 20 / 1048576" by simp
  ultimately have xe: "\<bar>x - m * e\<bar> \<le> 20 / 1048576" by (simp only:)
  let ?c = "max (- 1) (min 1 x)" and ?d = "max (- 1) (min 1 (m * e))"
  have clamp: "flt_clamp (Fin (- 1)) (Fin 1) (Fin x) = Fin ?c" by (auto simp: flt_clamp_def)
  have cd: "\<bar>?c - ?d\<bar> \<le> 20 / 1048576" by (rule clamp_close[OF xe])
  have cb: "- 1 \<le> ?c" "?c \<le> 1" by auto
  then have b2: "\<bar>?c * 32767\<bar> \<le> of_int 32767" by (simp add: abs_le_iff)
  obtain y where y: "fl F32 (?c * 32767) = Fin y" "\<bar>y - ?c * 32767\<bar> \<le> pow2 (15 - 24)" "\<bar>y\<bar> \<le> of_int 32767"
    by (rule fl32_near[OF b2, of 15]) (simp_all add: pow2_numeral)
  have yb: "of_int (- 32768) \<le> y" "y \<le> of_int 32767" using y(3) by (simp_all add: abs_le_iff)
  have yc: "\<bar>y - ?c * 32767\<bar> \<le> 1 / 512" using y(2) by (simp add: pow2_def)
  note t = to_int_sat_between[OF yb order_refl order_refl] to_int_sat_error[OF yb]
  have "sint (mixed_sample (Fin v) (Fin m)) = to_int_sat (- 32768) 32767 (Fin y)"
    unfolding mixed_sample_def fmul.simps x(1) clamp y(1) using t(1) by (intro sint_of_int_u16) simp_all
  then show ?thesis
    unfolding full_scale_def using scaled_error[OF t(2) yc cd] by (simp only:)
qed

lemma mixed_near_exact:
  assumes "mixer_ok mx"
  shows "\<bar>of_int (sint (mixed_sample (mix_value n (mx_streams mx) i) (mx_master_gain mx)))
      - full_scale (gain_value (mx_master_gain mx) * exact_sum n (mx_streams mx) i)\<bar> < 2"
proof -
  have "list_all (\<lambda>s. gain_ok (ms_gain s)) (mx_streams mx)" and len: "length (mx_streams mx) \<le> 8"
    and m: "gain_ok (mx_master_gain mx)"
    using assms by (auto simp: mixer_ok_def stream_ok_def list_all_iff MAX_STREAMS_def)
  from mix_value_near[OF this(1,2), of n i] obtain v where v: "mix_value n (mx_streams mx) i = Fin v"
      "\<bar>v\<bar> \<le> 2 * of_nat (length (mx_streams mx))"
      "\<bar>v - exact_sum n (mx_streams mx) i\<bar> \<le> of_nat (length (mx_streams mx)) * (9 / 2 ^ 23)" by blast
  have l: "(of_nat (length (mx_streams mx)) :: rat) \<le> 8" using len by (metis of_nat_le_iff of_nat_numeral)
  show ?thesis
  proof (rule gain_okE[OF m])
    assume g: "mx_master_gain mx = Fin (gain_value (mx_master_gain mx))"
      "0 \<le> gain_value (mx_master_gain mx)" "gain_value (mx_master_gain mx) \<le> 2"
    have "\<bar>v\<bar> \<le> 16" "\<bar>v - exact_sum n (mx_streams mx) i\<bar> \<le> 9 / 2 ^ 20" using v(2,3) l by (linarith, simp)
    from mixed_sample_near[OF this g(2,3)] show ?thesis by (metis v(1) g(1))
  qed
qed

text \<open>The sample at a place of the output buffer is the one written there.\<close>

lemma i16_le_at:
  "i < k \<Longrightarrow> i16_from_le ((concat (map (\<lambda>i. i16_le (f i)) [0..<k]) @ rest) ! (2 * i))
      ((concat (map (\<lambda>i. i16_le (f i)) [0..<k]) @ rest) ! (2 * i + 1)) = f i"
proof (induction k)
  case (Suc k)
  have len: "length (concat (map (\<lambda>i. i16_le (f i)) [0..<k])) = 2 * k"
    by (induction k) simp_all
  show ?case
  proof (cases "i < k")
    case True
    with Suc.IH len show ?thesis by (simp add: nth_append)
  next
    case False
    with Suc.prems have "i = k" by simp
    with len show ?thesis by (simp add: nth_append i16_from_le_le[simplified])
  qed
qed simp

text \<open>
  C11. The mixing function. A pull that gets the lock always returns. The whole frames asked for and
  fitting are written: the first 4096 of them hold, sample by sample, the sum over the streams of
  the stream's sample times its gain, times the master gain, clamped and truncated to 16 bits, all
  in \<open>f32\<close>; and each of these samples lies less than two units of the 16-bit scale from the
  same expression in exact arithmetic (\<open>full_scale\<close> of \<open>exact_sum\<close>). Frames past 4096
  are silent; what lies behind is left alone. The streams keep their order and the state its
  invariant.
\<close>

theorem mixer_pull_mixes:
  assumes "mixer_ok mx" "0 < unat (channels (mx_format mx))" "0 < count" "bytes_per_frame (mx_format mx) \<le> length out"
  shows "\<exists>asked n mx' out'. mixer_pull clk False now mx out count = Some (mx', out')
    \<and> asked = min count (length out div bytes_per_frame (mx_format mx)) \<and> n = min asked 4096
    \<and> out' = concat (map (\<lambda>i. i16_le (mixed_sample (mix_value n (mx_streams mx) i) (mx_master_gain mx)))
                 [0..<n * unat (channels (mx_format mx))])
        @ replicate ((asked - n) * bytes_per_frame (mx_format mx)) 0
        @ drop (asked * bytes_per_frame (mx_format mx)) out
    \<and> (\<forall>i < n * unat (channels (mx_format mx)).
         \<bar>of_int (pcm_sample out' i) - full_scale (gain_value (mx_master_gain mx) * exact_sum n (mx_streams mx) i)\<bar> < 2)
    \<and> mixer_ok mx' \<and> stream_ids mx' = stream_ids mx \<and> mx_format mx' = mx_format mx"
proof -
  from mixer_pull_spec[OF assms, of clk now] obtain asked n mx' out' where
    spec: "mixer_pull clk False now mx out count = Some (mx', out')"
      "asked = min count (length out div bytes_per_frame (mx_format mx))" "n = min asked 4096"
      "out' = concat (map (\<lambda>i. i16_le (mixed_sample (mix_value n (mx_streams mx) i) (mx_master_gain mx)))
                 [0..<n * unat (channels (mx_format mx))])
        @ replicate ((asked - n) * bytes_per_frame (mx_format mx)) 0
        @ drop (asked * bytes_per_frame (mx_format mx)) out"
      "mixer_ok mx'" "stream_ids mx' = stream_ids mx" "mx_format mx' = mx_format mx" by blast
  have "pcm_sample out' i = sint (mixed_sample (mix_value n (mx_streams mx) i) (mx_master_gain mx))"
    if "i < n * unat (channels (mx_format mx))" for i
    unfolding pcm_sample_def spec(4) i16_le_at[OF that] by (rule refl)
  then have "\<forall>i < n * unat (channels (mx_format mx)).
      \<bar>of_int (pcm_sample out' i) - full_scale (gain_value (mx_master_gain mx) * exact_sum n (mx_streams mx) i)\<bar> < 2"
    using mixed_near_exact[OF assms(1)] by simp
  with spec show ?thesis by blast
qed

section \<open>Levels\<close>

text \<open>
  Levels. With nothing to play every output sample is zero. One stream at unit gain through a
  unit master gain comes out unchanged up to one unit of the 16-bit scale.
\<close>

theorem unit_gain_transparent:
  assumes "ms_gain s = Fin 1"
  shows "mixed_sample (mix_value n [] i) (Fin 1) = 0
    \<and> \<bar>sint (mixed_sample (mix_value n [s] i) (Fin 1))
       - sint (i16_from_le (stream_pcm s n ! (2 * i)) (stream_pcm s n ! (2 * i + 1)))\<bar> \<le> 1"
proof
  show "mixed_sample (mix_value n [] i) (Fin 1) = 0"
    using fl_int[of 0] by (simp add: mixed_sample_def mix_value_def flt_clamp_def trunc_rat_def)
  let ?k = "sint (i16_from_le (stream_pcm s n ! (2 * i)) (stream_pcm s n ! (2 * i + 1)))"
  have k: "- 32768 \<le> ?k" "?k \<le> 32767" using sint_u16_bounds by blast+
  have fl: "fl F32 (of_int ?k / 32768) = Fin (of_int ?k / 32768)" by (rule fl_sample[OF sint_u16_abs])
  have kb: "- 32768 \<le> (of_int ?k :: rat)" "(of_int ?k :: rat) \<le> 32767" using k by linarith+
  have "mix_value n [s] i = Fin (of_int ?k / 32768)"
    by (simp only: mix_value_def foldl.simps assms sample_f32_exact fmul.simps fadd.simps
        mult_1_right add_0_left fl)
  then have eq: "mixed_sample (mix_value n [s] i) (Fin 1)
      = of_int (to_int_sat (- 32768) 32767 (fmul F32 (Fin (of_int ?k / 32768)) (Fin 32767)))"
    using kb by (simp only: mixed_sample_def fmul.simps mult_1_right fl) (simp add: flt_clamp_def)
  have "- 32768 \<le> to_int_sat (- 32768) 32767 x \<and> to_int_sat (- 32768) 32767 x \<le> 32767" for x
    by (rule to_int_sat_bounds) simp_all
  then show "\<bar>sint (mixed_sample (mix_value n [s] i) (Fin 1))
      - sint (i16_from_le (stream_pcm s n ! (2 * i)) (stream_pcm s n ! (2 * i + 1)))\<bar> \<le> 1"
    unfolding eq using scale_back[OF k] by (simp only: sint_of_int_u16)
qed

definition demo_mixer :: mixer where
  "demo_mixer = snd (push_packet (fst (ensure_stream
     (mixer_new \<lparr>sample_rate = 48000, channels = 1, frame_samples = 1\<rparr>) [97] [97] 0)) [97] 1 [0, 1] 0 0)"

lemma mixer_formats [simp]:
  "mx_format (mixer_new fmt) = fmt" "mx_format (fst (ensure_stream mx i name now)) = mx_format mx"
  "mx_format (snd (push_packet mx i sq pcm now arr)) = mx_format mx"
  "mx_master_gain (mixer_new fmt) = Fin 1"
  "mx_master_gain (fst (ensure_stream mx i name now)) = mx_master_gain mx"
  "mx_master_gain (snd (push_packet mx i sq pcm now arr)) = mx_master_gain mx"
  by (simp_all add: mixer_new_def ensure_stream_def push_packet_def Let_def split: option.split)

lemma demo_mixer_ok: "mixer_ok demo_mixer"
  unfolding demo_mixer_def
  by (intro push_packet_ok ensure_stream_ok mixer_new_ok) (simp add: u64_max_def)

lemma demo_mixer_format: "mx_format demo_mixer = \<lparr>sample_rate = 48000, channels = 1, frame_samples = 1\<rparr>"
  "mx_master_gain demo_mixer = Fin 1"
  by (simp_all add: demo_mixer_def)

theorem mixer_pull_mixes_witness:
  "\<exists>mx'. mixer_pull id False 7 demo_mixer [9, 9, 9, 9, 9] 1
    = Some (mx', i16_le (mixed_sample (mix_value 1 (mx_streams demo_mixer) 0) (Fin 1)) @ [9, 9, 9])"
  using mixer_pull_mixes[OF demo_mixer_ok, of 1 "[9, 9, 9, 9, 9]" id 7]
  by (simp add: demo_mixer_format bytes_per_frame_def) blast

theorem unit_gain_transparent_witness:
  "\<exists>s. ms_gain s = Fin 1
    \<and> \<bar>sint (mixed_sample (mix_value 1 [s] 0) (Fin 1)) - sint (i16_from_le (stream_pcm s 1 ! 0) (stream_pcm s 1 ! 1))\<bar> \<le> 1"
proof -
  let ?s = "\<lparr>ms_id = [97], ms_name = [97], ms_gain = Fin 1, ms_last_seen = 0, ms_buffer = demo_jitter\<rparr>"
  show ?thesis using unit_gain_transparent[of ?s 1 0] by (intro exI[of _ ?s]) simp
qed

section \<open>Every reachable mixer\<close>

datatype mixer_op =
    MEnsure rstring rstring nat
  | MRemove rstring
  | MTouch rstring nat
  | MMaster flt
  | MGain rstring flt
  | MTargetMs rstring nat
  | MTargetPackets nat
  | MPush rstring u64 "byte list" nat nat
  | MExpire nat nat
  | MPull "nat \<Rightarrow> nat" bool nat "byte list" nat

fun mixer_step :: "mixer_op \<Rightarrow> mixer \<Rightarrow> mixer option" where
  "mixer_step (MEnsure i name now) mx = Some (fst (ensure_stream mx i name now))"
| "mixer_step (MRemove i) mx = Some (remove_stream mx i)"
| "mixer_step (MTouch i now) mx = Some (touch mx i now)"
| "mixer_step (MMaster g) mx = Some (set_master_gain mx g)"
| "mixer_step (MGain i g) mx = Some (snd (set_stream_gain mx i g))"
| "mixer_step (MTargetMs i ms) mx = Some (snd (set_stream_target_ms mx i ms))"
| "mixer_step (MTargetPackets n) mx = Some (mixer_set_target_packets mx n)"
| "mixer_step (MPush i sq pcm now arr) mx = Some (snd (push_packet mx i (unat sq) pcm now arr))"
| "mixer_step (MExpire idle now) mx = Some (fst (expire_idle mx idle now))"
| "mixer_step (MPull clk busy now out n) mx = map_option fst (mixer_pull clk busy now mx out n)"

fun mixer_run :: "mixer_op list \<Rightarrow> mixer \<Rightarrow> mixer option" where
  "mixer_run [] mx = Some mx"
| "mixer_run (x # xs) mx = Option.bind (mixer_step x mx) (mixer_run xs)"

lemma mixer_pull_ok:
  assumes "mixer_ok mx"
  shows "\<exists>mx' out'. mixer_pull clk busy now mx out n = Some (mx', out') \<and> mixer_ok mx'"
proof (cases "busy \<or> bytes_per_frame (mx_format mx) = 0 \<or> n = 0 \<or> length out < bytes_per_frame (mx_format mx)")
  case True
  then show ?thesis using assms by (auto simp: mixer_pull_def Let_def)
next
  case False
  then have "0 < unat (channels (mx_format mx))" "0 < n" "bytes_per_frame (mx_format mx) \<le> length out"
    by (simp_all add: bytes_per_frame_def)
  with mixer_pull_spec[OF assms this, of clk now] False show ?thesis by auto
qed

lemma mixer_step_ok: "mixer_ok mx \<Longrightarrow> \<exists>mx'. mixer_step x mx = Some mx' \<and> mixer_ok mx'"
proof (cases x)
  case (MPull clk busy now out n)
  assume "mixer_ok mx"
  from mixer_pull_ok[OF this, of clk busy now out n] MPull show ?thesis by auto
qed (simp_all add: mixer_ops_ok ensure_stream_ok push_packet_ok unat_u64_le)

lemma mixer_run_ok: "mixer_ok mx \<Longrightarrow> \<exists>mx'. mixer_run xs mx = Some mx' \<and> mixer_ok mx'"
proof (induction xs arbitrary: mx)
  case Nil
  then show ?case by simp
next
  case (Cons x xs)
  then show ?case using mixer_step_ok[OF Cons.prems, of x] by auto
qed

text \<open>
  Every sequence of mixer operations runs to the end, whatever the format, and leaves at most
  eight streams of distinct names, at most 32 packets queued in each, gains between zero and two.
\<close>

theorem mixer_reachable_ok:
  "\<exists>mx. mixer_run ops (mixer_new fmt) = Some mx \<and> mixer_ok mx
    \<and> length (stream_stats mx) \<le> 8 \<and> distinct (map st_id (stream_stats mx))
    \<and> list_all (\<lambda>s. st_buffered_packets s \<le> 32) (stream_stats mx)"
proof -
  obtain mx where mx: "mixer_run ops (mixer_new fmt) = Some mx" "mixer_ok mx"
    using mixer_run_ok[OF mixer_new_ok] by blast
  have "list_all (\<lambda>s. length (jb_slots (ms_buffer s)) \<le> MAX_SLOTS) (mx_streams mx)"
    using mx(2) jitter_okD(4) by (auto simp: mixer_ok_def stream_ok_def list_all_iff)
  with mx show ?thesis
    by (intro exI[of _ mx])
      (auto simp: mixer_ok_def stream_stats_def stream_ids_def list_all_iff buffered_packets_def
        MAX_STREAMS_def MAX_SLOTS_def comp_def)
qed

end
