(* ===== verification/Receiver.thy ===== *)
theory Receiver
  imports Packet Replay Adapt Mixer Net_Addr "HOL-Library.AList"
begin

text \<open>
  \<open>src/src/transport/receiver.rs\<close>: the receiver's engine, that is the sessions it knows with their
  replay windows and statistics, the datagrams it accepts and the feedback it sends. The hash map
  of peers is an association list with distinct keys; where the code's result depends on the
  iteration order of the map, the order is an argument. Readings of the clock are arguments, in
  microseconds since an origin: \<open>clk i\<close> is the \<open>i\<close>-th reading of an operation. The random epoch of
  \<open>rotate_epoch\<close> is an argument. The mixer the code shares through a reference is passed and returned.
\<close>

definition MAX_SESSION_HISTORY :: nat where "MAX_SESSION_HISTORY = 4096"

record peer =
  pe_keys :: direction_keys
  pe_replay :: replay_window
  pe_counter :: nat
  pe_addr :: socket_addr
  pe_name :: rstring
  pe_active :: bool
  pe_received :: nat
  pe_lost :: nat
  pe_max_seq :: nat
  pe_cursor :: nat
  pe_seen :: "(nat, unit) btree"
  pe_jitter :: flt
  pe_last_transit :: "int option"
  pe_send_ts :: u64
  pe_arrival :: nat
  pe_suggested_ms :: u16
  pe_buffer_ms :: nat
  pe_probe_gen :: u32
  pe_probe_bytes :: "nat list"
  pe_probe_first_us :: "nat list"
  pe_probe_last_us :: "nat list"
  pe_last_feedback :: "nat option"
  pe_starvations_mark :: nat
  pe_adapt :: receiver_adapt

definition peer_new :: "direction_keys \<Rightarrow> socket_addr \<Rightarrow> rstring \<Rightarrow> nat \<Rightarrow> peer" where
  "peer_new keys addr name now =
     \<lparr>pe_keys = keys, pe_replay = new_window 2048, pe_counter = 0, pe_addr = addr, pe_name = name,
      pe_active = True, pe_received = 0, pe_lost = 0, pe_max_seq = 0, pe_cursor = 0, pe_seen = bt_empty,
      pe_jitter = Fin 0, pe_last_transit = None, pe_send_ts = 0, pe_arrival = now,
      pe_suggested_ms = 20, pe_buffer_ms = 20, pe_probe_gen = 0, pe_probe_bytes = replicate 5 0,
      pe_probe_first_us = replicate 5 0, pe_probe_last_us = replicate 5 0, pe_last_feedback = None,
      pe_starvations_mark = 0, pe_adapt = receiver_adapt_new\<rparr>"

type_synonym peers = "(byte list \<times> peer) list"

record receiver =
  rc_token :: "byte list"
  rc_epoch :: "byte list"
  rc_peers :: peers
  rc_cap :: nat
  rc_packets_received :: nat
  rc_packets_rejected :: nat

definition with_history_cap :: "byte list \<Rightarrow> byte list \<Rightarrow> nat \<Rightarrow> receiver" where
  "with_history_cap tok ep cap =
     \<lparr>rc_token = tok, rc_epoch = ep, rc_peers = [], rc_cap = cap,
      rc_packets_received = 0, rc_packets_rejected = 0\<rparr>"

definition receiver_new :: "byte list \<Rightarrow> byte list \<Rightarrow> receiver" where
  "receiver_new tok ep = with_history_cap tok ep MAX_SESSION_HISTORY"

definition history_len :: "receiver \<Rightarrow> nat" where
  "history_len rc = length (rc_peers rc)"

definition peer_count :: "receiver \<Rightarrow> nat" where
  "peer_count rc = length (filter (\<lambda>(_, p). pe_active p) (rc_peers rc))"

definition reject :: "receiver \<Rightarrow> receiver" where
  "reject rc = rc\<lparr>rc_packets_rejected := rc_packets_rejected rc + 1\<rparr>"

definition accept :: "receiver \<Rightarrow> receiver" where
  "accept rc = rc\<lparr>rc_packets_received := rc_packets_received rc + 1\<rparr>"

definition rotate_epoch :: "byte list \<Rightarrow> receiver \<Rightarrow> mixer \<Rightarrow> receiver \<times> mixer" where
  "rotate_epoch rand rc mx =
     (rc\<lparr>rc_epoch := rand, rc_peers := []\<rparr>, fold (\<lambda>i m. remove_stream m i) (stream_ids mx) mx)"

section \<open>Audio sequence numbers\<close>

text \<open>\<open>range(a..b).count()\<close> of the set.\<close>

definition count_range :: "nat \<Rightarrow> nat \<Rightarrow> (nat, unit) btree \<Rightarrow> nat" where
  "count_range a b m = length (filter (\<lambda>k. a \<le> k \<and> k < b) (bt_keys m))"

text \<open>The loop \<open>while peer.loss_cursor < horizon\<close>.\<close>

function loss_loop :: "nat \<Rightarrow> peer \<Rightarrow> peer" where
  "loss_loop horizon p =
     (if pe_cursor p < horizon
      then loss_loop horizon
             (p\<lparr>pe_lost := (if bt_get (pe_seen p) (pe_cursor p) = None
                            then sat_add u32_max (pe_lost p) 1 else pe_lost p),
                pe_seen := bt_remove (pe_cursor p) (pe_seen p),
                pe_cursor := pe_cursor p + 1\<rparr>)
      else p)"
  by pat_completeness auto
termination
  by (relation "measure (\<lambda>(horizon, p). horizon - pe_cursor p)") auto

declare loss_loop.simps [simp del]

definition note_seq :: "nat \<Rightarrow> peer \<Rightarrow> peer" where
  "note_seq sq p =
     (let p = p\<lparr>pe_seen := bt_insert sq () (pe_seen p),
                pe_received := sat_add u32_max (pe_received p) 1\<rparr>;
          p = (if pe_max_seq p < sq then p\<lparr>pe_max_seq := sq\<rparr> else p)
      in if pe_cursor p = 0 then p\<lparr>pe_cursor := 1\<rparr> else p)"

definition settle_losses :: "peer \<Rightarrow> peer" where
  "settle_losses p =
     (let horizon = pe_max_seq p - 32
      in if sat_add u64_max (pe_cursor p) 48 < horizon
         then (let seen = count_range (pe_cursor p) horizon (pe_seen p);
                   span = horizon - pe_cursor p
               in p\<lparr>pe_lost := sat_add u32_max (pe_lost p) (min (span - seen) u32_max),
                    pe_seen := bt_retain (\<lambda>s. horizon \<le> s) (pe_seen p),
                    pe_cursor := horizon\<rparr>)
         else loss_loop horizon p)"

definition observe_audio_seq :: "peer \<Rightarrow> nat \<Rightarrow> peer" where
  "observe_audio_seq p sq =
     (if sq = 0 \<or> bt_get (pe_seen p) sq \<noteq> None then p else settle_losses (note_seq sq p))"

section \<open>Bodies of a known session\<close>

text \<open>\<open>as i64\<close> and \<open>saturating_sub\<close> on \<open>i64\<close>; the difference of two transits wraps.\<close>

definition to_i64 :: "u64 \<Rightarrow> int" where "to_i64 w = sint w"

definition i64_sat_sub :: "int \<Rightarrow> int \<Rightarrow> int" where
  "i64_sat_sub a b = max (- (2 ^ 63)) (min (2 ^ 63 - 1) (a - b))"

definition i64_wrap :: "int \<Rightarrow> int" where "i64_wrap k = sint (of_int k :: u64)"

definition next_jitter :: "flt \<Rightarrow> nat \<Rightarrow> flt" where
  "next_jitter jitter delta =
     fadd F64 jitter (fdiv F64 (fsub F64 (fl F64 (of_nat delta)) jitter) (Fin 16))"

definition observe_transit :: "peer \<Rightarrow> int \<Rightarrow> peer" where
  "observe_transit p transit =
     (case pe_last_transit p of
        None \<Rightarrow> p\<lparr>pe_last_transit := Some transit\<rparr>
      | Some prev \<Rightarrow> p\<lparr>pe_jitter := next_jitter (pe_jitter p) (nat \<bar>i64_wrap (transit - prev)\<bar>),
                       pe_last_transit := Some transit\<rparr>)"

definition note_audio :: "audio_body \<Rightarrow> nat \<Rightarrow> nat \<Rightarrow> peer \<Rightarrow> peer" where
  "note_audio au arrival now p =
     (let p = observe_audio_seq p (unat (seq au));
          transit = i64_sat_sub (to_i64 (of_nat arrival)) (to_i64 (send_ts_us au))
      in (observe_transit p transit)\<lparr>pe_send_ts := send_ts_us au, pe_arrival := now,
            pe_suggested_ms := buffer_ms au\<rparr>)"

definition apply_audio ::
  "crates \<Rightarrow> (nat \<Rightarrow> nat) \<Rightarrow> byte list \<Rightarrow> byte list \<Rightarrow> receiver \<Rightarrow> mixer \<Rightarrow> receiver \<times> mixer" where
  "apply_audio l clk sess body rc mx =
     (case decode_audio body of
        None \<Rightarrow> (reject rc, mx)
      | Some au \<Rightarrow>
     (case decode_canonical (codec au) (payload au) of
        None \<Rightarrow> (reject rc, mx)
      | Some pcm \<Rightarrow>
     (case map_of (rc_peers rc) sess of
        None \<Rightarrow> (rc, mx)
      | Some _ \<Rightarrow>
          (let rc = rc\<lparr>rc_peers := AList.map_entry sess (note_audio au (clk 0) (clk 1)) (rc_peers rc)\<rparr>;
               mx = touch mx (hex_encode l sess) (clk 2)
           in (accept rc, snd (push_packet mx (hex_encode l sess) (unat (seq au)) pcm (clk 3) (clk 4)))))))"

definition note_probe_body :: "probe_body \<Rightarrow> nat \<Rightarrow> nat \<Rightarrow> peer \<Rightarrow> peer" where
  "note_probe_body pb arrival now p =
     (let p = (if gen pb \<noteq> pe_probe_gen p
               then p\<lparr>pe_probe_gen := gen pb, pe_probe_bytes := replicate 5 0,
                      pe_probe_first_us := replicate 5 0, pe_probe_last_us := replicate 5 0\<rparr>
               else p);
          stp = unat (step pb);
          p = (if stp < length (pe_probe_bytes p)
               then (let p = p\<lparr>pe_probe_bytes := (pe_probe_bytes p)[stp :=
                                 sat_add u32_max (pe_probe_bytes p ! stp) (length (probe_payload pb))]\<rparr>;
                         p = (if pe_probe_first_us p ! stp = 0
                              then p\<lparr>pe_probe_first_us := (pe_probe_first_us p)[stp := arrival]\<rparr> else p)
                     in p\<lparr>pe_probe_last_us := (pe_probe_last_us p)[stp := arrival]\<rparr>)
               else p)
      in p\<lparr>pe_send_ts := probe_send_ts_us pb, pe_arrival := now\<rparr>)"

definition apply_probe ::
  "crates \<Rightarrow> (nat \<Rightarrow> nat) \<Rightarrow> byte list \<Rightarrow> byte list \<Rightarrow> receiver \<Rightarrow> mixer \<Rightarrow> receiver \<times> mixer" where
  "apply_probe l clk sess body rc mx =
     (case decode_probe body of
        None \<Rightarrow> (reject rc, mx)
      | Some pb \<Rightarrow>
     (case map_of (rc_peers rc) sess of
        None \<Rightarrow> (rc, mx)
      | Some _ \<Rightarrow>
          (accept (rc\<lparr>rc_peers := AList.map_entry sess (note_probe_body pb (clk 0 mod 2 ^ 64) (clk 1)) (rc_peers rc)\<rparr>),
           touch mx (hex_encode l sess) (clk 2))))"

section \<open>Datagrams\<close>

text \<open>A hello of an unknown session, opened under the keys derived for it.\<close>

definition admit ::
  "crates \<Rightarrow> (nat \<Rightarrow> nat) \<Rightarrow> byte list \<Rightarrow> direction_keys \<Rightarrow> opened \<Rightarrow> socket_addr \<Rightarrow> receiver \<Rightarrow> mixer \<Rightarrow> receiver \<times> mixer" where
  "admit l clk rand keys op src rc mx =
     (case decode_hello (o_body op) of
        None \<Rightarrow> (reject rc, mx)
      | Some name \<Rightarrow>
          if rc_cap rc \<le> length (rc_peers rc)
          then (let (rc, mx) = rotate_epoch rand rc mx in (reject rc, mx))
          else
            (let i = hex_encode l (o_session op)
             in case ensure_stream mx i name (clk 0) of
                  (mx, Inl _) \<Rightarrow> (reject rc, mx)
                | (mx, Inr _) \<Rightarrow>
                    (let p = peer_new keys src name (clk 1);
                         (fresh, window) = commit (pe_replay p) (unat (o_counter op));
                         p = p\<lparr>pe_replay := window\<rparr>
                     in if \<not> fresh then (reject rc, remove_stream mx i)
                        else (accept (rc\<lparr>rc_peers := AList.update (o_session op) p (rc_peers rc)\<rparr>), mx))))"

text \<open>The dispatch on the kind of a packet of a known session that the replay window took.\<close>

definition dispatch ::
  "crates \<Rightarrow> (nat \<Rightarrow> nat) \<Rightarrow> opened \<Rightarrow> receiver \<Rightarrow> mixer \<Rightarrow> receiver \<times> mixer" where
  "dispatch l clk op rc mx =
     (let sess = o_session op;
          active = (case map_of (rc_peers rc) sess of None \<Rightarrow> False | Some p \<Rightarrow> pe_active p)
      in if o_kind op = KIND_HELLO
         then (case decode_hello (o_body op) of
                 None \<Rightarrow> (accept rc, mx)
               | Some name \<Rightarrow>
                   (accept (rc\<lparr>rc_peers := AList.map_entry sess
                              (\<lambda>p. p\<lparr>pe_name := name, pe_active := True\<rparr>) (rc_peers rc)\<rparr>),
                    fst (ensure_stream mx (hex_encode l sess) name (clk 0))))
         else if o_kind op = KIND_AUDIO \<and> active then apply_audio l clk sess (o_body op) rc mx
         else if o_kind op = KIND_PROBE \<and> active then apply_probe l clk sess (o_body op) rc mx
         else if o_kind op = KIND_AUDIO \<or> o_kind op = KIND_PROBE then (rc, mx)
         else (reject rc, mx))"

definition handle_known ::
  "crates \<Rightarrow> (nat \<Rightarrow> nat) \<Rightarrow> opened \<Rightarrow> socket_addr \<Rightarrow> receiver \<Rightarrow> mixer \<Rightarrow> receiver \<times> mixer" where
  "handle_known l clk op src rc mx =
     (case map_of (rc_peers rc) (o_session op) of
        None \<Rightarrow> (reject rc, mx)
      | Some p \<Rightarrow>
          (let (fresh, window) = commit (pe_replay p) (unat (o_counter op));
               rc = rc\<lparr>rc_peers := AList.map_entry (o_session op) (\<lambda>p. p\<lparr>pe_replay := window\<rparr>) (rc_peers rc)\<rparr>
           in if \<not> fresh then (reject rc, mx)
              else dispatch l clk op
                     (rc\<lparr>rc_peers := AList.map_entry (o_session op) (\<lambda>p. p\<lparr>pe_addr := src\<rparr>) (rc_peers rc)\<rparr>) mx))"

definition handle_datagram ::
  "crates \<Rightarrow> (nat \<Rightarrow> nat) \<Rightarrow> byte list \<Rightarrow> receiver \<Rightarrow> mixer \<Rightarrow> byte list \<Rightarrow> socket_addr \<Rightarrow> receiver \<times> mixer" where
  "handle_datagram l clk rand rc mx packet src =
     (case parse_packet packet of
        None \<Rightarrow> (reject rc, mx)
      | Some view \<Rightarrow>
          if epoch view \<noteq> rc_epoch rc \<or> counter view = 0 then (reject rc, mx)
          else
            (let known = map_of (rc_peers rc) (session view) \<noteq> None;
                 active = peer_count rc
             in if \<not> known \<and> (kind view \<noteq> KIND_HELLO \<or> MAX_STREAMS \<le> active) then (reject rc, mx)
                else
                  (let keys = (case map_of (rc_peers rc) (session view) of
                         Some p \<Rightarrow> pe_keys p
                       | None \<Rightarrow> derive l (rc_token rc) (rc_epoch rc) (session view))
                   in case open_packet l (sender_to_receiver keys) packet of
                        None \<Rightarrow> (reject rc, mx)
                      | Some op \<Rightarrow>
                          if \<not> known then admit l clk rand keys op src rc mx
                          else handle_known l clk op src rc mx)))"

section \<open>Feedback, expiry and reports\<close>

definition probe_recv_span :: "peer \<Rightarrow> nat \<Rightarrow> nat" where
  "probe_recv_span p i =
     (let first = pe_probe_first_us p ! i; lst = pe_probe_last_us p ! i
      in if pe_probe_bytes p ! i = 0 then 0
         else if first = 0 then 0
         else if lst \<le> first then u32_max
         else max (min (lst - first) u32_max) 1)"

definition probe_recv_spans :: "peer \<Rightarrow> nat list" where
  "probe_recv_spans p = map (probe_recv_span p) [0..<5]"

definition jitter_as_u32 :: "flt \<Rightarrow> nat" where
  "jitter_as_u32 j = nat (to_int_sat 0 (int u32_max) j)"

definition reported_jitter :: "flt \<Rightarrow> nat" where
  "reported_jitter j = jitter_as_u32 (flt_min j (fl F64 (of_nat u32_max)))"

definition feedback_is_due :: "nat \<Rightarrow> peer \<Rightarrow> bool" where
  "feedback_is_due now p \<longleftrightarrow> pe_active p
     \<and> (case pe_last_feedback p of None \<Rightarrow> True | Some sent \<Rightarrow> 400000 \<le> now - sent)"

definition starvations_of :: "mixer \<Rightarrow> rstring \<Rightarrow> nat" where
  "starvations_of mx i =
     (case find (\<lambda>s. st_id s = i) (stream_stats mx) of None \<Rightarrow> 0 | Some s \<Rightarrow> st_starvations s)"

text \<open>The peer after its adaptation step, and the body that reports it.\<close>

definition adapt_peer :: "mixer \<Rightarrow> rstring \<Rightarrow> peer \<Rightarrow> peer" where
  "adapt_peer mx i p =
     (let starvations = starvations_of mx i;
          delta = starvations - pe_starvations_mark p;
          (local, ad) = ra_observe (pe_adapt p) (jitter_as_u32 (pe_jitter p)) (min delta u32_max)
      in p\<lparr>pe_starvations_mark := starvations, pe_adapt := ad,
           pe_buffer_ms := clamp 15 150 (max local (unat (pe_suggested_ms p)))\<rparr>)"

definition feedback_of :: "nat \<Rightarrow> peer \<Rightarrow> feedback_body" where
  "feedback_of elapsed p =
     \<lparr>echo_send_ts_us = pe_send_ts p, delay_us = of_nat (min elapsed u32_max),
      echo_seq = of_nat (pe_max_seq p), received = of_nat (pe_received p), lost = of_nat (pe_lost p),
      jitter_us = of_nat (reported_jitter (pe_jitter p)),
      underruns = of_nat (min (pe_starvations_mark p) u32_max),
      fb_buffer_ms = of_nat (min (pe_buffer_ms p) u16_max), probe_gen = pe_probe_gen p,
      probe_bytes = map of_nat (pe_probe_bytes p), probe_recv_span_us = map of_nat (probe_recv_spans p)\<rparr>"

text \<open>One round of \<open>feedback_due\<close>; \<open>read\<close> is the clock reading behind \<open>elapsed\<close>.\<close>

definition feedback_one ::
  "crates \<Rightarrow> nat \<Rightarrow> nat \<Rightarrow> byte list \<Rightarrow> receiver \<Rightarrow> mixer \<Rightarrow> receiver \<times> mixer \<times> (socket_addr \<times> byte list) list" where
  "feedback_one l now read sess rc mx =
     (case map_of (rc_peers rc) sess of
        None \<Rightarrow> (rc, mx, [])
      | Some p \<Rightarrow>
          if \<not> feedback_is_due now p then (rc, mx, [])
          else
            (let i = hex_encode l sess;
                 p = adapt_peer mx i p;
                 mx = snd (set_stream_target_ms mx i (pe_buffer_ms p));
                 fb = feedback_of (read - pe_arrival p) p;
                 p = p\<lparr>pe_counter := sat_add u64_max (pe_counter p) 1\<rparr>
             in if pe_counter p = 0
                then (rc\<lparr>rc_peers := AList.update sess p (rc_peers rc)\<rparr>, mx, [])
                else case seal_packet l (receiver_to_sender (pe_keys p)) (rc_epoch rc) sess
                            (of_nat (pe_counter p)) KIND_FEEDBACK (encode_feedback fb) of
                       None \<Rightarrow> (rc\<lparr>rc_peers := AList.update sess p (rc_peers rc)\<rparr>, mx, [])
                     | Some pkt \<Rightarrow>
                         (rc\<lparr>rc_peers := AList.update sess (p\<lparr>pe_last_feedback := Some now\<rparr>) (rc_peers rc)\<rparr>,
                          mx, [(pe_addr p, pkt)])))"

text \<open>The loop over the sessions, in the iteration order \<open>order\<close> of the hash map.\<close>

fun feedback_due ::
  "crates \<Rightarrow> nat \<Rightarrow> (byte list \<Rightarrow> nat) \<Rightarrow> byte list list \<Rightarrow> receiver \<Rightarrow> mixer
    \<Rightarrow> receiver \<times> mixer \<times> (socket_addr \<times> byte list) list" where
  "feedback_due l now clk [] rc mx = (rc, mx, [])"
| "feedback_due l now clk (sess # order) rc mx =
     (let (rc, mx, out) = feedback_one l now (clk sess) sess rc mx;
          (rc, mx, outs) = feedback_due l now clk order rc mx
      in (rc, mx, out @ outs))"

definition expire :: "crates \<Rightarrow> nat \<Rightarrow> nat \<Rightarrow> receiver \<Rightarrow> mixer \<Rightarrow> receiver \<times> mixer" where
  "expire l max_idle now rc mx =
     (let (mx, removed) = expire_idle mx max_idle now
      in (rc\<lparr>rc_peers := map (\<lambda>(sess, p).
             (sess, if hex_encode l sess \<in> set removed then p\<lparr>pe_active := False\<rparr> else p)) (rc_peers rc)\<rparr>, mx))"

record peer_report =
  rp_id :: rstring
  rp_name :: rstring
  rp_received :: nat
  rp_lost :: nat
  rp_jitter_us :: nat
  rp_buffer_ms :: nat

definition reports :: "crates \<Rightarrow> receiver \<Rightarrow> peer_report list" where
  "reports l rc = map (\<lambda>(sess, p).
     \<lparr>rp_id = hex_encode l sess, rp_name = pe_name p, rp_received = pe_received p, rp_lost = pe_lost p,
      rp_jitter_us = reported_jitter (pe_jitter p), rp_buffer_ms = pe_buffer_ms p\<rparr>)
     (filter (\<lambda>(_, p). pe_active p) (rc_peers rc))"

section \<open>Loss accounting\<close>

text \<open>
  The abstract account: a number is on time when it is not more than 32 behind the newest so far.
\<close>

fun ontime :: "nat \<Rightarrow> nat list \<Rightarrow> nat list" where
  "ontime m [] = []"
| "ontime m (s # ss) = (if m - 32 \<le> s then s # ontime (max m s) ss else ontime (max m s) ss)"

lemma highest_append: "highest (xs @ [x]) = max (highest xs) x"
  by (induction xs) auto

lemma ontime_append:
  "ontime m (xs @ [x]) = ontime m xs @ (if max m (highest xs) - 32 \<le> x then [x] else [])"
  by (induction xs arbitrary: m) (auto simp: max.assoc)

lemma ontime_append_set:
  "set (ontime 0 (xs @ [x])) = set (ontime 0 xs) \<union> (if highest xs - 32 \<le> x then {x} else {})"
proof -
  have "max 0 (highest xs) = highest xs" by simp
  then show ?thesis unfolding ontime_append by (simp only: set_append) (cases "highest xs - 32 \<le> x", simp_all only: if_True if_False list.set)
qed

text \<open>What one settling of the numbers below the horizon does, whichever way it is computed.\<close>

definition settled :: "nat \<Rightarrow> peer \<Rightarrow> peer \<Rightarrow> bool" where
  "settled h p p' \<longleftrightarrow> bt_ok (pe_seen p') \<and> set (bt_keys (pe_seen p')) \<subseteq> set (bt_keys (pe_seen p))
     \<and> (\<forall>k \<ge> h. k \<in> set (bt_keys (pe_seen p')) \<longleftrightarrow> k \<in> set (bt_keys (pe_seen p)))
     \<and> pe_cursor p' = max (pe_cursor p) h \<and> pe_received p' = pe_received p \<and> pe_max_seq p' = pe_max_seq p
     \<and> pe_lost p' = min u32_max (pe_lost p + card ({pe_cursor p..<h} - set (bt_keys (pe_seen p))))"

lemma loss_loop_settles:
  "bt_ok (pe_seen p) \<Longrightarrow> pe_lost p \<le> u32_max \<Longrightarrow> settled h p (loss_loop h p)"
proof (induction h p rule: loss_loop.induct)
  case (1 h p)
  show ?case
  proof (cases "pe_cursor p < h")
    case False
    then show ?thesis unfolding loss_loop.simps[of h p] if_not_P[OF False]
      using 1(2,3) by (simp add: settled_def)
  next
    case True
    let ?c = "pe_cursor p" and ?K = "set (bt_keys (pe_seen p))"
    let ?p1 = "p\<lparr>pe_lost := (if bt_get (pe_seen p) ?c = None then sat_add u32_max (pe_lost p) 1 else pe_lost p),
                pe_seen := bt_remove ?c (pe_seen p), pe_cursor := ?c + 1\<rparr>"
    have "bt_ok (pe_seen ?p1)" "pe_lost ?p1 \<le> u32_max" using 1(2,3) by (simp_all add: bt_ok_remove)
    note IH = 1(1)[OF True this]
    have split: "{?c..<h} - ?K = (if ?c \<in> ?K then {} else {?c}) \<union> ({?c + 1..<h} - (?K - {?c}))"
      using True by (auto simp: Suc_le_eq le_less)
    have card: "card ({?c..<h} - ?K) = (if ?c \<in> ?K then 0 else 1) + card ({?c + 1..<h} - (?K - {?c}))"
      unfolding split by simp
    have lost: "pe_lost ?p1 = min u32_max (pe_lost p + (if ?c \<in> ?K then 0 else 1))"
      using 1(3) by (cases "?c \<in> ?K") (auto simp: sat_add_def bt_keys_get)
    show ?thesis unfolding loss_loop.simps[of h p] if_P[OF True]
    proof (unfold settled_def, intro conjI)
      note i = IH[unfolded settled_def]
      show "pe_lost (loss_loop h ?p1) = min u32_max (pe_lost p + card ({?c..<h} - ?K))"
        using i lost card by (simp add: bt_keys_remove)
      show "\<forall>k\<ge>h. k \<in> set (bt_keys (pe_seen (loss_loop h ?p1))) \<longleftrightarrow> k \<in> ?K"
        using i True by (simp add: bt_keys_remove)
      show "set (bt_keys (pe_seen (loss_loop h ?p1))) \<subseteq> ?K" using i by (auto simp: bt_keys_remove)
    qed (use IH[unfolded settled_def] True in simp_all)
  qed
qed

lemma count_range_card:
  assumes "bt_ok m"
  shows "count_range a b m = card ({a..<b} \<inter> set (bt_keys m))"
proof -
  have "distinct (bt_keys m)" using assms by (simp add: bt_ok_def)
  then have "count_range a b m = card (set (filter (\<lambda>k. a \<le> k \<and> k < b) (bt_keys m)))"
    unfolding count_range_def by (metis distinct_card distinct_filter)
  moreover have "set (filter (\<lambda>k. a \<le> k \<and> k < b) (bt_keys m)) = {a..<b} \<inter> set (bt_keys m)" by auto
  ultimately show ?thesis by simp
qed

lemma jump_settles:
  assumes "bt_ok (pe_seen p)" "pe_cursor p < h"
  shows "settled h p (p\<lparr>pe_lost := sat_add u32_max (pe_lost p)
        (min (h - pe_cursor p - count_range (pe_cursor p) h (pe_seen p)) u32_max),
      pe_seen := bt_retain (\<lambda>s. h \<le> s) (pe_seen p), pe_cursor := h\<rparr>)"
proof -
  let ?K = "set (bt_keys (pe_seen p))"
  have "card ({pe_cursor p..<h} - ?K) = card {pe_cursor p..<h} - card ({pe_cursor p..<h} \<inter> ?K)"
    by (rule card_Diff_subset_Int) simp
  then have "card ({pe_cursor p..<h} - ?K) = h - pe_cursor p - count_range (pe_cursor p) h (pe_seen p)"
    by (simp add: count_range_card[OF assms(1)])
  then show ?thesis
    using assms by (auto simp: settled_def bt_ok_retain bt.keys_retain sat_add_def)
qed

text \<open>The account that a peer keeps of the numbers \<open>xs\<close>, in their order of arrival.\<close>

definition lost_spec :: "nat list \<Rightarrow> nat" where
  "lost_spec xs = card ({1..<highest xs - 32} - set (ontime 0 xs))"

definition tracks :: "peer \<Rightarrow> nat list \<Rightarrow> bool" where
  "tracks p xs \<longleftrightarrow> bt_ok (pe_seen p) \<and> set (bt_keys (pe_seen p)) \<subseteq> set xs
     \<and> (\<forall>k \<ge> highest xs - 32. k \<in> set (bt_keys (pe_seen p)) \<longleftrightarrow> k \<in> set (ontime 0 xs))
     \<and> pe_max_seq p = highest xs \<and> pe_cursor p = (if xs = [] then 0 else max 1 (highest xs - 32))
     \<and> pe_lost p = min u32_max (lost_spec xs) \<and> pe_received p = min u32_max (length xs)"

lemma note_seq_fields:
  "pe_seen (note_seq sq p) = bt_insert sq () (pe_seen p)"
  "pe_received (note_seq sq p) = sat_add u32_max (pe_received p) 1"
  "pe_max_seq (note_seq sq p) = max (pe_max_seq p) sq" "pe_cursor (note_seq sq p) = max 1 (pe_cursor p)"
  "pe_lost (note_seq sq p) = pe_lost p"
  by (auto simp: note_seq_def Let_def max_def)

lemma settle_losses_settles:
  assumes "bt_ok (pe_seen p)" "pe_lost p \<le> u32_max" "pe_max_seq p \<le> u64_max"
  shows "settled (pe_max_seq p - 32) p (settle_losses p)"
proof (cases "sat_add u64_max (pe_cursor p) 48 < pe_max_seq p - 32")
  case True
  have "pe_max_seq p - 32 \<le> u64_max" using assms(3) by simp
  then have "pe_cursor p < pe_max_seq p - 32" using True by (auto simp: sat_add_def)
  from jump_settles[OF assms(1) this] show ?thesis
    unfolding settle_losses_def Let_def if_P[OF True] .
next
  case False
  from loss_loop_settles[OF assms(1,2)] show ?thesis
    unfolding settle_losses_def Let_def if_not_P[OF False] .
qed

lemma ontime_subset: "set (ontime m xs) \<subseteq> set xs"
  by (induction m xs rule: ontime.induct) auto

lemma split_below:
  fixes h h' :: nat
  assumes "h \<le> h'" "\<And>k. k < h \<Longrightarrow> k \<in> B \<longleftrightarrow> k \<in> A"
  shows "{1..<h'} - B = ({1..<h} - A) \<union> ({max 1 h..<h'} - B)"
proof (rule set_eqI)
  fix k
  show "k \<in> {1..<h'} - B \<longleftrightarrow> k \<in> ({1..<h} - A) \<union> ({max 1 h..<h'} - B)"
    using assms by (cases "k < h") simp_all
qed

lemma lost_spec_append:
  fixes xs :: "nat list" and x :: nat
  defines "h \<equiv> highest xs - 32" and "h' \<equiv> max (highest xs) x - 32"
  shows "lost_spec (xs @ [x]) = lost_spec xs + card ({max 1 h..<h'} - set (ontime 0 (xs @ [x])))"
proof -
  let ?A = "set (ontime 0 xs)" and ?B = "set (ontime 0 (xs @ [x]))"
  have B: "?B = ?A \<union> (if h \<le> x then {x} else {})" unfolding h_def by (rule ontime_append_set)
  have hh: "h \<le> h'" by (simp add: h_def h'_def)
  have "{1..<h'} - ?B = ({1..<h} - ?A) \<union> ({max 1 h..<h'} - ?B)"
    by (rule split_below[OF hh]) (use B in \<open>auto split: if_splits\<close>)
  moreover have "({1..<h} - ?A) \<inter> ({max 1 h..<h'} - ?B) = {}" by auto
  ultimately have "card ({1..<h'} - ?B) = card ({1..<h} - ?A) + card ({max 1 h..<h'} - ?B)"
    by (simp add: card_Un_disjoint)
  then show ?thesis by (simp add: lost_spec_def highest_append h_def h'_def)
qed

lemma min_add_min: "min b (min b x + y) = min b (x + y)" for b x y :: nat
  by simp

lemma tracks_step:
  assumes tr: "tracks p xs" and x: "x \<notin> set xs" "0 < x" "x \<le> u64_max" and top: "highest xs \<le> u64_max"
  shows "tracks (observe_audio_seq p x) (xs @ [x])"
proof -
  let ?q = "note_seq x p" and ?h = "highest xs - 32" and ?h' = "max (highest xs) x - 32"
  let ?K = "set (bt_keys (pe_seen p))"
  have t: "bt_ok (pe_seen p)" "?K \<subseteq> set xs" "pe_max_seq p = highest xs"
    "pe_lost p = min u32_max (lost_spec xs)" "pe_received p = min u32_max (length xs)"
    and ont: "\<And>k. ?h \<le> k \<Longrightarrow> k \<in> ?K \<longleftrightarrow> k \<in> set (ontime 0 xs)"
    and cur: "max 1 (pe_cursor p) = max 1 ?h"
    using tr by (auto simp: tracks_def)
  have "x \<notin> ?K" using t(2) x(1) by blast
  then have new: "observe_audio_seq p x = settle_losses ?q"
    using x(2) by (simp add: observe_audio_seq_def bt_keys_get)
  have q: "bt_ok (pe_seen ?q)" "set (bt_keys (pe_seen ?q)) = insert x ?K" "pe_max_seq ?q = max (highest xs) x"
    "pe_cursor ?q = max 1 ?h" "pe_lost ?q = pe_lost p" "pe_received ?q = min u32_max (length xs + 1)"
    using t(1,3,5) cur by (simp_all add: note_seq_fields bt_ok_insert bt.keys_insert sat_add_def)
  have "pe_lost ?q \<le> u32_max" "pe_max_seq ?q \<le> u64_max" using q t(4) x(3) top by simp_all
  from settle_losses_settles[OF q(1) this] have
    s: "bt_ok (pe_seen (settle_losses ?q))" "set (bt_keys (pe_seen (settle_losses ?q))) \<subseteq> insert x ?K"
      "pe_cursor (settle_losses ?q) = max (max 1 ?h) ?h'" "pe_received (settle_losses ?q) = min u32_max (length xs + 1)"
      "pe_max_seq (settle_losses ?q) = max (highest xs) x"
      "pe_lost (settle_losses ?q) = min u32_max (pe_lost p + card ({max 1 ?h..<?h'} - insert x ?K))"
    and keep: "\<And>k. ?h' \<le> k \<Longrightarrow> k \<in> set (bt_keys (pe_seen (settle_losses ?q))) \<longleftrightarrow> k \<in> insert x ?K"
    unfolding settled_def q(2-6) by blast+
  have mem: "k \<in> insert x ?K \<longleftrightarrow> k \<in> set (ontime 0 (xs @ [x]))" if "?h \<le> k" for k
    unfolding ontime_append_set using ont[OF that] that by (auto split: if_splits)
  have "{max 1 ?h..<?h'} - insert x ?K = {max 1 ?h..<?h'} - set (ontime 0 (xs @ [x]))"
  proof (rule set_eqI)
    fix k
    show "k \<in> {max 1 ?h..<?h'} - insert x ?K \<longleftrightarrow> k \<in> {max 1 ?h..<?h'} - set (ontime 0 (xs @ [x]))"
    proof (cases "?h \<le> k")
      case True
      then show ?thesis using mem[OF True] by (simp only: Diff_iff)
    next
      case False
      then have "k \<notin> {max 1 ?h..<?h'}" by simp
      then show ?thesis by blast
    qed
  qed
  then have lost: "pe_lost (settle_losses ?q) = min u32_max (lost_spec (xs @ [x]))"
    unfolding s(6) t(4) lost_spec_append[of xs x] by (simp only: min_add_min)
  show ?thesis unfolding new tracks_def
  proof (intro conjI)
    show "\<forall>k\<ge>highest (xs @ [x]) - 32. k \<in> set (bt_keys (pe_seen (settle_losses ?q)))
        \<longleftrightarrow> k \<in> set (ontime 0 (xs @ [x]))"
      using keep mem by (simp add: highest_append)
    show "set (bt_keys (pe_seen (settle_losses ?q))) \<subseteq> set (xs @ [x])" using s(2) t(2) by auto
    show "pe_cursor (settle_losses ?q) = (if xs @ [x] = [] then 0 else max 1 (highest (xs @ [x]) - 32))"
      using s(3) diff_le_mono[OF max.cobounded1[of "highest xs" x], of 32]
      by (simp add: highest_append max.assoc max.absorb2)
  qed (use s(1,4,5) lost in \<open>simp_all add: highest_append\<close>)
qed

lemma tracks_run:
  assumes "distinct xs" "list_all (\<lambda>x. 0 < x \<and> x \<le> u64_max) xs"
  shows "tracks (foldl observe_audio_seq (peer_new keys addr name now) xs) xs"
  using assms
proof (induction xs rule: rev_induct)
  case Nil
  then show ?case by (simp add: tracks_def peer_new_def bt_keys_def lost_spec_def)
next
  case (snoc x xs)
  have "highest xs \<le> u64_max"
    using snoc.prems(2) highest_in[of xs] by (cases "xs = []") (auto simp: list_all_iff)
  then show ?case using snoc tracks_step[of _ xs x] by simp
qed

text \<open>
  C14. Loss accounting. For audio numbers that arrive once each, in any order and with any gaps, the
  peer has counted all of them, knows the newest, and has counted as lost exactly the numbers
  more than 32 behind the newest that had not arrived by the time they fell that far behind; both
  counters saturate. The jump over large gaps and the step-by-step loop give the same account.
\<close>

theorem loss_accounting:
  fixes xs :: "nat list"
  assumes "distinct xs" and "list_all (\<lambda>x. 0 < x \<and> x \<le> u64_max) xs"
  shows "let p = foldl observe_audio_seq (peer_new keys addr name now) xs
    in pe_received p = min u32_max (length xs) \<and> pe_max_seq p = highest xs
      \<and> pe_lost p = min u32_max (card ({1..<highest xs - 32} - set (ontime 0 xs)))"
  using tracks_run[OF assms] by (simp add: tracks_def lost_spec_def Let_def)

theorem loss_accounting_witness:
  "pe_lost (foldl observe_audio_seq (peer_new (derive demo_crates [] [] []) (V4 (1, 2, 3, 4), 9) [] 0) [1, 40, 3, 36]) = 6"
proof -
  have "ontime 0 [1, 40, 3, 36 :: nat] = [1, 40, 36]" by simp
  moreover have "{1..<40 - 32} - set [1, 40, 36 :: nat] = {2..<8}" by auto
  ultimately show ?thesis
    using loss_accounting[of "[1, 40, 3, 36]" "derive demo_crates [] [] []" "(V4 (1, 2, 3, 4), 9)" "[]" 0]
    by (simp add: u64_max_def u32_max_def Let_def)
qed

end
