(* ===== verification/Receiver_Ok.thy ===== *)
theory Receiver_Ok
  imports Receiver
begin

text \<open>
  What the receiver's engine guarantees over every run: the state invariant, the link between its
  sessions and the mixer's streams, and the authenticity and freshness of what changes it.
\<close>

section \<open>Invariant\<close>

definition peer_ok :: "crates \<Rightarrow> byte list \<Rightarrow> byte list \<Rightarrow> byte list \<Rightarrow> peer \<Rightarrow> bool" where
  "peer_ok l tok ep sess p \<longleftrightarrow> length sess = 16 \<and> pe_keys p = derive l tok ep sess
     \<and> represents_some (pe_replay p) \<and> pe_counter p \<le> u64_max \<and> ra_ok (pe_adapt p)
     \<and> pe_received p \<le> u32_max \<and> pe_lost p \<le> u32_max \<and> 15 \<le> pe_buffer_ms p \<and> pe_buffer_ms p \<le> 150
     \<and> length (pe_probe_bytes p) = 5 \<and> length (pe_probe_first_us p) = 5 \<and> length (pe_probe_last_us p) = 5"

definition receiver_ok :: "crates \<Rightarrow> receiver \<Rightarrow> bool" where
  "receiver_ok l rc \<longleftrightarrow> length (rc_epoch rc) = 16 \<and> length (rc_peers rc) \<le> rc_cap rc
     \<and> distinct (map fst (rc_peers rc))
     \<and> (\<forall>(sess, p) \<in> set (rc_peers rc). peer_ok l (rc_token rc) (rc_epoch rc) sess p)"

text \<open>Every stream of the mixer belongs to an active session.\<close>

definition linked :: "crates \<Rightarrow> receiver \<Rightarrow> mixer \<Rightarrow> bool" where
  "linked l rc mx \<longleftrightarrow> set (stream_ids mx) \<subseteq> hex_encode l ` {sess. \<exists>p. (sess, p) \<in> set (rc_peers rc) \<and> pe_active p}"

lemma receiver_ok_peer:
  "receiver_ok l rc \<Longrightarrow> map_of (rc_peers rc) sess = Some p \<Longrightarrow> peer_ok l (rc_token rc) (rc_epoch rc) sess p"
  by (auto simp: receiver_ok_def dest: map_of_SomeD)

lemma map_entry_keys [simp]: "map fst (AList.map_entry k f xs) = map fst xs"
  by (induction xs) auto

lemma map_entry_length [simp]: "length (AList.map_entry k f xs) = length xs"
  by (metis length_map map_entry_keys)

lemma map_entry_in:
  "(k', v') \<in> set (AList.map_entry k f xs) \<Longrightarrow> (k', v') \<in> set xs \<or> (k' = k \<and> (\<exists>v. (k, v) \<in> set xs \<and> v' = f v))"
  by (induction xs) (auto split: if_splits)

lemma map_entry_get: "map_of (AList.map_entry k f xs) k' = (if k' = k then map_option f (map_of xs k) else map_of xs k')"
  by (induction xs) auto

lemma receiver_ok_entry:
  assumes "receiver_ok l rc" "\<And>p. peer_ok l (rc_token rc) (rc_epoch rc) sess p \<Longrightarrow> peer_ok l (rc_token rc) (rc_epoch rc) sess (f p)"
  shows "receiver_ok l (rc\<lparr>rc_peers := AList.map_entry sess f (rc_peers rc)\<rparr>)"
  using assms by (auto simp: receiver_ok_def dest!: map_entry_in)

lemma receiver_ok_map:
  assumes "receiver_ok l rc" "\<And>sess p. peer_ok l (rc_token rc) (rc_epoch rc) sess p \<Longrightarrow> peer_ok l (rc_token rc) (rc_epoch rc) sess (g sess p)"
  shows "receiver_ok l (rc\<lparr>rc_peers := map (\<lambda>(sess, p). (sess, g sess p)) (rc_peers rc)\<rparr>)"
proof -
  have "fst \<circ> (\<lambda>(sess, p). (sess, g sess p)) = fst" by (auto simp: fun_eq_iff)
  then show ?thesis using assms by (auto simp: receiver_ok_def)
qed

lemma update_in: "(k', v') \<in> set (AList.update k v xs) \<Longrightarrow> (k', v') = (k, v) \<or> (k', v') \<in> set xs"
  by (induction xs) (auto split: if_splits)

lemma receiver_ok_update:
  assumes "receiver_ok l rc" "peer_ok l (rc_token rc) (rc_epoch rc) sess p"
    "map_of (rc_peers rc) sess \<noteq> None \<or> length (rc_peers rc) < rc_cap rc"
  shows "receiver_ok l (rc\<lparr>rc_peers := AList.update sess p (rc_peers rc)\<rparr>)"
proof -
  have "distinct (map fst (AList.update sess p (rc_peers rc)))"
    using assms(1) by (intro distinct_update) (simp add: receiver_ok_def)
  moreover have "length (AList.update sess p xs) = (if map_of xs sess = None then Suc (length xs) else length xs)"
    for xs :: peers by (induction xs) auto
  ultimately show ?thesis
    using assms by (auto simp: receiver_ok_def dest!: update_in)
qed

lemma receiver_ok_counts [simp]:
  "receiver_ok l (reject rc) \<longleftrightarrow> receiver_ok l rc" "receiver_ok l (accept rc) \<longleftrightarrow> receiver_ok l rc"
  by (simp_all add: receiver_ok_def reject_def accept_def)

lemma linked_counts [simp]:
  "linked l (reject rc) mx \<longleftrightarrow> linked l rc mx" "linked l (accept rc) mx \<longleftrightarrow> linked l rc mx"
  by (simp_all add: linked_def reject_def accept_def)

text \<open>The peers' updates keep what the invariant needs.\<close>

lemma loss_loop_frame:
  "\<exists>a b c. loss_loop h p = p\<lparr>pe_lost := a, pe_seen := b, pe_cursor := c\<rparr> \<and> (pe_lost p \<le> u32_max \<longrightarrow> a \<le> u32_max)"
proof (induction h p rule: loss_loop.induct)
  case (1 h p)
  show ?case
  proof (cases "pe_cursor p < h")
    case False
    show ?thesis unfolding loss_loop.simps[of h p] if_not_P[OF False]
      by (intro exI[of _ "pe_lost p"] exI[of _ "pe_seen p"] exI[of _ "pe_cursor p"]) simp
  next
    case True
    from 1[OF True] show ?thesis unfolding loss_loop.simps[of h p] if_P[OF True]
      by (auto split: if_splits)
  qed
qed

lemma settle_losses_frame:
  "\<exists>a b c. settle_losses p = p\<lparr>pe_lost := a, pe_seen := b, pe_cursor := c\<rparr> \<and> (pe_lost p \<le> u32_max \<longrightarrow> a \<le> u32_max)"
proof (cases "sat_add u64_max (pe_cursor p) 48 < pe_max_seq p - 32")
  case True
  show ?thesis unfolding settle_losses_def Let_def if_P[OF True]
    by (intro exI conjI) (rule refl, simp)
next
  case False
  show ?thesis unfolding settle_losses_def Let_def if_not_P[OF False] by (rule loss_loop_frame)
qed

lemma observe_audio_seq_frame:
  "\<exists>r m a b c. observe_audio_seq p sq = p\<lparr>pe_received := r, pe_max_seq := m, pe_lost := a, pe_seen := b, pe_cursor := c\<rparr>
    \<and> (pe_lost p \<le> u32_max \<longrightarrow> a \<le> u32_max) \<and> (pe_received p \<le> u32_max \<longrightarrow> r \<le> u32_max)"
proof (cases "sq = 0 \<or> bt_get (pe_seen p) sq \<noteq> None")
  case True
  show ?thesis unfolding observe_audio_seq_def if_P[OF True]
    by (intro exI[of _ "pe_received p"] exI[of _ "pe_max_seq p"] exI[of _ "pe_lost p"]
        exI[of _ "pe_seen p"] exI[of _ "pe_cursor p"]) simp
next
  case False
  have "note_seq sq p = p\<lparr>pe_received := sat_add u32_max (pe_received p) 1, pe_max_seq := max (pe_max_seq p) sq,
      pe_seen := bt_insert sq () (pe_seen p), pe_cursor := max 1 (pe_cursor p)\<rparr>"
    by (cases p) (auto simp: note_seq_def Let_def max_def)
  then obtain m b c where n: "note_seq sq p = p\<lparr>pe_received := sat_add u32_max (pe_received p) 1,
      pe_max_seq := m, pe_seen := b, pe_cursor := c\<rparr>" by blast
  obtain a b' c' where s: "settle_losses (note_seq sq p) = (note_seq sq p)\<lparr>pe_lost := a, pe_seen := b', pe_cursor := c'\<rparr>"
    "pe_lost p \<le> u32_max \<longrightarrow> a \<le> u32_max"
    using settle_losses_frame[of "note_seq sq p"] unfolding note_seq_fields(5) by blast
  show ?thesis unfolding observe_audio_seq_def if_not_P[OF False] s(1) unfolding n
    by (intro exI[of _ "sat_add u32_max (pe_received p) 1"] exI[of _ m] exI[of _ a] exI[of _ b'] exI[of _ c'])
      (use s(2) in simp)
qed

text \<open>An update of one peer that keeps its keys valid and never deactivates it.\<close>

definition peer_keeps :: "(peer \<Rightarrow> peer) \<Rightarrow> bool" where
  "peer_keeps f \<longleftrightarrow> (\<forall>l tok ep sess p. peer_ok l tok ep sess p \<longrightarrow> peer_ok l tok ep sess (f p))
     \<and> (\<forall>p. pe_active p \<longrightarrow> pe_active (f p))"

lemma peer_keeps_audio: "peer_keeps (note_audio au arrival now)"
proof -
  have "peer_ok l tok ep sess (note_audio au arrival now p)" if ok: "peer_ok l tok ep sess p" for l tok ep sess p
  proof -
    obtain r m a b c where o: "observe_audio_seq p (unat (seq au))
        = p\<lparr>pe_received := r, pe_max_seq := m, pe_lost := a, pe_seen := b, pe_cursor := c\<rparr>"
      "pe_lost p \<le> u32_max \<longrightarrow> a \<le> u32_max" "pe_received p \<le> u32_max \<longrightarrow> r \<le> u32_max"
      using observe_audio_seq_frame by blast
    show ?thesis
      using ok o(2,3) unfolding note_audio_def o(1) Let_def
      by (cases "pe_last_transit p") (simp_all add: observe_transit_def peer_ok_def)
  qed
  moreover have "pe_active (note_audio au arrival now p) = pe_active p" for p
  proof -
    obtain r m a b c where o: "observe_audio_seq p (unat (seq au))
        = p\<lparr>pe_received := r, pe_max_seq := m, pe_lost := a, pe_seen := b, pe_cursor := c\<rparr>"
      using observe_audio_seq_frame by blast
    show ?thesis unfolding note_audio_def o Let_def
      by (cases "pe_last_transit p") (simp_all add: observe_transit_def)
  qed
  ultimately show ?thesis unfolding peer_keeps_def by blast
qed

lemma peer_keeps_probe: "peer_keeps (note_probe_body pb arrival now)"
  by (auto simp: peer_keeps_def peer_ok_def note_probe_body_def Let_def)

lemma peer_keeps_simple:
  "peer_keeps (\<lambda>p. p\<lparr>pe_addr := src\<rparr>)" "peer_keeps (\<lambda>p. p\<lparr>pe_name := name, pe_active := True\<rparr>)"
  by (simp_all add: peer_keeps_def peer_ok_def)

lemma peer_ok_new:
  "length sess = 16 \<Longrightarrow> peer_ok l tok ep sess (peer_new (derive l tok ep sess) src name now)"
  by (simp add: peer_ok_def peer_new_def represents_some_new ra_new_ok)

lemma peer_ok_window:
  "peer_ok l tok ep sess p \<Longrightarrow> peer_ok l tok ep sess (p\<lparr>pe_replay := snd (commit (pe_replay p) n)\<rparr>)"
  by (simp add: peer_ok_def commit_keeps)

text \<open>Both parts of the state under such an update.\<close>

definition engine_ok :: "crates \<Rightarrow> receiver \<Rightarrow> mixer \<Rightarrow> bool" where
  "engine_ok l rc mx \<longleftrightarrow> receiver_ok l rc \<and> mixer_ok mx \<and> linked l rc mx"

lemma linked_entry:
  assumes "linked l rc mx" "\<And>p. pe_active p \<Longrightarrow> pe_active (f p)" "set (stream_ids mx') \<subseteq> set (stream_ids mx)"
  shows "linked l (rc\<lparr>rc_peers := AList.map_entry sess f (rc_peers rc)\<rparr>) mx'"
proof -
  have "\<exists>q. (s, q) \<in> set (AList.map_entry sess f xs) \<and> pe_active q" if "(s, p) \<in> set xs" "pe_active p" for s p and xs :: peers
    using that
  proof (induction xs)
    case Nil
    then show ?case by simp
  next
    case (Cons e xs)
    then show ?case using assms(2) by (cases e) auto
  qed
  then show ?thesis using assms(1,3) unfolding linked_def by (auto; force)
qed

lemma engine_entry:
  assumes "engine_ok l rc mx" "peer_keeps f" "mixer_ok mx'" "stream_ids mx' = stream_ids mx"
  shows "engine_ok l (rc\<lparr>rc_peers := AList.map_entry sess f (rc_peers rc)\<rparr>) mx'"
  using assms receiver_ok_entry[of l rc sess f] linked_entry[of l rc mx f mx' sess]
  by (auto simp: engine_ok_def peer_keeps_def)

lemma engine_counts [simp]:
  "engine_ok l (reject rc) mx \<longleftrightarrow> engine_ok l rc mx" "engine_ok l (accept rc) mx \<longleftrightarrow> engine_ok l rc mx"
  by (simp_all add: engine_ok_def)

lemma mixer_ids [simp]:
  "stream_ids (touch mx i now) = stream_ids mx"
  "stream_ids (snd (push_packet mx i sq pcm now arr)) = stream_ids mx"
  "stream_ids (snd (set_stream_target_ms mx i ms)) = stream_ids mx"
  by (auto simp: stream_ids_def touch_def push_packet_def set_stream_target_ms_def update_stream_ids split: option.split)

lemma apply_audio_ok:
  assumes "engine_ok l rc mx"
  shows "case apply_audio l clk sess body rc mx of (rc', mx') \<Rightarrow> engine_ok l rc' mx'"
proof -
  have mx: "mixer_ok (snd (push_packet (touch mx i n) i (unat (w :: u64)) pcm a b))" for i n w pcm a b
    using assms by (simp add: engine_ok_def push_packet_ok mixer_ops_ok unat_u64_le)
  have "engine_ok l (rc\<lparr>rc_peers := AList.map_entry sess (note_audio au a b) (rc_peers rc)\<rparr>)
      (snd (push_packet (touch mx i n) i (unat (w :: u64)) pcm c d))" for au a b i n w pcm c d
    by (rule engine_entry[OF assms peer_keeps_audio mx]) simp
  then show ?thesis using assms by (simp add: apply_audio_def Let_def split: option.split)
qed

lemma apply_probe_ok:
  assumes "engine_ok l rc mx"
  shows "case apply_probe l clk sess body rc mx of (rc', mx') \<Rightarrow> engine_ok l rc' mx'"
proof -
  have "engine_ok l (rc\<lparr>rc_peers := AList.map_entry sess (note_probe_body pb a b) (rc_peers rc)\<rparr>) (touch mx i n)"
    for pb a b i n
    by (rule engine_entry[OF assms peer_keeps_probe]) (use assms in \<open>simp_all add: engine_ok_def mixer_ops_ok\<close>)
  then show ?thesis using assms by (simp add: apply_probe_def Let_def split: option.split)
qed

lemma ensure_ids: "set (stream_ids (fst (ensure_stream mx i name now))) \<subseteq> insert i (set (stream_ids mx))"
  by (auto simp: ensure_stream_def stream_ids_def Let_def update_stream_ids simp flip: set_map)

lemma map_entry_active:
  "map_of xs sess \<noteq> None \<Longrightarrow> (\<And>p. pe_active (f p)) \<Longrightarrow> \<exists>p. (sess, p) \<in> set (AList.map_entry sess f xs) \<and> pe_active p"
  by (induction xs) (auto split: if_splits)

lemma dispatch_ok:
  assumes ok: "engine_ok l rc mx" and known: "map_of (rc_peers rc) (o_session op) \<noteq> None"
  shows "case dispatch l clk op rc mx of (rc', mx') \<Rightarrow> engine_ok l rc' mx'"
proof -
  have hello: "engine_ok l (rc\<lparr>rc_peers := AList.map_entry (o_session op) (\<lambda>p. p\<lparr>pe_name := name, pe_active := True\<rparr>) (rc_peers rc)\<rparr>)
      (fst (ensure_stream mx (hex_encode l (o_session op)) name now))" for name now
  proof -
    let ?f = "\<lambda>p. p\<lparr>pe_name := name, pe_active := True\<rparr>"
    let ?rc = "rc\<lparr>rc_peers := AList.map_entry (o_session op) ?f (rc_peers rc)\<rparr>"
    have "engine_ok l ?rc mx"
      by (rule engine_entry[OF ok peer_keeps_simple(2)]) (use ok in \<open>simp_all add: engine_ok_def\<close>)
    moreover have "\<exists>p. (o_session op, p) \<in> set (rc_peers ?rc) \<and> pe_active p"
      using map_entry_active[OF known, of ?f] by simp
    ultimately show ?thesis
      using ensure_ids[of mx "hex_encode l (o_session op)" name now]
      unfolding engine_ok_def linked_def by (auto simp: ensure_stream_ok)
  qed
  have "case apply_audio l clk (o_session op) (o_body op) rc mx of (rc', mx') \<Rightarrow> engine_ok l rc' mx'"
    "case apply_probe l clk (o_session op) (o_body op) rc mx of (rc', mx') \<Rightarrow> engine_ok l rc' mx'"
    by (rule apply_audio_ok[OF ok], rule apply_probe_ok[OF ok])
  then show ?thesis using ok hello by (auto simp: dispatch_def Let_def split: option.splits)
qed

lemma receiver_ok_window:
  assumes "receiver_ok l rc" "map_of (rc_peers rc) sess = Some p"
  shows "receiver_ok l (rc\<lparr>rc_peers := AList.map_entry sess (\<lambda>q. q\<lparr>pe_replay := snd (commit (pe_replay p) n)\<rparr>) (rc_peers rc)\<rparr>)"
proof -
  have "represents_some (snd (commit (pe_replay p) n))"
    using receiver_ok_peer[OF assms] by (simp add: peer_ok_def commit_keeps)
  then show ?thesis using assms(1) by (intro receiver_ok_entry) (simp_all add: peer_ok_def)
qed

lemma handle_known_ok:
  assumes ok: "engine_ok l rc mx"
  shows "case handle_known l clk op src rc mx of (rc', mx') \<Rightarrow> engine_ok l rc' mx'"
proof (cases "map_of (rc_peers rc) (o_session op)")
  case None
  then show ?thesis using ok by (simp add: handle_known_def)
next
  case (Some p)
  let ?w = "snd (commit (pe_replay p) (unat (o_counter op)))"
  let ?rc = "rc\<lparr>rc_peers := AList.map_entry (o_session op) (\<lambda>p. p\<lparr>pe_replay := ?w\<rparr>) (rc_peers rc)\<rparr>"
  let ?rc2 = "?rc\<lparr>rc_peers := AList.map_entry (o_session op) (\<lambda>p. p\<lparr>pe_addr := src\<rparr>) (rc_peers ?rc)\<rparr>"
  have ok1: "engine_ok l ?rc mx"
    using ok receiver_ok_window[OF _ Some] linked_entry[of l rc mx "\<lambda>p. p\<lparr>pe_replay := ?w\<rparr>" mx "o_session op"]
    by (simp add: engine_ok_def)
  have ok2: "engine_ok l ?rc2 mx"
    by (rule engine_entry[OF ok1 peer_keeps_simple(1)]) (use ok in \<open>simp_all add: engine_ok_def\<close>)
  have "map_of (rc_peers ?rc2) (o_session op) \<noteq> None" using Some by (simp add: map_entry_get)
  from dispatch_ok[OF ok2 this] ok1 show ?thesis
    by (cases "commit (pe_replay p) (unat (o_counter op))") (simp add: handle_known_def Some Let_def)
qed

lemma rotate_clears: "mixer_ok mx \<Longrightarrow> stream_ids (snd (rotate_epoch rand rc mx)) = []
    \<and> mixer_ok (snd (rotate_epoch rand rc mx))"
proof -
  assume ok: "mixer_ok mx"
  have ids: "stream_ids (fold (\<lambda>i m. remove_stream m i) is m) = filter (\<lambda>i. i \<notin> set is) (stream_ids m)" for "is" m
    by (induction "is" arbitrary: m)
      (auto simp: remove_stream_def stream_ids_def filter_map comp_def intro!: filter_cong arg_cong[where f = "map ms_id"])
  have keep: "mixer_ok m \<Longrightarrow> mixer_ok (fold (\<lambda>i m. remove_stream m i) is m)" for "is" m
    by (induction "is" arbitrary: m) (auto simp: mixer_ops_ok)
  show ?thesis using keep[OF ok] by (simp add: rotate_epoch_def ids)
qed

lemma admit_ok:
  assumes ok: "engine_ok l rc mx" and rand: "length rand = 16" and sess: "length (o_session op) = 16"
    and new: "map_of (rc_peers rc) (o_session op) = None"
  shows "case admit l clk rand (derive l (rc_token rc) (rc_epoch rc) (o_session op)) op src rc mx of
    (rc', mx') \<Rightarrow> engine_ok l rc' mx'"
proof (cases "decode_hello (o_body op)")
  case None
  then show ?thesis using ok by (simp add: admit_def)
next
  case (Some name)
  let ?keys = "derive l (rc_token rc) (rc_epoch rc) (o_session op)"
  let ?i = "hex_encode l (o_session op)"
  show ?thesis
  proof (cases "rc_cap rc \<le> length (rc_peers rc)")
    case True
    have "mixer_ok mx" using ok by (simp add: engine_ok_def)
    note r = rotate_clears[OF this, of rand rc]
    have "engine_ok l (fst (rotate_epoch rand rc mx)) (snd (rotate_epoch rand rc mx))"
      using r rand by (simp add: engine_ok_def linked_def receiver_ok_def rotate_epoch_def)
    then show ?thesis using True Some by (simp add: admit_def case_prod_beta)
  next
    case False
    obtain mx1 res where en: "ensure_stream mx ?i name (clk 0) = (mx1, res)" by (cases "ensure_stream mx ?i name (clk 0)")
    have mx1: "mixer_ok mx1" "set (stream_ids mx1) \<subseteq> insert ?i (set (stream_ids mx))"
      using ok ensure_stream_ok[of mx ?i name "clk 0"] ensure_ids[of mx ?i name "clk 0"] en by (simp_all add: engine_ok_def)
    let ?p = "peer_new ?keys src name (clk 1)"
    obtain fresh win where cm: "commit (pe_replay ?p) (unat (o_counter op)) = (fresh, win)" by (cases "commit (pe_replay ?p) (unat (o_counter op))")
    let ?rc = "rc\<lparr>rc_peers := AList.update (o_session op) (?p\<lparr>pe_replay := win\<rparr>) (rc_peers rc)\<rparr>"
    have "peer_ok l (rc_token rc) (rc_epoch rc) (o_session op) (?p\<lparr>pe_replay := win\<rparr>)"
      using peer_ok_window[OF peer_ok_new[OF sess], of l "rc_token rc" "rc_epoch rc" src name "clk 1" "unat (o_counter op)"] cm by simp
    then have rc: "receiver_ok l ?rc" using ok False by (intro receiver_ok_update) (simp_all add: engine_ok_def)
    have up: "AList.update k v xs = xs @ [(k, v)]" if "map_of xs k = None" for k v and xs :: peers
      using that by (induction xs) (auto split: if_splits)
    have act: "pe_active (?p\<lparr>pe_replay := win\<rparr>)" by (simp add: peer_new_def)
    have lk: "linked l ?rc mx1" unfolding linked_def
    proof
      fix i assume "i \<in> set (stream_ids mx1)"
      then consider "i = ?i" | "i \<in> set (stream_ids mx)" using mx1(2) by blast
      then show "i \<in> hex_encode l ` {s. \<exists>p. (s, p) \<in> set (rc_peers ?rc) \<and> pe_active p}"
      proof cases
        case 1
        have "(o_session op, ?p\<lparr>pe_replay := win\<rparr>) \<in> set (rc_peers ?rc)" by (simp add: up[OF new])
        then show ?thesis using act 1 by blast
      next
        case 2
        then obtain s p where "i = hex_encode l s" "(s, p) \<in> set (rc_peers rc)" "pe_active p"
          using ok by (auto simp: engine_ok_def linked_def)
        then show ?thesis by (auto simp: up[OF new])
      qed
    qed
    have same: "mx1 = mx" if "res = Inl e" for e
      using en that by (auto simp: ensure_stream_def Let_def split: if_splits)
    have gone: "engine_ok l rc (remove_stream mx1 ?i)"
    proof -
      have "set (stream_ids (remove_stream mx1 ?i)) \<subseteq> set (stream_ids mx)"
        using mx1(2) by (auto simp: remove_stream_def stream_ids_def)
      then show ?thesis using ok mx1(1) by (auto simp: engine_ok_def linked_def mixer_ops_ok)
    qed
    show ?thesis
      using False Some en cm rc lk mx1(1) ok same gone
      by (cases res) (simp_all add: admit_def Let_def engine_ok_def)
  qed
qed

lemma open_packet_view:
  "open_packet l d pkt = Some op \<Longrightarrow> parse_packet pkt = Some v \<Longrightarrow>
    o_kind op = kind v \<and> o_epoch op = epoch v \<and> o_session op = session v \<and> o_counter op = counter v"
  by (auto simp: open_packet_def split: sum.splits)

lemma handle_datagram_ok:
  assumes ok: "engine_ok l rc mx" and rand: "length rand = 16"
  shows "case handle_datagram l clk rand rc mx pkt src of (rc', mx') \<Rightarrow> engine_ok l rc' mx'"
proof (cases "parse_packet pkt")
  case None
  then show ?thesis using ok by (simp add: handle_datagram_def)
next
  case (Some v)
  have len: "length (session v) = 16" using assemble_parse[OF Some] by simp
  show ?thesis
  proof (cases "map_of (rc_peers rc) (session v)")
    case new: None
    have "case admit l clk rand (derive l (rc_token rc) (rc_epoch rc) (session v)) op src rc mx of
        (rc', mx') \<Rightarrow> engine_ok l rc' mx'"
      if "open_packet l d pkt = Some op" for op d
      using admit_ok[OF ok rand, of op clk src] open_packet_view[OF that Some] len new by simp
    then show ?thesis using ok Some new
      by (auto simp: handle_datagram_def Let_def split: option.split)
  next
    case (Some p)
    then show ?thesis using ok \<open>parse_packet pkt = Some v\<close> handle_known_ok[OF ok, of clk _ src]
      by (auto simp: handle_datagram_def Let_def split: option.split)
  qed
qed

lemma adapt_peer_ok: "peer_ok l tok ep sess p \<Longrightarrow> peer_ok l tok ep sess (adapt_peer mx i p)"
  using ra_observe_ok(1)
  by (auto simp: peer_ok_def adapt_peer_def Let_def clamp_def case_prod_beta)

lemma linked_update:
  assumes "linked l rc mx" "pe_active p" "set (stream_ids mx') \<subseteq> set (stream_ids mx)"
  shows "linked l (rc\<lparr>rc_peers := AList.update sess p (rc_peers rc)\<rparr>) mx'"
proof -
  have "(s, q) \<in> set xs \<Longrightarrow> pe_active q \<Longrightarrow> \<exists>q'. (s, q') \<in> set (AList.update sess p xs) \<and> pe_active q'"
    for s q and xs :: peers
    using assms(2) by (induction xs) (auto split: if_splits)
  then show ?thesis using assms(1,3) unfolding linked_def by (auto; force)
qed

text \<open>The peer behind a feedback round, and the datagram of the round.\<close>

definition told :: "mixer \<Rightarrow> rstring \<Rightarrow> peer \<Rightarrow> peer" where
  "told mx i p = (adapt_peer mx i p)\<lparr>pe_counter := sat_add u64_max (pe_counter p) 1\<rparr>"

definition feedback_packet :: "crates \<Rightarrow> mixer \<Rightarrow> byte list \<Rightarrow> byte list \<Rightarrow> nat \<Rightarrow> peer \<Rightarrow> byte list option" where
  "feedback_packet l mx ep sess read p =
     (let p1 = told mx (hex_encode l sess) p
      in seal_packet l (receiver_to_sender (pe_keys p)) ep sess (of_nat (pe_counter p1)) KIND_FEEDBACK
           (encode_feedback (feedback_of (read - pe_arrival p) p1)))"

lemma feedback_one_cases:
  assumes "map_of (rc_peers rc) sess = Some p" "feedback_is_due now p"
  shows "feedback_one l now read sess rc mx =
    (let p1 = told mx (hex_encode l sess) p; pkt = feedback_packet l mx (rc_epoch rc) sess read p;
         p2 = (case pkt of Some _ \<Rightarrow> p1\<lparr>pe_last_feedback := Some now\<rparr> | None \<Rightarrow> p1)
     in (rc\<lparr>rc_peers := AList.update sess p2 (rc_peers rc)\<rparr>,
         snd (set_stream_target_ms mx (hex_encode l sess) (pe_buffer_ms p1)),
         case pkt of Some q \<Rightarrow> [(pe_addr p, q)] | None \<Rightarrow> []))"
proof -
  have ap: "pe_counter (adapt_peer mx i p) = pe_counter p" "pe_keys (adapt_peer mx i p) = pe_keys p"
    "pe_addr (adapt_peer mx i p) = pe_addr p" "pe_arrival (adapt_peer mx i p) = pe_arrival p" for i
    by (simp_all add: adapt_peer_def Let_def case_prod_beta)
  have fb: "feedback_of e (p\<lparr>pe_counter := c\<rparr>) = feedback_of e p" for e p c
    by (simp add: feedback_of_def probe_recv_spans_def probe_recv_span_def)
  have nz: "sat_add u64_max (pe_counter p) 1 \<noteq> 0" by (simp add: sat_add_def u64_max_def)
  show ?thesis
    unfolding feedback_one_def assms(1) option.case Let_def told_def feedback_packet_def
    using assms(2) nz ap fb by (simp split: option.split)
qed

lemma feedback_one_ok:
  assumes ok: "engine_ok l rc mx"
  shows "case feedback_one l now read sess rc mx of (rc', mx', out) \<Rightarrow> engine_ok l rc' mx'"
proof (cases "map_of (rc_peers rc) sess")
  case None
  then show ?thesis using ok by (simp add: feedback_one_def)
next
  case (Some p)
  show ?thesis
  proof (cases "feedback_is_due now p")
    case False
    then show ?thesis using ok Some by (simp add: feedback_one_def)
  next
    case True
    have act: "pe_active (adapt_peer mx i p)" for i
      using True by (simp add: feedback_is_due_def adapt_peer_def Let_def case_prod_beta)
    have p: "peer_ok l (rc_token rc) (rc_epoch rc) sess (adapt_peer mx i p)" for i
      using ok Some by (auto simp: engine_ok_def intro!: adapt_peer_ok receiver_ok_peer)
    have mx: "mixer_ok (snd (set_stream_target_ms mx i ms))" for i ms
      using ok by (simp add: engine_ok_def mixer_ops_ok)
    have upd: "engine_ok l (rc\<lparr>rc_peers := AList.update sess q (rc_peers rc)\<rparr>) (snd (set_stream_target_ms mx i ms))"
      if "peer_ok l (rc_token rc) (rc_epoch rc) sess q" "pe_active q" for q i ms
      using ok that mx Some linked_update[of l rc mx q "snd (set_stream_target_ms mx i ms)" sess]
        receiver_ok_update[of l rc sess q] by (simp add: engine_ok_def)
    show ?thesis
      unfolding feedback_one_cases[OF Some True] Let_def case_prod_conv
      by (rule upd) (use p act in \<open>simp_all add: told_def peer_ok_def sat_add_def split: option.split\<close>)
  qed
qed

lemma feedback_due_ok:
  "engine_ok l rc mx \<Longrightarrow> case feedback_due l now clk order rc mx of (rc', mx', out) \<Rightarrow> engine_ok l rc' mx'"
proof (induction order arbitrary: rc mx)
  case Nil
  then show ?case by simp
next
  case (Cons s order)
  obtain rc1 mx1 out where one: "feedback_one l now (clk s) s rc mx = (rc1, mx1, out)"
    by (cases "feedback_one l now (clk s) s rc mx") auto
  have "engine_ok l rc1 mx1" using feedback_one_ok[OF Cons.prems, of now "clk s" s] one by simp
  from Cons.IH[OF this] one show ?case by (auto simp: case_prod_beta Let_def)
qed

lemma expire_ok:
  assumes ok: "engine_ok l rc mx"
  shows "case expire l idle now rc mx of (rc', mx') \<Rightarrow> engine_ok l rc' mx'"
proof -
  obtain mx1 gone where ex: "expire_idle mx idle now = (mx1, gone)" by (cases "expire_idle mx idle now")
  let ?g = "\<lambda>sess p. if hex_encode l sess \<in> set gone then p\<lparr>pe_active := False\<rparr> else p"
  let ?rc = "rc\<lparr>rc_peers := map (\<lambda>(sess, p). (sess, ?g sess p)) (rc_peers rc)\<rparr>"
  have mx: "mixer_ok mx" "mixer_ok mx1" using ok mixer_ops_ok(7)[of mx idle now] ex by (simp_all add: engine_ok_def)
  have sub: "set (stream_ids mx1) \<subseteq> set (stream_ids mx)"
    using ex by (auto simp: expire_idle_def Let_def stream_ids_def)
  have apart: "set (stream_ids mx1) \<inter> set gone = {}"
  proof -
    have inj: "x = y" if "x \<in> set (mx_streams mx)" "y \<in> set (mx_streams mx)" "ms_id x = ms_id y" for x y
      using mx(1) that unfolding mixer_ok_def stream_ids_def distinct_map inj_on_def by blast
    show ?thesis using ex by (auto simp: expire_idle_def Let_def stream_ids_def dest: inj)
  qed
  have "receiver_ok l ?rc"
    by (rule receiver_ok_map) (use ok in \<open>auto simp: engine_ok_def peer_ok_def\<close>)
  moreover have "linked l ?rc mx1" unfolding linked_def
  proof
    fix i assume i: "i \<in> set (stream_ids mx1)"
    then obtain s p where s: "i = hex_encode l s" "(s, p) \<in> set (rc_peers rc)" "pe_active p"
      using ok sub by (force simp: engine_ok_def linked_def)
    then have "?g s p = p" using i apart by auto
    then have "(s, p) \<in> set (rc_peers ?rc)" using s(2) by force
    then show "i \<in> hex_encode l ` {s. \<exists>p. (s, p) \<in> set (rc_peers ?rc) \<and> pe_active p}" using s(1,3) by blast
  qed
  ultimately show ?thesis using mx ex by (simp add: expire_def engine_ok_def)
qed

section \<open>Runs\<close>

text \<open>
  What happens to a receiver: datagrams arrive, feedback is due, idle streams expire, and the other
  threads pull from the mixer or set its gains and targets. Only the receiver adds and removes
  streams.
\<close>

datatype receiver_op =
    RDatagram "nat \<Rightarrow> nat" "byte list" "byte list" socket_addr
  | RFeedback nat "byte list \<Rightarrow> nat" "byte list list"
  | RExpire nat nat
  | RMixer mixer_op

fun outside_op :: "mixer_op \<Rightarrow> bool" where
  "outside_op (MPull clk busy now out n) = True"
| "outside_op (MMaster g) = True"
| "outside_op (MGain i g) = True"
| "outside_op (MTargetMs i ms) = True"
| "outside_op (MTargetPackets n) = True"
| "outside_op x = False"

fun receiver_step :: "crates \<Rightarrow> receiver_op \<Rightarrow> receiver \<times> mixer \<Rightarrow> (receiver \<times> mixer) option" where
  "receiver_step l (RDatagram clk rand pkt src) (rc, mx) = Some (handle_datagram l clk rand rc mx pkt src)"
| "receiver_step l (RFeedback now clk order) (rc, mx) =
     (case feedback_due l now clk order rc mx of (rc', mx', _) \<Rightarrow> Some (rc', mx'))"
| "receiver_step l (RExpire idle now) (rc, mx) = Some (expire l idle now rc mx)"
| "receiver_step l (RMixer x) (rc, mx) = map_option (Pair rc) (mixer_step x mx)"

fun receiver_run :: "crates \<Rightarrow> receiver_op list \<Rightarrow> receiver \<times> mixer \<Rightarrow> (receiver \<times> mixer) option" where
  "receiver_run l [] st = Some st"
| "receiver_run l (x # xs) st = Option.bind (receiver_step l x st) (receiver_run l xs)"

fun op_valid :: "receiver_op \<Rightarrow> bool" where
  "op_valid (RDatagram clk rand pkt src) \<longleftrightarrow> length rand = 16"
| "op_valid (RMixer x) \<longleftrightarrow> outside_op x"
| "op_valid x \<longleftrightarrow> True"

lemma outside_ids:
  assumes "mixer_ok mx" "outside_op x" "mixer_step x mx = Some mx'"
  shows "stream_ids mx' = stream_ids mx"
proof (cases x)
  case (MPull clk busy now out n)
  show ?thesis
  proof (cases "busy \<or> bytes_per_frame (mx_format mx) = 0 \<or> n = 0 \<or> length out < bytes_per_frame (mx_format mx)")
    case True
    then have "\<exists>out'. mixer_pull clk busy now mx out n = Some (mx, out')"
      by (auto simp: mixer_pull_def Let_def)
    then show ?thesis using assms(3) MPull by auto
  next
    case False
    then have "0 < unat (channels (mx_format mx))" "0 < n" "bytes_per_frame (mx_format mx) \<le> length out"
      by (simp_all add: bytes_per_frame_def)
    with mixer_pull_spec[OF assms(1) this, of clk now] False assms(3) MPull show ?thesis by auto
  qed
qed (use assms in \<open>auto simp: stream_ids_def set_master_gain_def set_stream_gain_def set_stream_target_ms_def
    mixer_set_target_packets_def update_stream_ids comp_def split: if_splits\<close>)

lemma receiver_step_ok:
  assumes ok: "engine_ok l rc mx" and valid: "op_valid x"
  shows "\<exists>rc' mx'. receiver_step l x (rc, mx) = Some (rc', mx') \<and> engine_ok l rc' mx'"
proof (cases x)
  case (RDatagram clk rand pkt src)
  then show ?thesis using handle_datagram_ok[OF ok, of rand clk pkt src] valid
    by (cases "handle_datagram l clk rand rc mx pkt src") auto
next
  case (RFeedback now clk order)
  then show ?thesis using feedback_due_ok[OF ok, of now clk order]
    by (cases "feedback_due l now clk order rc mx") auto
next
  case (RExpire idle now)
  then show ?thesis using expire_ok[OF ok, of idle now] by (cases "expire l idle now rc mx") auto
next
  case (RMixer y)
  have mx: "mixer_ok mx" using ok by (simp add: engine_ok_def)
  obtain mx' where "mixer_step y mx = Some mx'" "mixer_ok mx'" using mixer_step_ok[OF mx] by blast
  with outside_ids[OF mx _ this(1)] valid RMixer ok show ?thesis by (simp add: engine_ok_def linked_def)
qed

lemma receiver_run_ok:
  "engine_ok l rc mx \<Longrightarrow> list_all op_valid xs \<Longrightarrow>
    \<exists>rc' mx'. receiver_run l xs (rc, mx) = Some (rc', mx') \<and> engine_ok l rc' mx'"
proof (induction xs arbitrary: rc mx)
  case Nil
  then show ?case by simp
next
  case (Cons x xs)
  then obtain rc1 mx1 where "receiver_step l x (rc, mx) = Some (rc1, mx1)" "engine_ok l rc1 mx1"
    using receiver_step_ok[OF Cons.prems(1), of x] by auto
  with Cons.IH[of rc1 mx1] Cons.prems(2) show ?case by auto
qed

lemma engine_ok_new: "length ep = 16 \<Longrightarrow> engine_ok l (with_history_cap tok ep cap) (mixer_new fmt)"
  by (simp add: engine_ok_def receiver_ok_def linked_def with_history_cap_def mixer_new_ok)
    (simp add: mixer_new_def stream_ids_def Let_def)

text \<open>
  Whatever datagrams arrive, and however feedback, expiry and the audio callback interleave with
  them, every run of a new receiver ends in a state where no more sessions are remembered than the
  cap allows, each under the keys derived from the token, the epoch and its own identifier; the
  mixer is well-formed and each of its streams belongs to an active session.
\<close>

theorem receiver_reachable_ok:
  assumes "length ep = 16" and "list_all op_valid xs"
  shows "\<exists>rc mx. receiver_run l xs (with_history_cap tok ep cap, mixer_new fmt) = Some (rc, mx)
    \<and> history_len rc \<le> rc_cap rc \<and> mixer_ok mx \<and> linked l rc mx
    \<and> (\<forall>(sess, p) \<in> set (rc_peers rc). pe_keys p = derive l (rc_token rc) (rc_epoch rc) sess
        \<and> 15 \<le> pe_buffer_ms p \<and> pe_buffer_ms p \<le> 150)"
  using receiver_run_ok[OF engine_ok_new[OF assms(1)] assms(2), of l tok cap fmt]
  by (fastforce simp: engine_ok_def receiver_ok_def peer_ok_def history_len_def)

theorem receiver_reachable_ok_witness:
  "\<exists>rc mx. receiver_run demo_crates [RDatagram id (replicate 16 9) [1, 2, 3] (V4 (10, 0, 0, 1), 7), RExpire 5 6]
      (with_history_cap (replicate 32 7) (replicate 16 5) 2, mixer_new canonical) = Some (rc, mx) \<and> history_len rc \<le> rc_cap rc"
  using receiver_reachable_ok[of "replicate 16 5"
      "[RDatagram id (replicate 16 9) [1, 2, 3] (V4 (10, 0, 0, 1), 7), RExpire 5 6]" demo_crates "replicate 32 7" 2 canonical]
  by (auto simp del: receiver_run.simps)

end
