(* ===== verification/Receiver_Auth.thy ===== *)
theory Receiver_Auth
  imports Receiver_Ok
begin

text \<open>
  Authenticity and freshness at the receiver: only a datagram sealed under the keys of its session
  changes anything, and each such datagram takes effect at most once.
\<close>

section \<open>Authenticity\<close>

lemma map_entry_same: "map_of xs k = Some p \<Longrightarrow> f p = p \<Longrightarrow> AList.map_entry k f xs = xs"
  by (induction xs) (auto split: if_splits)

lemma fresh_window_takes: "n \<noteq> 0 \<Longrightarrow> fst (commit (new_window w) n)"
  using commit_represents(1)[OF new_window_represents, of w n] by simp

text \<open>A datagram of a known session, by its window's verdict.\<close>

lemma handle_known_fresh:
  assumes "map_of (rc_peers rc) (o_session op) = Some p"
  defines "c \<equiv> commit (pe_replay p) (unat (o_counter op))"
  shows "handle_known l clk op src rc mx =
    (let rc1 = rc\<lparr>rc_peers := AList.map_entry (o_session op) (\<lambda>p. p\<lparr>pe_replay := snd c\<rparr>) (rc_peers rc)\<rparr>
     in if \<not> fst c then (reject rc1, mx)
        else dispatch l clk op (rc1\<lparr>rc_peers := AList.map_entry (o_session op) (\<lambda>p. p\<lparr>pe_addr := src\<rparr>) (rc_peers rc1)\<rparr>) mx)"
  by (simp add: handle_known_def assms(1) c_def case_prod_beta Let_def)

lemma handle_known_stale:
  assumes "receiver_ok l rc" "map_of (rc_peers rc) (o_session op) = Some p"
    "\<not> fst (commit (pe_replay p) (unat (o_counter op)))"
  shows "handle_known l clk op src rc mx = (reject rc, mx)"
proof -
  have "represents_some (pe_replay p)" using receiver_ok_peer[OF assms(1,2)] by (simp add: peer_ok_def)
  from commit_refuses_same[OF this assms(3)]
  have "AList.map_entry (o_session op) (\<lambda>q. q\<lparr>pe_replay := snd (commit (pe_replay p) (unat (o_counter op)))\<rparr>) (rc_peers rc) = rc_peers rc"
    by (intro map_entry_same[OF assms(2)]) simp
  then show ?thesis using assms(3) by (simp add: handle_known_fresh[OF assms(2)])
qed

text \<open>The datagrams that reach the peers.\<close>

definition opens_as :: "crates \<Rightarrow> receiver \<Rightarrow> byte list \<Rightarrow> header_view \<Rightarrow> opened \<Rightarrow> bool" where
  "opens_as l rc pkt v op \<longleftrightarrow> parse_packet pkt = Some v \<and> epoch v = rc_epoch rc
     \<and> open_packet l (sender_to_receiver (derive l (rc_token rc) (rc_epoch rc) (session v))) pkt = Some op
     \<and> o_kind op = kind v \<and> o_epoch op = epoch v \<and> o_session op = session v \<and> o_counter op = counter v"

lemma handle_datagram_cases:
  assumes ok: "receiver_ok l rc"
  shows "handle_datagram l clk rand rc mx pkt src = (reject rc, mx)
    \<or> (\<exists>v op. opens_as l rc pkt v op \<and>
        (map_of (rc_peers rc) (session v) = None \<and> kind v = KIND_HELLO
          \<and> handle_datagram l clk rand rc mx pkt src
            = admit l clk rand (derive l (rc_token rc) (rc_epoch rc) (session v)) op src rc mx
        \<or> (\<exists>p. map_of (rc_peers rc) (session v) = Some p \<and> fst (commit (pe_replay p) (unat (counter v)))
          \<and> handle_datagram l clk rand rc mx pkt src = handle_known l clk op src rc mx)))"
proof (cases "parse_packet pkt")
  case None
  then show ?thesis by (simp add: handle_datagram_def)
next
  case v: (Some v)
  show ?thesis
  proof (cases "epoch v \<noteq> rc_epoch rc \<or> counter v = 0")
    case True
    then show ?thesis using v by (simp add: handle_datagram_def)
  next
    case False
    let ?d = "sender_to_receiver (derive l (rc_token rc) (rc_epoch rc) (session v))"
    show ?thesis
    proof (cases "map_of (rc_peers rc) (session v)")
      case new: None
      show ?thesis
      proof (cases "kind v \<noteq> KIND_HELLO \<or> MAX_STREAMS \<le> peer_count rc \<or> open_packet l ?d pkt = None")
        case True
        then show ?thesis using v False new by (auto simp: handle_datagram_def Let_def)
      next
        case ready: False
        then obtain op where op: "open_packet l ?d pkt = Some op" by blast
        then have "opens_as l rc pkt v op" using open_packet_view[OF op v] v False by (simp add: opens_as_def)
        moreover have "handle_datagram l clk rand rc mx pkt src
            = admit l clk rand (derive l (rc_token rc) (rc_epoch rc) (session v)) op src rc mx"
          using v False new op ready by (simp add: handle_datagram_def Let_def)
        ultimately show ?thesis using new ready by blast
      qed
    next
      case p: (Some p)
      have keys: "pe_keys p = derive l (rc_token rc) (rc_epoch rc) (session v)"
        using receiver_ok_peer[OF ok p] by (simp add: peer_ok_def)
      show ?thesis
      proof (cases "open_packet l ?d pkt")
        case None
        then show ?thesis using v False p keys by (simp add: handle_datagram_def Let_def)
      next
        case op: (Some op)
        note view = open_packet_view[OF op v]
        have run: "handle_datagram l clk rand rc mx pkt src = handle_known l clk op src rc mx"
          using v False p keys op by (simp add: handle_datagram_def Let_def)
        have as: "opens_as l rc pkt v op" using view v False op by (simp add: opens_as_def)
        show ?thesis
        proof (cases "fst (commit (pe_replay p) (unat (counter v)))")
          case True
          then show ?thesis using as p run by blast
        next
          case stale: False
          have "handle_known l clk op src rc mx = (reject rc, mx)"
            by (rule handle_known_stale[OF ok]) (use view p stale in simp_all)
          then show ?thesis using run by simp
        qed
      qed
    qed
  qed
qed

text \<open>
  C2. Authenticity. A datagram that changes a receiver in any way, beyond counting it as rejected,
  was sealed with the key of the token, of the receiver's current epoch and of the session it names;
  it is a hello when the session is unknown, and its counter is fresh in the session's replay window
  otherwise.
\<close>

theorem datagram_authentic:
  assumes "hash_ok l" and "aead_ok l" and "receiver_ok l rc"
    and "handle_datagram l clk rand rc mx pkt src \<noteq> (reject rc, mx)"
  shows "\<exists>sess ctr knd body. length sess = 16
    \<and> seal_packet l (sender_to_receiver (derive l (rc_token rc) (rc_epoch rc) sess)) (rc_epoch rc) sess ctr knd body = Some pkt
    \<and> (case map_of (rc_peers rc) sess of
         None \<Rightarrow> knd = KIND_HELLO
       | Some p \<Rightarrow> fst (commit (pe_replay p) (unat ctr)))"
proof -
  obtain v op where as: "opens_as l rc pkt v op"
    and rest: "case map_of (rc_peers rc) (session v) of None \<Rightarrow> kind v = KIND_HELLO
       | Some p \<Rightarrow> fst (commit (pe_replay p) (unat (counter v)))"
    using handle_datagram_cases[OF assms(3), of clk rand mx pkt src] assms(4) by fastforce
  let ?d = "sender_to_receiver (derive l (rc_token rc) (rc_epoch rc) (session v))"
  have "open_packet l ?d pkt = Some op" using as by (simp add: opens_as_def)
  from open_packet_sound[OF assms(2) derive_ok(1)[OF assms(1)] this] as rest show ?thesis
    by (intro exI[of _ "session v"] exI[of _ "counter v"] exI[of _ "kind v"] exI[of _ "o_body op"])
      (simp add: opens_as_def)
qed

section \<open>Each datagram takes effect once\<close>

text \<open>The sessions after a step are those before, each window with at most one more commit.\<close>

definition keeps_windows :: "receiver \<Rightarrow> receiver \<Rightarrow> bool" where
  "keeps_windows rc rc' \<longleftrightarrow> rc_epoch rc' = rc_epoch rc \<and>
     (\<forall>s p. map_of (rc_peers rc) s = Some p \<longrightarrow>
        (\<exists>p'. map_of (rc_peers rc') s = Some p' \<and> pe_replay p' = pe_replay p))"

definition moves_windows :: "receiver \<Rightarrow> receiver \<Rightarrow> bool" where
  "moves_windows rc rc' \<longleftrightarrow> rc_epoch rc' = rc_epoch rc \<and>
     (\<forall>s p. map_of (rc_peers rc) s = Some p \<longrightarrow>
        (\<exists>p'. map_of (rc_peers rc') s = Some p'
          \<and> (pe_replay p' = pe_replay p \<or> (\<exists>n. pe_replay p' = snd (commit (pe_replay p) n)))))"

lemma keeps_moves: "keeps_windows rc rc' \<Longrightarrow> moves_windows rc rc'"
  unfolding keeps_windows_def moves_windows_def by blast

lemma keeps_refl [simp]: "keeps_windows rc (reject rc)" "keeps_windows rc (accept rc)" "keeps_windows rc rc"
  by (simp_all add: keeps_windows_def reject_def accept_def)

lemma keeps_trans: "keeps_windows rc rc1 \<Longrightarrow> keeps_windows rc1 rc2 \<Longrightarrow> keeps_windows rc rc2"
  by (simp add: keeps_windows_def) (metis (full_types))

lemma moves_keeps: "moves_windows rc rc1 \<Longrightarrow> keeps_windows rc1 rc2 \<Longrightarrow> moves_windows rc rc2"
  by (simp add: keeps_windows_def moves_windows_def) (metis (full_types))

lemma keeps_accept: "keeps_windows rc rc1 \<Longrightarrow> keeps_windows rc (accept rc1)"
  by (simp add: keeps_windows_def accept_def)

lemma keeps_entry:
  "(\<And>p. pe_replay (f p) = pe_replay p) \<Longrightarrow> keeps_windows rc (rc\<lparr>rc_peers := AList.map_entry s f (rc_peers rc)\<rparr>)"
  by (auto simp: keeps_windows_def map_entry_get)

lemma replay_kept [simp]:
  "pe_replay (note_audio au a b p) = pe_replay p" "pe_replay (note_probe_body pb a b p) = pe_replay p"
  "pe_replay (adapt_peer mx i p) = pe_replay p"
proof -
  obtain r m a' b' c where o: "observe_audio_seq p (unat (seq au))
      = p\<lparr>pe_received := r, pe_max_seq := m, pe_lost := a', pe_seen := b', pe_cursor := c\<rparr>"
    using observe_audio_seq_frame by blast
  show "pe_replay (note_audio au a b p) = pe_replay p"
    unfolding note_audio_def o Let_def by (cases "pe_last_transit p") (simp_all add: observe_transit_def)
  show "pe_replay (note_probe_body pb a b p) = pe_replay p" by (simp add: note_probe_body_def Let_def)
  show "pe_replay (adapt_peer mx i p) = pe_replay p" by (simp add: adapt_peer_def Let_def case_prod_beta)
qed

lemma dispatch_keeps: "keeps_windows rc (fst (dispatch l clk op rc mx))"
  by (simp add: dispatch_def apply_audio_def apply_probe_def Let_def keeps_accept keeps_entry split: option.split)

lemma feedback_keeps: "keeps_windows rc (fst (feedback_due l now clk order rc mx))"
proof (induction order arbitrary: rc mx)
  case Nil
  then show ?case by simp
next
  case (Cons s order)
  have one: "keeps_windows rc (fst (feedback_one l now read s rc mx))" for read
  proof (cases "map_of (rc_peers rc) s")
    case None
    then show ?thesis by (simp add: feedback_one_def)
  next
    case (Some p)
    show ?thesis
    proof (cases "feedback_is_due now p")
      case True
      show ?thesis unfolding feedback_one_cases[OF Some True] using Some
        by (auto simp: keeps_windows_def told_def update_conv' Let_def split: option.split)
    qed (simp add: feedback_one_def Some)
  qed
  obtain rc1 mx1 out where r: "feedback_one l now (clk s) s rc mx = (rc1, mx1, out)"
    by (cases "feedback_one l now (clk s) s rc mx") auto
  with one[of "clk s"] have "keeps_windows rc rc1" by simp
  from keeps_trans[OF this Cons.IH[of rc1 mx1]] r show ?case by (simp add: case_prod_beta Let_def)
qed

lemma expire_keeps: "keeps_windows rc (fst (expire l idle now rc mx))"
proof -
  have get: "map_of (map (\<lambda>(s, p). (s, g s p)) xs) s = map_option (g s) (map_of xs s)" for g s and xs :: peers
    by (induction xs) auto
  show ?thesis
    unfolding keeps_windows_def expire_def by (simp add: get split: prod.split)
qed

lemma known_moves:
  assumes "map_of (rc_peers rc) (o_session op) = Some p"
  shows "moves_windows rc (fst (handle_known l clk op src rc mx))"
proof -
  let ?w = "snd (commit (pe_replay p) (unat (o_counter op)))"
  let ?rc = "rc\<lparr>rc_peers := AList.map_entry (o_session op) (\<lambda>p. p\<lparr>pe_replay := ?w\<rparr>) (rc_peers rc)\<rparr>"
  let ?rc2 = "?rc\<lparr>rc_peers := AList.map_entry (o_session op) (\<lambda>p. p\<lparr>pe_addr := src\<rparr>) (rc_peers ?rc)\<rparr>"
  have m: "moves_windows rc ?rc" using assms by (auto simp: moves_windows_def map_entry_get)
  have "keeps_windows ?rc ?rc2" by (rule keeps_entry) simp
  from keeps_trans[OF this dispatch_keeps[of ?rc2 l clk op mx]] moves_keeps[OF m] have
    "moves_windows rc (fst (dispatch l clk op ?rc2 mx))" by blast
  moreover have "moves_windows rc (reject ?rc)" by (rule moves_keeps[OF m keeps_refl(1)])
  ultimately show ?thesis by (simp add: handle_known_fresh[OF assms] Let_def)
qed

lemma admit_moves:
  assumes "map_of (rc_peers rc) (o_session op) = None"
  shows "moves_windows rc (fst (admit l clk rand keys op src rc mx))
    \<or> fst (admit l clk rand keys op src rc mx) = reject (rc\<lparr>rc_epoch := rand, rc_peers := []\<rparr>)"
proof -
  have "keeps_windows rc (accept (rc\<lparr>rc_peers := AList.update (o_session op) p (rc_peers rc)\<rparr>))" for p
    using assms by (auto simp: keeps_windows_def accept_def update_conv')
  then show ?thesis using keeps_moves
    by (auto simp: admit_def rotate_epoch_def case_prod_beta Let_def split: option.splits sum.splits)
qed

definition spent :: "receiver \<Rightarrow> byte list \<Rightarrow> bool" where
  "spent rc pkt \<longleftrightarrow> (\<forall>v. parse_packet pkt = Some v \<longrightarrow> epoch v \<noteq> rc_epoch rc
     \<or> (\<exists>p. map_of (rc_peers rc) (session v) = Some p \<and> consumed (pe_replay p) (unat (counter v))))"

lemma spent_refused:
  assumes "receiver_ok l rc" "spent rc pkt"
  shows "handle_datagram l clk rand rc mx pkt src = (reject rc, mx)"
  using handle_datagram_cases[OF assms(1), of clk rand mx pkt src] assms(2)
  by (auto simp: spent_def opens_as_def consumed_def)

lemma moves_spent:
  assumes "receiver_ok l rc" "moves_windows rc rc'" "spent rc pkt"
  shows "spent rc' pkt"
  unfolding spent_def
proof (intro allI impI)
  fix v assume v: "parse_packet pkt = Some v"
  show "epoch v \<noteq> rc_epoch rc' \<or> (\<exists>p. map_of (rc_peers rc') (session v) = Some p \<and> consumed (pe_replay p) (unat (counter v)))"
  proof (cases "epoch v = rc_epoch rc")
    case False
    then show ?thesis using assms(2) by (simp add: moves_windows_def)
  next
    case True
    then obtain p where p: "map_of (rc_peers rc) (session v) = Some p" "consumed (pe_replay p) (unat (counter v))"
      using assms(3) v by (auto simp: spent_def)
    obtain p' where p': "map_of (rc_peers rc') (session v) = Some p'"
      "pe_replay p' = pe_replay p \<or> (\<exists>n. pe_replay p' = snd (commit (pe_replay p) n))"
      using assms(2) p(1) unfolding moves_windows_def by blast
    have "represents_some (pe_replay p)" using receiver_ok_peer[OF assms(1) p(1)] by (simp add: peer_ok_def)
    then have "consumed (pe_replay p') (unat (counter v))"
      using p(2) p'(2) replay.spent_stays by metis
    then show ?thesis using p'(1) by blast
  qed
qed

lemma rotated_spent:
  "parse_packet pkt = Some v \<Longrightarrow> epoch v \<noteq> rand \<Longrightarrow> spent (reject (rc\<lparr>rc_epoch := rand, rc_peers := []\<rparr>)) pkt"
  by (simp add: spent_def reject_def)

lemma spent_none: "parse_packet pkt = None \<Longrightarrow> spent rc pkt"
  by (simp add: spent_def)

text \<open>An effective datagram spends itself.\<close>

lemma effect_spends:
  assumes ok: "receiver_ok l rc" and rand: "rand \<noteq> rc_epoch rc"
    and eff: "handle_datagram l clk rand rc mx pkt src \<noteq> (reject rc, mx)"
  shows "spent (fst (handle_datagram l clk rand rc mx pkt src)) pkt"
proof -
  obtain v op where as: "opens_as l rc pkt v op"
    and rest: "map_of (rc_peers rc) (session v) = None
          \<and> handle_datagram l clk rand rc mx pkt src
            = admit l clk rand (derive l (rc_token rc) (rc_epoch rc) (session v)) op src rc mx
        \<or> (\<exists>p. map_of (rc_peers rc) (session v) = Some p \<and> fst (commit (pe_replay p) (unat (counter v)))
          \<and> handle_datagram l clk rand rc mx pkt src = handle_known l clk op src rc mx)"
    using handle_datagram_cases[OF ok, of clk rand mx pkt src] eff by blast
  let ?keys = "derive l (rc_token rc) (rc_epoch rc) (session v)"
  have v: "parse_packet pkt = Some v" "epoch v = rc_epoch rc" "o_session op = session v" "o_counter op = counter v"
    using as by (simp_all add: opens_as_def)
  have ctr: "unat (counter v) \<noteq> 0" using parse_packet_ctr[OF v(1)] by (simp add: unat_eq_0)
  from rest show ?thesis
  proof (elim disjE exE conjE)
    assume new: "map_of (rc_peers rc) (session v) = None"
      and run: "handle_datagram l clk rand rc mx pkt src = admit l clk rand ?keys op src rc mx"
    obtain name where name: "decode_hello (o_body op) = Some name"
      using eff run by (cases "decode_hello (o_body op)") (simp_all add: admit_def)
    show ?thesis
    proof (cases "rc_cap rc \<le> length (rc_peers rc)")
      case True
      have "epoch v \<noteq> rand" using v(2) rand by simp
      from rotated_spent[OF v(1) this] True name show ?thesis
        unfolding run by (simp add: admit_def rotate_epoch_def)
    next
      case False
      obtain mx1 res where en: "ensure_stream mx (hex_encode l (session v)) name (clk 0) = (mx1, res)"
        by (cases "ensure_stream mx (hex_encode l (session v)) name (clk 0)")
      let ?w = "commit (new_window 2048) (unat (counter v))"
      have "res = Inr ()"
      proof (cases res)
        case (Inl e)
        then have "mx1 = mx" using en by (auto simp: ensure_stream_def Let_def split: if_splits)
        then show ?thesis using eff run name False en Inl v by (simp add: admit_def)
      qed simp
      then have "fst (admit l clk rand ?keys op src rc mx) = accept (rc\<lparr>rc_peers := AList.update (session v)
            ((peer_new ?keys src name (clk 1))\<lparr>pe_replay := snd ?w\<rparr>) (rc_peers rc)\<rparr>)"
        using name False en v fresh_window_takes[OF ctr, of 2048]
        by (cases ?w) (simp add: admit_def Let_def peer_new_def)
      moreover have "consumed (snd ?w) (unat (counter v))"
        by (rule replay.consume_spends[OF represents_some_new])
      ultimately show ?thesis unfolding run using v(1)
        by (simp add: spent_def accept_def update_conv')
    qed
  next
    fix p assume p: "map_of (rc_peers rc) (session v) = Some p" and fresh: "fst (commit (pe_replay p) (unat (counter v)))"
      and run: "handle_datagram l clk rand rc mx pkt src = handle_known l clk op src rc mx"
    let ?w = "snd (commit (pe_replay p) (unat (counter v)))"
    let ?rc = "rc\<lparr>rc_peers := AList.map_entry (session v) (\<lambda>p. p\<lparr>pe_replay := ?w\<rparr>) (rc_peers rc)\<rparr>"
    let ?rc2 = "?rc\<lparr>rc_peers := AList.map_entry (session v) (\<lambda>p. p\<lparr>pe_addr := src\<rparr>) (rc_peers ?rc)\<rparr>"
    have good: "represents_some (pe_replay p)" using receiver_ok_peer[OF ok p] by (simp add: peer_ok_def)
    have "spent ?rc pkt"
      using v(1) p replay.consume_spends[OF good] by (auto simp: spent_def map_entry_get)
    have "map_of (rc_peers rc) (o_session op) = Some p" using p v(3) by simp
    note hk = handle_known_fresh[OF this, of l clk src mx]
    have keep: "keeps_windows ?rc (fst (dispatch l clk op ?rc2 mx))"
      by (rule keeps_trans[OF keeps_entry dispatch_keeps]) simp
    have "receiver_ok l ?rc" using receiver_ok_window[OF ok p] by simp
    from moves_spent[OF this keeps_moves[OF keep] \<open>spent ?rc pkt\<close>] show ?thesis
      unfolding run hk using fresh v(3,4) by (simp add: Let_def)
  qed
qed

text \<open>The random epochs drawn later differ from the one of the datagram.\<close>

fun op_avoids :: "byte list \<Rightarrow> receiver_op \<Rightarrow> bool" where
  "op_avoids e (RDatagram clk rand pkt src) \<longleftrightarrow> rand \<noteq> e"
| "op_avoids e x \<longleftrightarrow> True"

lemma datagram_spent:
  assumes ok: "receiver_ok l rc" and sp: "spent rc pkt"
    and new: "\<And>v. parse_packet pkt = Some v \<Longrightarrow> rand \<noteq> epoch v"
  shows "spent (fst (handle_datagram l clk rand rc mx other src)) pkt"
proof -
  have rej: "spent (reject rc) pkt" by (rule moves_spent[OF ok keeps_moves sp]) simp
  have rot: "spent (reject (rc\<lparr>rc_epoch := rand, rc_peers := []\<rparr>)) pkt"
    using new rotated_spent spent_none by (cases "parse_packet pkt") (blast, metis)
  have adm: "spent (fst (admit l clk rand keys op src rc mx)) pkt" if "map_of (rc_peers rc) (o_session op) = None" for keys op
    using admit_moves[OF that, of l clk rand keys src mx] rot moves_spent[OF ok _ sp] by metis
  have kn: "spent (fst (handle_known l clk op src rc mx)) pkt" if "map_of (rc_peers rc) (o_session op) = Some p" for op p
    by (rule moves_spent[OF ok known_moves[OF that] sp])
  show ?thesis
    using handle_datagram_cases[OF ok, of clk rand mx other src] rej adm kn
    by (elim disjE exE conjE) (auto simp: opens_as_def)
qed

lemma step_spent:
  assumes ok: "engine_ok l rc mx" and sp: "spent rc pkt" and valid: "op_valid x"
    and new: "\<And>v. parse_packet pkt = Some v \<Longrightarrow> op_avoids (epoch v) x"
    and step: "receiver_step l x (rc, mx) = Some (rc', mx')"
  shows "spent rc' pkt"
proof -
  have rc: "receiver_ok l rc" using ok by (simp add: engine_ok_def)
  have keep: "spent rc1 pkt" if "keeps_windows rc rc1" for rc1
    by (rule moves_spent[OF rc keeps_moves[OF that] sp])
  show ?thesis
  proof (cases x)
    case (RDatagram clk rand other src)
    have "spent (fst (handle_datagram l clk rand rc mx other src)) pkt"
      by (rule datagram_spent[OF rc sp]) (use new RDatagram in simp)
    then show ?thesis using step RDatagram by simp
  next
    case (RFeedback now clk order)
    then show ?thesis using step keep[OF feedback_keeps[of rc l now clk order mx]]
      by (simp split: prod.splits)
  next
    case (RExpire idle now)
    then show ?thesis using step keep[OF expire_keeps[of rc l idle now mx]] by simp
  next
    case (RMixer y)
    then show ?thesis using step sp by auto
  qed
qed

lemma run_spent:
  "engine_ok l rc mx \<Longrightarrow> spent rc pkt \<Longrightarrow> list_all op_valid xs \<Longrightarrow>
    (\<And>v. parse_packet pkt = Some v \<Longrightarrow> list_all (op_avoids (epoch v)) xs) \<Longrightarrow>
    receiver_run l xs (rc, mx) = Some (rc', mx') \<Longrightarrow> spent rc' pkt \<and> receiver_ok l rc'"
proof (induction xs arbitrary: rc mx)
  case Nil
  then show ?case by (simp add: engine_ok_def)
next
  case (Cons x xs)
  obtain rc1 mx1 where step: "receiver_step l x (rc, mx) = Some (rc1, mx1)" "engine_ok l rc1 mx1"
    using receiver_step_ok[OF Cons.prems(1), of x] Cons.prems(3) by auto
  have "op_avoids (epoch v) x \<and> list_all (op_avoids (epoch v)) xs" if "parse_packet pkt = Some v" for v
    using Cons.prems(4)[OF that] by simp
  then have "spent rc1 pkt" using step_spent[OF Cons.prems(1,2) _ _ step(1)] Cons.prems(3) by simp
  from Cons.IH[OF step(2) this] Cons.prems(3-5) step(1) show ?case by simp
qed

text \<open>
  C3. Freshness. A datagram that changed the receiver never changes it again: whatever happens in
  between, as long as a random epoch drawn meanwhile is not the one the datagram names, its repetition
  is rejected and leaves the sessions and the mixer as they are.
\<close>

theorem datagram_once:
  assumes "engine_ok l rc mx" and "parse_packet pkt = Some v"
    and "length rand = 16" and "rand \<noteq> epoch v"
    and "handle_datagram l clk rand rc mx pkt src = (rc1, mx1)" and "(rc1, mx1) \<noteq> (reject rc, mx)"
    and "list_all op_valid xs" and "list_all (op_avoids (epoch v)) xs"
    and "receiver_run l xs (rc1, mx1) = Some (rc2, mx2)"
  shows "handle_datagram l clk' rand' rc2 mx2 pkt src' = (reject rc2, mx2)"
proof -
  have rc: "receiver_ok l rc" using assms(1) by (simp add: engine_ok_def)
  have "epoch v = rc_epoch rc"
    using handle_datagram_cases[OF rc, of clk rand mx pkt src] assms(2,5,6) by (auto simp: opens_as_def)
  then have "spent rc1 pkt" using effect_spends[OF rc, of rand clk mx pkt src] assms(4-6) by simp
  moreover have "engine_ok l rc1 mx1" using handle_datagram_ok[OF assms(1,3), of clk pkt src] assms(5) by simp
  moreover have "list_all (op_avoids (epoch w)) xs" if "parse_packet pkt = Some w" for w
    using that assms(2,8) by simp
  ultimately have "spent rc2 pkt \<and> receiver_ok l rc2" using run_spent[OF _ _ assms(7) _ assms(9)] by blast
  then show ?thesis using spent_refused by blast
qed

section \<open>What an honest datagram does\<close>

lemma sealed_opens:
  assumes "hash_ok l" "aead_ok l" "receiver_ok l rc" "length sess = 16" "KIND_HELLO \<le> knd" "knd \<le> KIND_PROBE"
    and sealed: "seal_packet l (sender_to_receiver (derive l (rc_token rc) (rc_epoch rc) sess)) (rc_epoch rc) sess ctr knd body = Some pkt"
  shows "\<exists>v. parse_packet pkt = Some v \<and> kind v = knd \<and> epoch v = rc_epoch rc \<and> session v = sess \<and> counter v = ctr
    \<and> ctr \<noteq> 0
    \<and> open_packet l (sender_to_receiver (derive l (rc_token rc) (rc_epoch rc) sess)) pkt
      = Some \<lparr>o_kind = knd, o_epoch = rc_epoch rc, o_session = sess, o_counter = ctr, o_body = body\<rparr>"
proof -
  have ep: "length (rc_epoch rc) = 16" using assms(3) by (simp add: receiver_ok_def)
  note op = open_seal_packet[OF assms(2) derive_ok(1)[OF assms(1)] ep assms(4-6) sealed]
  then obtain v where v: "parse_packet pkt = Some v" unfolding open_packet_def bind_eq_Some_conv by blast
  from open_packet_view[OF op v] v op parse_packet_ctr[OF v] show ?thesis by auto
qed

lemma hello_admitted:
  assumes "hash_ok l" "aead_ok l" "receiver_ok l rc" "length sess = 16"
    and "seal_packet l (sender_to_receiver (derive l (rc_token rc) (rc_epoch rc) sess)) (rc_epoch rc) sess ctr KIND_HELLO body = Some pkt"
    and "decode_hello body = Some name" "map_of (rc_peers rc) sess = None" "peer_count rc < MAX_STREAMS"
    and "length (rc_peers rc) < rc_cap rc" "ensure_stream mx (hex_encode l sess) name (clk 0) = (mx1, Inr ())"
  shows "handle_datagram l clk rand rc mx pkt src =
    (accept (rc\<lparr>rc_peers := AList.update sess
       ((peer_new (derive l (rc_token rc) (rc_epoch rc) sess) src name (clk 1))\<lparr>pe_replay := snd (commit (new_window 2048) (unat ctr))\<rparr>)
       (rc_peers rc)\<rparr>), mx1)"
proof -
  obtain v where v: "parse_packet pkt = Some v" "kind v = KIND_HELLO" "epoch v = rc_epoch rc" "session v = sess" "counter v = ctr" "ctr \<noteq> 0"
    "open_packet l (sender_to_receiver (derive l (rc_token rc) (rc_epoch rc) sess)) pkt
      = Some \<lparr>o_kind = KIND_HELLO, o_epoch = rc_epoch rc, o_session = sess, o_counter = ctr, o_body = body\<rparr>"
    using sealed_opens[OF assms(1-4) _ _ assms(5)] by (auto simp: kind_defs)
  have "unat ctr \<noteq> 0" using v(6) by (simp add: unat_eq_0)
  from fresh_window_takes[OF this, of 2048] show ?thesis
    using v assms(6-10) by (cases "commit (new_window 2048) (unat ctr)")
      (simp add: handle_datagram_def admit_def Let_def peer_new_def)
qed

lemma known_handled:
  assumes "hash_ok l" "aead_ok l" "receiver_ok l rc" "length sess = 16" "KIND_HELLO \<le> knd" "knd \<le> KIND_PROBE"
    and "seal_packet l (sender_to_receiver (derive l (rc_token rc) (rc_epoch rc) sess)) (rc_epoch rc) sess ctr knd body = Some pkt"
    and p: "map_of (rc_peers rc) sess = Some p" and fresh: "fst (commit (pe_replay p) (unat ctr))"
  defines "op \<equiv> \<lparr>o_kind = knd, o_epoch = rc_epoch rc, o_session = sess, o_counter = ctr, o_body = body\<rparr>"
  shows "handle_datagram l clk rand rc mx pkt src =
    dispatch l clk op (rc\<lparr>rc_peers := AList.map_entry sess (\<lambda>p. p\<lparr>pe_addr := src\<rparr>)
      (AList.map_entry sess (\<lambda>q. q\<lparr>pe_replay := snd (commit (pe_replay p) (unat ctr))\<rparr>) (rc_peers rc))\<rparr>) mx"
proof -
  obtain v where v: "parse_packet pkt = Some v" "kind v = knd" "epoch v = rc_epoch rc" "session v = sess" "counter v = ctr" "ctr \<noteq> 0"
    "open_packet l (sender_to_receiver (derive l (rc_token rc) (rc_epoch rc) sess)) pkt = Some op"
    using sealed_opens[OF assms(1-7)] by (auto simp: op_def)
  have keys: "pe_keys p = derive l (rc_token rc) (rc_epoch rc) sess"
    using receiver_ok_peer[OF assms(3) p] by (simp add: peer_ok_def)
  have "handle_datagram l clk rand rc mx pkt src = handle_known l clk op src rc mx"
    using v p keys by (simp add: handle_datagram_def Let_def)
  moreover have "map_of (rc_peers rc) (o_session op) = Some p" using p by (simp add: op_def)
  note handle_known_fresh[OF this, of l clk src mx]
  ultimately show ?thesis using fresh by (simp add: op_def Let_def)
qed

section \<open>A concrete receiver\<close>

definition demo_session :: "byte list" where "demo_session = replicate 16 6"
definition demo_source :: socket_addr where "demo_source = (V4 (192, 168, 2, 9), 4000)"

definition demo_receiver :: receiver where
  "demo_receiver = with_history_cap (replicate 32 7) (replicate 16 5) 2"

lemma demo_receiver_ok: "engine_ok l demo_receiver (mixer_new fmt)"
  unfolding demo_receiver_def by (rule engine_ok_new) simp

lemma demo_hello_body: "decode_hello [2, 104, 105] = Some [104, 105]"
  by (simp add: decode_hello_def get_at_def get_range_def subslice_def from_utf8_def
      decode_chars.simps decode_char.simps)

lemma demo_hello_packet:
  obtains pkt where "seal_packet demo_crates (sender_to_receiver (derive demo_crates (rc_token demo_receiver)
      (rc_epoch demo_receiver) demo_session)) (rc_epoch demo_receiver) demo_session 1 KIND_HELLO [2, 104, 105] = Some pkt"
  by (rule seal_packet_exists[OF demo_aead_ok derive_ok(1)[OF demo_hash_ok]])
    (auto simp: demo_receiver_def with_history_cap_def demo_session_def)

lemma demo_hello_joins:
  assumes "seal_packet demo_crates (sender_to_receiver (derive demo_crates (rc_token demo_receiver)
      (rc_epoch demo_receiver) demo_session)) (rc_epoch demo_receiver) demo_session 1 KIND_HELLO [2, 104, 105] = Some pkt"
  shows "\<exists>rc mx. handle_datagram demo_crates clk rand demo_receiver (mixer_new canonical) pkt demo_source = (rc, mx)
    \<and> history_len rc = 1 \<and> map_of (rc_peers rc) demo_session \<noteq> None"
proof -
  let ?i = "hex_encode demo_crates demo_session"
  obtain mx where en: "ensure_stream (mixer_new canonical) ?i [104, 105] (clk 0) = (mx, Inr ())"
    by (auto simp: ensure_stream_def mixer_new_def find_stream_def MAX_STREAMS_def Let_def)
  have rc: "receiver_ok demo_crates demo_receiver" using demo_receiver_ok by (simp add: engine_ok_def)
  have "handle_datagram demo_crates clk rand demo_receiver (mixer_new canonical) pkt demo_source =
    (accept (demo_receiver\<lparr>rc_peers := AList.update demo_session
       ((peer_new (derive demo_crates (rc_token demo_receiver) (rc_epoch demo_receiver) demo_session) demo_source [104, 105] (clk 1))
          \<lparr>pe_replay := snd (commit (new_window 2048) (unat (1 :: u64)))\<rparr>) (rc_peers demo_receiver)\<rparr>), mx)"
    by (rule hello_admitted[where clk = clk, OF demo_hash_ok demo_aead_ok rc _ assms demo_hello_body _ _ _ en])
      (simp_all add: demo_receiver_def with_history_cap_def demo_session_def peer_count_def MAX_STREAMS_def)
  then show ?thesis by (simp add: history_len_def accept_def demo_receiver_def with_history_cap_def)
qed

theorem datagram_authentic_witness:
  "\<exists>pkt sess ctr knd body. length sess = 16
    \<and> seal_packet demo_crates (sender_to_receiver (derive demo_crates (rc_token demo_receiver) (rc_epoch demo_receiver) sess))
        (rc_epoch demo_receiver) sess ctr knd body = Some pkt \<and> knd = KIND_HELLO"
proof -
  obtain pkt where pkt: "seal_packet demo_crates (sender_to_receiver (derive demo_crates (rc_token demo_receiver)
      (rc_epoch demo_receiver) demo_session)) (rc_epoch demo_receiver) demo_session 1 KIND_HELLO [2, 104, 105] = Some pkt"
    by (rule demo_hello_packet)
  have rc: "receiver_ok demo_crates demo_receiver" using demo_receiver_ok by (simp add: engine_ok_def)
  have empty: "rc_peers demo_receiver = []" by (simp add: demo_receiver_def with_history_cap_def)
  have "handle_datagram demo_crates id [] demo_receiver (mixer_new canonical) pkt demo_source
      \<noteq> (reject demo_receiver, mixer_new canonical)"
    using demo_hello_joins[OF pkt, of id "[]"] empty by (auto simp: reject_def)
  from datagram_authentic[OF demo_hash_ok demo_aead_ok rc this] empty show ?thesis by auto
qed

theorem datagram_once_witness:
  "\<exists>pkt rc1 mx1 rc2 mx2. handle_datagram demo_crates id (replicate 16 1) demo_receiver (mixer_new canonical) pkt demo_source = (rc1, mx1)
    \<and> history_len rc1 = 1
    \<and> receiver_run demo_crates [RExpire 10 90, RDatagram id (replicate 16 2) pkt demo_source] (rc1, mx1) = Some (rc2, mx2)
    \<and> handle_datagram demo_crates id (replicate 16 3) rc2 mx2 pkt demo_source = (reject rc2, mx2)"
proof -
  obtain pkt where pkt: "seal_packet demo_crates (sender_to_receiver (derive demo_crates (rc_token demo_receiver)
      (rc_epoch demo_receiver) demo_session)) (rc_epoch demo_receiver) demo_session 1 KIND_HELLO [2, 104, 105] = Some pkt"
    by (rule demo_hello_packet)
  have rc: "receiver_ok demo_crates demo_receiver" using demo_receiver_ok by (simp add: engine_ok_def)
  have empty: "rc_peers demo_receiver = []" and ep: "rc_epoch demo_receiver = replicate 16 5"
    by (simp_all add: demo_receiver_def with_history_cap_def)
  obtain v where v: "parse_packet pkt = Some v" "epoch v = replicate 16 5"
    using sealed_opens[OF demo_hash_ok demo_aead_ok rc _ _ _ pkt] ep by (auto simp: demo_session_def kind_defs)
  obtain rc1 mx1 where one: "handle_datagram demo_crates id (replicate 16 1) demo_receiver (mixer_new canonical) pkt demo_source = (rc1, mx1)"
    "history_len rc1 = 1"
    using demo_hello_joins[OF pkt, of id "replicate 16 1"] by blast
  have eff: "(rc1, mx1) \<noteq> (reject demo_receiver, mixer_new canonical)"
    using one(2) empty by (auto simp: reject_def history_len_def)
  let ?xs = "[RExpire 10 90, RDatagram id (replicate 16 2) pkt demo_source]"
  have ok1: "engine_ok demo_crates rc1 mx1"
    using handle_datagram_ok[OF demo_receiver_ok, of "replicate 16 1" demo_crates id canonical pkt demo_source] one(1) by simp
  have valid: "list_all op_valid ?xs" and av: "list_all (op_avoids (epoch v)) ?xs" using v(2) by simp_all
  obtain rc2 mx2 where run: "receiver_run demo_crates ?xs (rc1, mx1) = Some (rc2, mx2)"
    using receiver_run_ok[OF ok1 valid] by blast
  have "handle_datagram demo_crates id (replicate 16 3) rc2 mx2 pkt demo_source = (reject rc2, mx2)"
    by (rule datagram_once[OF demo_receiver_ok v(1) _ _ one(1) eff valid av run]) (simp_all add: v(2))
  with one run show ?thesis by blast
qed

end
