(* ===== verification/Link.thy ===== *)
theory Link
  imports Sender Receiver_Auth
begin

text \<open>
  The two engines together: what the sender's \<open>audio\<close> seals is what the receiver hands to its mixer,
  and what the receiver's \<open>feedback_due\<close> seals is what the sender's \<open>handle_feedback\<close> applies. The
  network between them is the hypothesis that the datagram arrives unchanged and that its counter is
  fresh in the replay window.
\<close>

lemma unat_of_counter: "n \<le> u64_max \<Longrightarrow> unat (of_nat n :: u64) = n"
  by (simp add: unat_of_nat u64_max_def)

text \<open>A sender bound to the epoch and token of a receiver.\<close>

definition paired :: "crates \<Rightarrow> sender \<Rightarrow> receiver \<Rightarrow> bool" where
  "paired l se rc \<longleftrightarrow> sender_ok l se \<and> receiver_ok l rc \<and> se_epoch se = Some (rc_epoch rc)
     \<and> se_token se = rc_token rc"

lemma paired_keys:
  assumes "paired l se rc"
  shows "se_keys se = Some (derive l (rc_token rc) (rc_epoch rc) (se_session se))" "length (se_session se) = 16"
    "length (rc_epoch rc) = 16"
  using assms by (simp_all add: paired_def sender_ok_def bound_def)

lemma sender_seal_Some:
  assumes pr: "paired l se rc" and "sender_seal l se knd body = (Some pkt, se')"
  shows "seal_packet l (sender_to_receiver (derive l (rc_token rc) (rc_epoch rc) (se_session se))) (rc_epoch rc) (se_session se)
      (of_nat (se_counter se')) knd body = Some pkt"
    and "se' = se\<lparr>se_counter := sat_add u64_max (se_counter se) 1\<rparr>"
  using assms paired_keys(1)[OF pr] by (auto simp: sender_seal_def paired_def Let_def split: if_splits)

lemma send_audio_Some:
  assumes pr: "paired l se rc" and "send_audio l se pcm now = (Some pkt, se')"
  shows "\<exists>pl body. encode_canonical (profile_codec (ad_profile (se_adapt se))) pcm = Some pl
    \<and> encode_audio \<lparr>seq = of_nat (se_audio_seq se'), send_ts_us = of_nat now, codec = profile_codec (ad_profile (se_adapt se)),
        buffer_ms = of_nat (min (ad_target_ms (se_adapt se)) u16_max), payload = pl\<rparr> = Some body
    \<and> seal_packet l (sender_to_receiver (derive l (rc_token rc) (rc_epoch rc) (se_session se))) (rc_epoch rc) (se_session se)
        (of_nat (se_counter se')) KIND_AUDIO body = Some pkt
    \<and> se_counter se' = sat_add u64_max (se_counter se) 1 \<and> se_audio_seq se' = sat_add u64_max (se_audio_seq se) 1"
proof -
  let ?se = "se\<lparr>se_audio_seq := sat_add u64_max (se_audio_seq se) 1\<rparr>"
  obtain pl where pl: "encode_canonical (profile_codec (ad_profile (se_adapt se))) pcm = Some pl"
    using assms(2) by (auto simp: send_audio_def split: option.splits)
  then obtain body where body: "encode_audio \<lparr>seq = of_nat (se_audio_seq ?se), send_ts_us = of_nat now, codec = profile_codec (ad_profile (se_adapt se)),
        buffer_ms = of_nat (min (ad_target_ms (se_adapt se)) u16_max), payload = pl\<rparr> = Some body"
    and seal: "sender_seal l ?se KIND_AUDIO body = (Some pkt, se')"
    using assms(2) by (auto simp: send_audio_def Let_def split: option.splits)
  have "paired l ?se rc" using pr by (simp add: paired_def sender_ok_def bound_def)
  from sender_seal_Some[OF this seal] pl body show ?thesis by auto
qed

lemma encode_decode_canonical:
  assumes "encode_canonical (profile_codec pf) pcm = Some pl"
  shows "\<exists>out. decode_canonical (profile_codec pf) pl = Some out \<and> length out = MAX_PCM_CHUNK \<and> (pf = Pcm \<longrightarrow> out = pcm)"
proof (cases pf)
  case Pcm
  then show ?thesis using assms by (auto simp: encode_canonical_def decode_canonical_def split: if_splits)
next
  case Adpcm48
  then have "pl = encode_adpcm_stereo pcm" using assms by (auto simp: encode_canonical_def CODEC_PCM_def CODEC_ADPCM48_def split: if_splits)
  then have len: "length pl = ADPCM48_BYTES" by (simp add: length_encode_adpcm_stereo)
  from decode_adpcm_stereo_total[OF len] len Adpcm48 show ?thesis
    by (auto simp: decode_canonical_def CODEC_PCM_def CODEC_ADPCM48_def)
next
  case Adpcm24
  then have "pl = encode_adpcm_mono24 pcm"
    using assms by (auto simp: encode_canonical_def CODEC_PCM_def CODEC_ADPCM48_def CODEC_ADPCM24_def split: if_splits)
  then have len: "length pl = ADPCM24_BYTES" by (simp add: length_encode_adpcm_mono24)
  from decode_adpcm_mono24_total[OF len] len Adpcm24 show ?thesis
    by (auto simp: decode_canonical_def CODEC_PCM_def CODEC_ADPCM48_def CODEC_ADPCM24_def)
qed

text \<open>
  C6. Audio arrives. When a paired sender's \<open>audio\<close> returns a datagram and it reaches the receiver,
  which knows the session as active and has not seen the counter, then the receiver decodes exactly
  the payload that was encoded (for the PCM profile, the very samples), pushes it under the sender's
  sequence number into the mixer's stream of that session, accounts for the sequence number, and
  remembers the source address.
\<close>

theorem audio_delivered:
  assumes "hash_ok l" and "aead_ok l" and "paired l se rc"
    and "map_of (rc_peers rc) (se_session se) = Some p" and "pe_active p"
    and "send_audio l se pcm now = (Some pkt, se')" and "fst (commit (pe_replay p) (se_counter se'))"
  shows "\<exists>au out. encode_canonical (profile_codec (ad_profile (se_adapt se))) pcm = Some (payload au)
    \<and> codec au = profile_codec (ad_profile (se_adapt se))
    \<and> unat (seq au) = se_audio_seq se' \<and> send_ts_us au = of_nat now
    \<and> decode_canonical (codec au) (payload au) = Some out
    \<and> (ad_profile (se_adapt se) = Pcm \<longrightarrow> out = pcm)
    \<and> snd (handle_datagram l clk rand rc mx pkt src)
      = snd (push_packet (touch mx (hex_encode l (se_session se)) (clk 2)) (hex_encode l (se_session se))
          (unat (seq au)) out (clk 3) (clk 4))
    \<and> map_of (rc_peers (fst (handle_datagram l clk rand rc mx pkt src))) (se_session se)
      = Some (note_audio au (clk 0) (clk 1)
          (p\<lparr>pe_replay := snd (commit (pe_replay p) (se_counter se')), pe_addr := src\<rparr>))"
proof -
  let ?s = "se_session se" and ?pf = "ad_profile (se_adapt se)"
  obtain pl body where pl: "encode_canonical (profile_codec ?pf) pcm = Some pl"
    and body: "encode_audio \<lparr>seq = of_nat (se_audio_seq se'), send_ts_us = of_nat now, codec = profile_codec ?pf,
        buffer_ms = of_nat (min (ad_target_ms (se_adapt se)) u16_max), payload = pl\<rparr> = Some body"
    and sealed: "seal_packet l (sender_to_receiver (derive l (rc_token rc) (rc_epoch rc) ?s)) (rc_epoch rc) ?s
        (of_nat (se_counter se')) KIND_AUDIO body = Some pkt"
    and cnt: "se_counter se' = sat_add u64_max (se_counter se) 1" "se_audio_seq se' = sat_add u64_max (se_audio_seq se) 1"
    using send_audio_Some[OF assms(3,6)] by blast
  obtain out where out: "decode_canonical (profile_codec ?pf) pl = Some out" "?pf = Pcm \<longrightarrow> out = pcm"
    using encode_decode_canonical[OF pl] by blast
  let ?au = "\<lparr>seq = of_nat (se_audio_seq se') :: u64, send_ts_us = of_nat now, codec = profile_codec ?pf,
        buffer_ms = of_nat (min (ad_target_ms (se_adapt se)) u16_max), payload = pl\<rparr>"
  have "length body \<le> MAX_DATAGRAM"
    using body encode_canonical_length[OF pl] by (auto simp: encode_audio_def format_consts split: if_splits)
  then have dec: "decode_audio body = Some ?au" using audio_body_inverse body by blast
  have rc: "receiver_ok l rc" using assms(3) by (simp add: paired_def)
  have ctr: "unat (of_nat (se_counter se') :: u64) = se_counter se'" by (rule unat_of_counter) (simp add: cnt)
  have sq: "unat (of_nat (se_audio_seq se') :: u64) = se_audio_seq se'" by (rule unat_of_counter) (simp add: cnt)
  have run: "handle_datagram l clk rand rc mx pkt src =
    dispatch l clk \<lparr>o_kind = KIND_AUDIO, o_epoch = rc_epoch rc, o_session = ?s, o_counter = of_nat (se_counter se'), o_body = body\<rparr>
      (rc\<lparr>rc_peers := AList.map_entry ?s (\<lambda>p. p\<lparr>pe_addr := src\<rparr>)
      (AList.map_entry ?s (\<lambda>q. q\<lparr>pe_replay := snd (commit (pe_replay p) (se_counter se'))\<rparr>) (rc_peers rc))\<rparr>) mx"
    using known_handled[OF assms(1,2) rc paired_keys(2)[OF assms(3)] _ _ sealed assms(4), of clk rand mx src] assms(7)
    by (simp add: ctr kind_defs)
  let ?q = "p\<lparr>pe_replay := snd (commit (pe_replay p) (se_counter se')), pe_addr := src\<rparr>"
  have disp: "handle_datagram l clk rand rc mx pkt src =
    (accept (rc\<lparr>rc_peers := AList.map_entry ?s (note_audio ?au (clk 0) (clk 1)) (AList.map_entry ?s (\<lambda>p. p\<lparr>pe_addr := src\<rparr>)
      (AList.map_entry ?s (\<lambda>q. q\<lparr>pe_replay := snd (commit (pe_replay p) (se_counter se'))\<rparr>) (rc_peers rc)))\<rparr>),
     snd (push_packet (touch mx (hex_encode l ?s) (clk 2)) (hex_encode l ?s) (se_audio_seq se') out (clk 3) (clk 4)))"
    unfolding run using assms(4,5) dec out(1)
    by (simp add: dispatch_def apply_audio_def map_entry_get sq kind_defs Let_def)
  have peer: "map_of (rc_peers (fst (handle_datagram l clk rand rc mx pkt src))) ?s = Some (note_audio ?au (clk 0) (clk 1) ?q)"
    unfolding disp using assms(4) by (simp add: accept_def map_entry_get)
  show ?thesis
    by (intro exI[of _ ?au] exI[of _ out]) (use pl out sq disp peer in simp)
qed

text \<open>
  C20. Feedback arrives. When the receiver sends feedback to a session and the datagram reaches the
  paired sender, which has not seen the counter, the sender accepts it and applies exactly the
  receiver's figures: its counts of received and lost packets, the newest sequence number and the
  probe bytes.
\<close>

theorem feedback_delivered:
  assumes "hash_ok l" and "aead_ok l" and "paired l se rc"
    and "map_of (rc_peers rc) (se_session se) = Some p"
    and "snd (snd (feedback_one l now read (se_session se) rc mx)) = [(addr, pkt)]"
    and "fst (commit (se_replay se) (pe_counter p + 1))" and "pe_counter p < u64_max"
  shows "\<exists>fb. addr = pe_addr p
    \<and> handle_feedback l se pkt t
      = (True, apply_feedback (se\<lparr>se_replay := snd (commit (se_replay se) (pe_counter p + 1))\<rparr>) fb t)
    \<and> unat (received fb) = pe_received p \<and> unat (lost fb) = pe_lost p
    \<and> echo_seq fb = of_nat (pe_max_seq p) \<and> echo_send_ts_us fb = pe_send_ts p
    \<and> probe_gen fb = pe_probe_gen p \<and> probe_bytes fb = map of_nat (pe_probe_bytes p)"
proof -
  let ?s = "se_session se"
  have due: "feedback_is_due now p"
    using assms(4,5) by (auto simp: feedback_one_def split: if_splits)
  let ?p1 = "told mx (hex_encode l ?s) p"
  have fp: "feedback_packet l mx (rc_epoch rc) ?s read p = Some pkt" and addr: "addr = pe_addr p"
    using assms(5) unfolding feedback_one_cases[OF assms(4) due] by (auto simp: Let_def split: option.splits)
  let ?fb = "feedback_of (read - pe_arrival p) ?p1"
  have pok: "peer_ok l (rc_token rc) (rc_epoch rc) ?s p"
    using assms(3,4) by (auto simp: paired_def intro: receiver_ok_peer)
  have kept: "pe_received ?p1 = pe_received p" "pe_lost ?p1 = pe_lost p" "pe_max_seq ?p1 = pe_max_seq p"
    "pe_send_ts ?p1 = pe_send_ts p" "pe_probe_gen ?p1 = pe_probe_gen p" "pe_probe_bytes ?p1 = pe_probe_bytes p"
    "pe_counter ?p1 = pe_counter p + 1"
    using assms(7) by (simp_all add: told_def adapt_peer_def Let_def case_prod_beta sat_add_def)
  have wf: "wf_feedback ?fb"
    using pok kept(6) by (simp add: wf_feedback_def feedback_of_def probe_recv_spans_def peer_ok_def)
  have sealed: "seal_packet l (receiver_to_sender (derive l (se_token se) (rc_epoch rc) ?s)) (rc_epoch rc) ?s
      (of_nat (pe_counter p + 1)) KIND_FEEDBACK (encode_feedback ?fb) = Some pkt"
    using fp pok assms(3) kept(7) by (simp add: feedback_packet_def peer_ok_def paired_def Let_def)
  have ctr: "unat (of_nat (pe_counter p + 1) :: u64) = pe_counter p + 1"
    by (rule unat_of_counter) (use assms(7) in simp)
  have se: "sender_ok l se" "se_epoch se = Some (rc_epoch rc)" using assms(3) by (simp_all add: paired_def)
  have acc: "handle_feedback l se pkt t
      = (True, apply_feedback (se\<lparr>se_replay := snd (commit (se_replay se) (pe_counter p + 1))\<rparr>) ?fb t)"
    unfolding handle_feedback_accepts[OF assms(1,2) se]
    using sealed wf ctr assms(6) by (intro exI[of _ "of_nat (pe_counter p + 1)"] exI[of _ ?fb]) metis
  have u32: "unat (of_nat n :: u32) = n" if "n \<le> u32_max" for n
    using that by (simp add: unat_of_nat u32_max_def)
  show ?thesis
    using acc addr pok by (intro exI[of _ ?fb]) (simp add: feedback_of_def kept u32 peer_ok_def)
qed

section \<open>Two concrete engines\<close>

definition demo_peer :: peer where
  "demo_peer = peer_new (derive demo_crates (replicate 32 7) (replicate 16 5) (replicate 16 6)) demo_source [] 0"

definition demo_known :: receiver where
  "demo_known = demo_receiver\<lparr>rc_peers := [(replicate 16 6, demo_peer)]\<rparr>"

lemma demo_paired: "paired demo_crates demo_sender demo_known"
proof -
  have "receiver_ok demo_crates demo_known"
    using peer_ok_new[of "replicate 16 6" demo_crates "replicate 32 7" "replicate 16 5" demo_source "[]" 0]
    by (simp add: receiver_ok_def demo_known_def demo_peer_def demo_receiver_def with_history_cap_def)
  moreover have "se_token demo_sender = replicate 32 7"
    by (simp add: demo_sender_def bind_peer_def sender_new_def Let_def)
  ultimately show ?thesis
    using demo_sender_ok demo_sender_fields
    by (simp add: paired_def demo_known_def demo_receiver_def with_history_cap_def demo_ep_def)
qed

lemma demo_known_peer: "map_of (rc_peers demo_known) (se_session demo_sender) = Some demo_peer" "pe_active demo_peer"
  "pe_counter demo_peer = 0" "pe_replay demo_peer = new_window 2048"
  by (simp_all add: demo_known_def demo_sender_fields demo_peer_def peer_new_def)

lemma demo_audio:
  obtains pkt se' where "send_audio demo_crates demo_sender (replicate 960 3) 50 = (Some pkt, se')" "se_counter se' = 1"
proof -
  let ?se = "demo_sender\<lparr>se_audio_seq := sat_add u64_max (se_audio_seq demo_sender) 1\<rparr>"
  let ?c = "profile_codec (ad_profile (se_adapt demo_sender))"
  have "length (replicate 960 (3 :: byte)) = MAX_PCM_CHUNK" by (simp add: MAX_PCM_CHUNK_def)
  then obtain pl where pl: "encode_canonical ?c (replicate 960 3) = Some pl"
    using encode_canonical_known[of ?c "replicate 960 3"] by (cases "ad_profile (se_adapt demo_sender)") auto
  then have len: "length pl \<le> MAX_PCM_CHUNK" by (rule encode_canonical_length)
  then obtain body where body: "encode_audio \<lparr>seq = of_nat (se_audio_seq ?se), send_ts_us = of_nat 50, codec = ?c,
        buffer_ms = of_nat (min (ad_target_ms (se_adapt demo_sender)) u16_max), payload = pl\<rparr> = Some body" "length body \<le> 1138"
    by (simp add: encode_audio_def format_consts)
  let ?d = "sender_to_receiver (derive demo_crates (se_token demo_sender) demo_ep (se_session demo_sender))"
  obtain pkt where pkt: "seal_packet demo_crates ?d demo_ep (se_session demo_sender) 1 KIND_AUDIO body = Some pkt"
    using seal_packet_exists[OF demo_aead_ok derive_ok(1)[OF demo_hash_ok] _ _ _ body(2)]
    by (metis demo_ep_def demo_sender_fields(2) length_replicate one_neq_zero)
  have keys: "se_keys demo_sender = Some (derive demo_crates (se_token demo_sender) demo_ep (se_session demo_sender))"
    using demo_sender_ok demo_sender_fields(1) by (simp add: sender_ok_def bound_def)
  have "send_audio demo_crates demo_sender (replicate 960 3) 50 = (Some pkt, ?se\<lparr>se_counter := 1\<rparr>)"
    using pl body(1) pkt keys demo_sender_fields(1,3)
    by (simp add: send_audio_def sender_seal_def Let_def sat_add_def u64_max_def)
  then show thesis by (rule that) simp
qed

theorem audio_delivered_witness:
  "\<exists>pkt se' mx' out. send_audio demo_crates demo_sender (replicate 960 3) 50 = (Some pkt, se')
    \<and> snd (handle_datagram demo_crates id [] demo_known (mixer_new canonical) pkt demo_source) = mx'
    \<and> (ad_profile (se_adapt demo_sender) = Pcm \<longrightarrow> out = replicate 960 3)
    \<and> mx' = snd (push_packet (touch (mixer_new canonical) (hex_encode demo_crates (replicate 16 6)) 2)
        (hex_encode demo_crates (replicate 16 6)) (se_audio_seq se') out 3 4)"
proof -
  obtain pkt se' where snd: "send_audio demo_crates demo_sender (replicate 960 3) 50 = (Some pkt, se')" "se_counter se' = 1"
    by (rule demo_audio)
  have "fst (commit (pe_replay demo_peer) (se_counter se'))"
    using fresh_window_takes[of 1 2048] by (simp add: demo_known_peer snd(2))
  from audio_delivered[OF demo_hash_ok demo_aead_ok demo_paired demo_known_peer(1,2) snd(1) this,
      where clk = id and rand = "[]" and mx = "mixer_new canonical" and src = demo_source]
  show ?thesis using snd(1) demo_sender_fields(2) by auto
qed

lemma demo_feedback_one:
  obtains pkt where "snd (snd (feedback_one demo_crates 9 9 (se_session demo_sender) demo_known (mixer_new canonical)))
    = [(pe_addr demo_peer, pkt)]"
proof -
  let ?s = "se_session demo_sender" and ?mx = "mixer_new canonical"
  let ?p1 = "told ?mx (hex_encode demo_crates ?s) demo_peer"
  have due: "feedback_is_due 9 demo_peer" by (simp add: feedback_is_due_def demo_peer_def peer_new_def)
  have "wf_feedback (feedback_of 9 ?p1)"
    by (simp add: wf_feedback_def feedback_of_def probe_recv_spans_def told_def adapt_peer_def demo_peer_def peer_new_def
        Let_def case_prod_beta)
  then have len: "length (encode_feedback (feedback_of 9 ?p1)) \<le> 1138"
    using length_encode_feedback by (simp add: FEEDBACK_BODY_LEN_def)
  have "pe_keys demo_peer = derive demo_crates (replicate 32 7) (replicate 16 5) (replicate 16 6)" "pe_arrival demo_peer = 0"
    "pe_counter ?p1 = 1"
    by (simp_all add: demo_peer_def peer_new_def told_def sat_add_def u64_max_def)
  moreover have ids: "length (rc_epoch demo_known) = 16" "length ?s = 16"
    by (simp_all add: demo_known_def demo_receiver_def with_history_cap_def demo_sender_fields)
  obtain pkt where "seal_packet demo_crates (receiver_to_sender (derive demo_crates (replicate 32 7) (replicate 16 5) (replicate 16 6)))
      (rc_epoch demo_known) ?s 1 KIND_FEEDBACK (encode_feedback (feedback_of 9 ?p1)) = Some pkt"
    using seal_packet_exists[OF demo_aead_ok derive_ok(2)[OF demo_hash_ok] ids one_neq_zero len] by blast
  ultimately have "feedback_packet demo_crates ?mx (rc_epoch demo_known) ?s 9 demo_peer = Some pkt"
    by (simp add: feedback_packet_def Let_def)
  then show thesis using that feedback_one_cases[OF demo_known_peer(1) due, of demo_crates 9 ?mx] by (simp add: Let_def)
qed

theorem feedback_delivered_witness:
  "\<exists>pkt (fb :: feedback_body). fst (handle_feedback demo_crates demo_sender pkt 77) \<and> unat (received fb) = 0"
proof -
  obtain pkt where out: "snd (snd (feedback_one demo_crates 9 9 (se_session demo_sender) demo_known (mixer_new canonical)))
    = [(pe_addr demo_peer, pkt)]" by (rule demo_feedback_one)
  have "fst (commit (se_replay demo_sender) (pe_counter demo_peer + 1))" "pe_counter demo_peer < u64_max"
    using fresh_window_takes[of 1 2048] by (simp_all add: demo_known_peer demo_sender_fields u64_max_def)
  from feedback_delivered[OF demo_hash_ok demo_aead_ok demo_paired demo_known_peer(1) out this, of 77]
  obtain fb :: feedback_body and se where "handle_feedback demo_crates demo_sender pkt 77 = (True, se)" "unat (received fb) = pe_received demo_peer"
    by blast
  moreover have "pe_received demo_peer = 0" by (simp add: demo_peer_def peer_new_def)
  ultimately show ?thesis by (intro exI[of _ pkt] exI[of _ fb]) simp
qed

end
