(* ===== verification/System.thy ===== *)
theory System
  imports Link
begin

text \<open>
  A whole group at work: any number of senders, one receiver with its mixer, and the network between
  them, as a step relation. The network is hostile: it delivers any datagram that a member has sealed,
  as often and in whatever order it likes, and any other datagram that it can make up without the
  keys. What the model leaves to the cryptography is exactly that last clause.
\<close>

section \<open>The step relation\<close>

text \<open>\<open>nw_sent\<close> is the record of all datagrams that the senders have sealed, the newest first.\<close>

record network =
  nw_senders :: "sender list"
  nw_receiver :: receiver
  nw_mixer :: mixer
  nw_sent :: "byte list list"

definition forgery :: "crates \<Rightarrow> byte list \<Rightarrow> byte list \<Rightarrow> bool" where
  "forgery l tok pkt \<longleftrightarrow> (\<forall>ep sess. open_packet l (sender_to_receiver (derive l tok ep sess)) pkt = None)"

text \<open>A random epoch is a new one: it is not the present one, and nothing has been sealed for it.\<close>

definition new_epoch :: "network \<Rightarrow> byte list \<Rightarrow> bool" where
  "new_epoch w rand \<longleftrightarrow> length rand = 16 \<and> rand \<noteq> rc_epoch (nw_receiver w)
     \<and> (\<forall>q \<in> set (nw_sent w). \<forall>v. parse_packet q = Some v \<longrightarrow> epoch v \<noteq> rand)"

fun arrives :: "receiver_op \<Rightarrow> bool" where
  "arrives (RDatagram _ _ _ _) \<longleftrightarrow> True"
| "arrives _ \<longleftrightarrow> False"

inductive net_step :: "crates \<Rightarrow> network \<Rightarrow> network \<Rightarrow> bool" for l where
  Send: "i < length (nw_senders w) \<Longrightarrow> sender_step l x (nw_senders w ! i) = (pkt, se) \<Longrightarrow>
    net_step l w (w\<lparr>nw_senders := (nw_senders w)[i := se],
                    nw_sent := (case pkt of None \<Rightarrow> nw_sent w | Some p \<Rightarrow> p # nw_sent w)\<rparr>)"
| Deliver: "pkt \<in> set (nw_sent w) \<or> forgery l (rc_token (nw_receiver w)) pkt \<Longrightarrow> new_epoch w rand \<Longrightarrow>
    handle_datagram l clk rand (nw_receiver w) (nw_mixer w) pkt src = (rc, mx) \<Longrightarrow>
    net_step l w (w\<lparr>nw_receiver := rc, nw_mixer := mx\<rparr>)"
| Work: "\<not> arrives x \<Longrightarrow> op_valid x \<Longrightarrow> receiver_step l x (nw_receiver w, nw_mixer w) = Some (rc, mx) \<Longrightarrow>
    net_step l w (w\<lparr>nw_receiver := rc, nw_mixer := mx\<rparr>)"

inductive net_reaches :: "crates \<Rightarrow> network \<Rightarrow> network \<Rightarrow> bool" for l w0 where
  Here: "net_reaches l w0 w0"
| Next: "net_reaches l w0 w \<Longrightarrow> net_step l w w' \<Longrightarrow> net_reaches l w0 w'"

section \<open>What a datagram adds\<close>

abbreviation remembers :: "receiver \<Rightarrow> byte list \<Rightarrow> bool" where
  "remembers rc s \<equiv> map_of (rc_peers rc) s \<noteq> None"

lemma dispatch_adds:
  "rc_packets_received (fst (dispatch l clk op rc mx)) \<le> Suc (rc_packets_received rc)"
  "map_of (rc_peers (fst (dispatch l clk op rc mx))) s = None \<longleftrightarrow> map_of (rc_peers rc) s = None"
  by (auto simp: dispatch_def apply_audio_def apply_probe_def accept_def reject_def map_entry_get Let_def split: option.split)

lemmas dispatch_peers_adds =
  dispatch_adds(1)[of l clk op "rc\<lparr>rc_peers := ps\<rparr>" for l clk op rc ps, simplified]

lemma known_adds:
  assumes "map_of (rc_peers rc) (o_session op) = Some p"
  shows "rc_packets_received (fst (handle_known l clk op src rc mx)) \<le> Suc (rc_packets_received rc)"
    "remembers (fst (handle_known l clk op src rc mx)) s \<longleftrightarrow> remembers rc s"
  by (simp_all add: handle_known_fresh[OF assms] Let_def reject_def dispatch_peers_adds dispatch_adds(2) map_entry_get
      del: not_None_eq)

lemma admit_adds:
  "rc_packets_received (fst (admit l clk rand keys op src rc mx)) \<le> Suc (rc_packets_received rc)"
  "remembers (fst (admit l clk rand keys op src rc mx)) s \<Longrightarrow> s = o_session op \<or> remembers rc s"
  by (auto simp: admit_def rotate_epoch_def accept_def reject_def Let_def update_conv'
      split: option.splits sum.splits prod.splits if_splits)

lemma datagram_adds:
  assumes "receiver_ok l rc" "handle_datagram l clk rand rc mx pkt src = (rc', mx')"
  shows "rc_packets_received rc' \<le> Suc (rc_packets_received rc)"
    and "remembers rc' s \<Longrightarrow> remembers rc s
      \<or> (\<exists>v. parse_packet pkt = Some v \<and> session v = s \<and> kind v = KIND_HELLO) \<and> (rc', mx') \<noteq> (reject rc, mx)"
proof -
  have "rc_packets_received rc' \<le> Suc (rc_packets_received rc)
    \<and> (remembers rc' s \<longrightarrow> remembers rc s
      \<or> (\<exists>v. parse_packet pkt = Some v \<and> session v = s \<and> kind v = KIND_HELLO) \<and> (rc', mx') \<noteq> (reject rc, mx))"
    using handle_datagram_cases[OF assms(1), of clk rand mx pkt src]
  proof (elim disjE exE conjE)
    assume "handle_datagram l clk rand rc mx pkt src = (reject rc, mx)"
    then show ?thesis using assms(2) by (simp add: reject_def)
  next
    fix v op
    assume as: "opens_as l rc pkt v op" and k: "kind v = KIND_HELLO"
      and d: "handle_datagram l clk rand rc mx pkt src
        = admit l clk rand (derive l (rc_token rc) (rc_epoch rc) (session v)) op src rc mx"
    have "parse_packet pkt = Some v" "o_session op = session v" using as by (simp_all add: opens_as_def)
    moreover have "remembers rc' s \<Longrightarrow> \<not> remembers rc s \<Longrightarrow> rc' \<noteq> reject rc" by (auto simp: reject_def)
    ultimately show ?thesis using d assms(2) k
        admit_adds[of l clk rand "derive l (rc_token rc) (rc_epoch rc) (session v)" op src rc mx]
      by (metis fst_conv)
  next
    fix v op p
    assume "opens_as l rc pkt v op" "map_of (rc_peers rc) (session v) = Some p"
      and d: "handle_datagram l clk rand rc mx pkt src = handle_known l clk op src rc mx"
    then have "map_of (rc_peers rc) (o_session op) = Some p" by (simp add: opens_as_def)
    from known_adds[OF this, of l clk src mx] show ?thesis using d assms(2) by (metis fst_conv)
  qed
  then show "rc_packets_received rc' \<le> Suc (rc_packets_received rc)"
    and "remembers rc' s \<Longrightarrow> remembers rc s
      \<or> (\<exists>v. parse_packet pkt = Some v \<and> session v = s \<and> kind v = KIND_HELLO) \<and> (rc', mx') \<noteq> (reject rc, mx)"
    by blast+
qed

lemma feedback_adds:
  "rc_packets_received (fst (feedback_due l now clk order rc mx)) = rc_packets_received rc
    \<and> (remembers (fst (feedback_due l now clk order rc mx)) s \<longleftrightarrow> remembers rc s)"
proof (induction order arbitrary: rc mx)
  case Nil
  then show ?case by simp
next
  case (Cons x order)
  have one: "rc_packets_received (fst (feedback_one l now read x rc mx)) = rc_packets_received rc
      \<and> (remembers (fst (feedback_one l now read x rc mx)) s \<longleftrightarrow> remembers rc s)" for read
    by (auto simp: feedback_one_def Let_def update_conv' split: option.split)
  obtain rc1 mx1 out where "feedback_one l now (clk x) x rc mx = (rc1, mx1, out)"
    by (cases "feedback_one l now (clk x) x rc mx") auto
  with one[of "clk x"] Cons.IH[of rc1 mx1] show ?case by (simp add: case_prod_beta Let_def)
qed

lemma work_adds:
  assumes "\<not> arrives x" "receiver_step l x (rc, mx) = Some (rc', mx')"
  shows "rc_packets_received rc' = rc_packets_received rc" "remembers rc' s \<longleftrightarrow> remembers rc s"
proof -
  have get: "map_of (map (\<lambda>(s, p). (s, g s p)) xs) s = map_option (g s) (map_of xs s)" for g s and xs :: peers
    by (induction xs) auto
  have "rc_packets_received rc' = rc_packets_received rc \<and> (remembers rc' s \<longleftrightarrow> remembers rc s)"
  proof (cases x)
    case (RFeedback now clk order)
    then show ?thesis using assms(2) feedback_adds[of l now clk order rc mx s] by (auto split: prod.splits)
  next
    case (RExpire idle now)
    then show ?thesis using assms(2) by (auto simp: expire_def get split: prod.splits)
  qed (use assms in auto)
  then show "rc_packets_received rc' = rc_packets_received rc" "remembers rc' s \<longleftrightarrow> remembers rc s" by blast+
qed

section \<open>What holds of every run\<close>

text \<open>
  Every datagram that has had an effect is one that was sent and is spent; no more have been counted
  than there are such datagrams; and every session the receiver remembers was opened by a hello.
\<close>

definition said_hello :: "byte list list \<Rightarrow> byte list \<Rightarrow> bool" where
  "said_hello sent s \<longleftrightarrow> (\<exists>q \<in> set sent. \<exists>v. parse_packet q = Some v \<and> session v = s \<and> kind v = KIND_HELLO)"

definition accounted :: "receiver \<Rightarrow> byte list list \<Rightarrow> bool" where
  "accounted rc sent \<longleftrightarrow> (\<exists>E \<subseteq> set sent. (\<forall>q \<in> E. spent rc q) \<and> rc_packets_received rc \<le> card E)"

definition net_ok :: "crates \<Rightarrow> network \<Rightarrow> bool" where
  "net_ok l w \<longleftrightarrow> engine_ok l (nw_receiver w) (nw_mixer w) \<and> accounted (nw_receiver w) (nw_sent w)
     \<and> (\<forall>s. remembers (nw_receiver w) s \<longrightarrow> said_hello (nw_sent w) s)"

lemma more_sent:
  "set sent \<subseteq> set sent' \<Longrightarrow> accounted rc sent \<Longrightarrow> accounted rc sent'"
  "set sent \<subseteq> set sent' \<Longrightarrow> said_hello sent s \<Longrightarrow> said_hello sent' s"
  unfolding accounted_def said_hello_def by (meson order_trans, blast)

lemma delivered_accounted:
  assumes ok: "receiver_ok l rc" and acc: "accounted rc sent"
    and known: "pkt \<in> set sent \<or> forgery l (rc_token rc) pkt"
    and rand: "rand \<noteq> rc_epoch rc" "\<And>q v. q \<in> set sent \<Longrightarrow> parse_packet q = Some v \<Longrightarrow> rand \<noteq> epoch v"
    and d: "handle_datagram l clk rand rc mx pkt src = (rc', mx')"
  shows "accounted rc' sent" "(rc', mx') \<noteq> (reject rc, mx) \<Longrightarrow> pkt \<in> set sent"
proof -
  obtain E where E: "E \<subseteq> set sent" "\<forall>q \<in> E. spent rc q" "rc_packets_received rc \<le> card E"
    using acc unfolding accounted_def by blast
  have stay: "spent rc' q" if "q \<in> E" for q
    using datagram_spent[OF ok, of q rand clk mx pkt src] that E(1,2) rand(2)[of q] d by (metis fst_conv subsetD)
  show eff: "pkt \<in> set sent" if "(rc', mx') \<noteq> (reject rc, mx)"
    using known handle_datagram_cases[OF ok, of clk rand mx pkt src] that d by (auto simp: forgery_def opens_as_def)
  show "accounted rc' sent"
  proof (cases "(rc', mx') = (reject rc, mx)")
    case True
    then show ?thesis unfolding accounted_def using E(1,3) stay by (intro exI[of _ E]) (simp add: reject_def)
  next
    case False
    then have "pkt \<notin> E" using E(2) spent_refused[OF ok, of pkt clk rand mx src] d by force
    moreover have "finite E" using E(1) finite_subset by blast
    ultimately have "rc_packets_received rc' \<le> card (insert pkt E)"
      using datagram_adds(1)[OF ok d] E(3) by simp
    moreover have "spent rc' pkt" using effect_spends[OF ok rand(1), of clk mx pkt src] False d by simp
    ultimately show ?thesis unfolding accounted_def using eff[OF False] E(1) stay
      by (intro exI[of _ "insert pkt E"]) auto
  qed
qed

lemma net_step_ok:
  assumes "net_step l w w'" "net_ok l w"
  shows "net_ok l w'"
  using assms(1)
proof (cases rule: net_step.cases)
  case (Send i x pkt se)
  have "set (nw_sent w) \<subseteq> set (nw_sent w')" using Send(1) by (auto split: option.split)
  moreover have "nw_receiver w' = nw_receiver w" "nw_mixer w' = nw_mixer w" using Send(1) by simp_all
  ultimately show ?thesis using assms(2) more_sent by (metis net_ok_def)
next
  case (Deliver pkt rand clk src rc mx)
  let ?rc = "nw_receiver w" and ?mx = "nw_mixer w"
  have ok: "receiver_ok l ?rc" "engine_ok l ?rc ?mx" "accounted ?rc (nw_sent w)"
    using assms(2) by (simp_all add: net_ok_def engine_ok_def)
  have rand: "length rand = 16" "rand \<noteq> rc_epoch ?rc"
    "\<And>q v. q \<in> set (nw_sent w) \<Longrightarrow> parse_packet q = Some v \<Longrightarrow> rand \<noteq> epoch v"
    using Deliver(3) by (auto simp: new_epoch_def)
  note d = delivered_accounted[OF ok(1,3) Deliver(2) rand(2,3) Deliver(4)]
  have "said_hello (nw_sent w) s" if "remembers rc s" for s
    using datagram_adds(2)[OF ok(1) Deliver(4) that] d(2) assms(2) by (auto simp: net_ok_def said_hello_def)
  moreover have "engine_ok l rc mx" using handle_datagram_ok[OF ok(2) rand(1), of clk pkt src] Deliver(4) by simp
  ultimately show ?thesis using d(1) Deliver(1) by (simp add: net_ok_def)
next
  case (Work x rc mx)
  let ?rc = "nw_receiver w" and ?mx = "nw_mixer w"
  have ok: "engine_ok l ?rc ?mx" "accounted ?rc (nw_sent w)" using assms(2) by (simp_all add: net_ok_def)
  have "op_avoids e x" for e using Work(2) by (cases x) simp_all
  then have "accounted rc (nw_sent w)"
    using ok(2) step_spent[OF ok(1) _ Work(3) _ Work(4)] work_adds(1)[OF Work(2,4)] unfolding accounted_def by metis
  moreover have "engine_ok l rc mx" using receiver_step_ok[OF ok(1) Work(3)] Work(4) by auto
  ultimately show ?thesis using Work(1) assms(2) work_adds(2)[OF Work(2,4)] by (simp add: net_ok_def)
qed

lemma net_reaches_ok: "net_reaches l w0 w \<Longrightarrow> net_ok l w0 \<Longrightarrow> net_ok l w"
  by (induction rule: net_reaches.induct) (auto intro: net_step_ok)

text \<open>
  C4. A group on a hostile network. Whatever the network delivers, repeats, reorders, drops or makes
  up, the receiver never counts more packets than different datagrams were sealed by the senders, and
  every session it remembers is one that a sender said hello for.
\<close>

theorem no_forged_traffic:
  assumes "length ep = 16"
    and "net_reaches l \<lparr>nw_senders = ses, nw_receiver = receiver_new tok ep, nw_mixer = mixer_new fmt, nw_sent = []\<rparr> w"
  shows "rc_packets_received (nw_receiver w) \<le> card (set (nw_sent w))
    \<and> (\<forall>(s, p) \<in> set (rc_peers (nw_receiver w)). \<exists>q \<in> set (nw_sent w). \<exists>v.
        parse_packet q = Some v \<and> session v = s \<and> kind v = KIND_HELLO)"
proof -
  have "net_ok l \<lparr>nw_senders = ses, nw_receiver = receiver_new tok ep, nw_mixer = mixer_new fmt, nw_sent = []\<rparr>"
    using engine_ok_new[OF assms(1), of l tok MAX_SESSION_HISTORY fmt]
    by (simp add: net_ok_def accounted_def receiver_new_def) (simp add: with_history_cap_def)
  from net_reaches_ok[OF assms(2) this] have ok: "net_ok l w" .
  then obtain E where E: "E \<subseteq> set (nw_sent w)" "rc_packets_received (nw_receiver w) \<le> card E"
    unfolding net_ok_def accounted_def by blast
  have "card E \<le> card (set (nw_sent w))" using E(1) by (simp add: card_mono)
  moreover have "said_hello (nw_sent w) s" if "(s, p) \<in> set (rc_peers (nw_receiver w))" for s p
  proof -
    have "s \<in> dom (map_of (rc_peers (nw_receiver w)))" using that unfolding dom_map_of_conv_image_fst by (metis fst_conv image_eqI)
    then show ?thesis using ok by (auto simp: net_ok_def)
  qed
  ultimately show ?thesis using E(2) unfolding said_hello_def by fastforce
qed

section \<open>A group of one sender\<close>

definition demo_network :: network where
  "demo_network = \<lparr>nw_senders = [demo_sender], nw_receiver = receiver_new (replicate 32 7) (replicate 16 5),
     nw_mixer = mixer_new canonical, nw_sent = []\<rparr>"

lemma demo_hello:
  obtains pkt se where "sender_step demo_crates SHello demo_sender = (Some pkt, se)"
    "seal_packet demo_crates (sender_to_receiver (derive demo_crates (replicate 32 7) (replicate 16 5) (replicate 16 6)))
      (replicate 16 5) (replicate 16 6) 1 KIND_HELLO [2, 104, 105] = Some pkt"
proof -
  have name: "encode_hello [104, 105] = Some [2, 104, 105]"
    using hello_inverse[of "[104, 105]" "[2, 104, 105]" "[104, 105]"] demo_hello_body by blast
  let ?d = "sender_to_receiver (derive demo_crates (replicate 32 7) (replicate 16 5) (replicate 16 6))"
  obtain pkt where pkt: "seal_packet demo_crates ?d (replicate 16 5) (replicate 16 6) 1 KIND_HELLO [2, 104, 105] = Some pkt"
    by (rule seal_packet_exists[OF demo_aead_ok derive_ok(1)[OF demo_hash_ok]]) auto
  have "se_name demo_sender = [104, 105]"
    "se_keys demo_sender = Some (derive demo_crates (replicate 32 7) (replicate 16 5) (replicate 16 6))"
    by (simp_all add: demo_sender_def bind_peer_def sender_new_def demo_ep_def Let_def)
  with name pkt demo_sender_fields have "sender_step demo_crates SHello demo_sender = (Some pkt, demo_sender\<lparr>se_counter := 1\<rparr>)"
    by (simp add: hello_def sender_seal_def demo_ep_def Let_def sat_add_def u64_max_def)
  then show thesis using pkt by (rule that)
qed

theorem no_forged_traffic_witness:
  "\<exists>w q. net_reaches demo_crates demo_network w \<and> nw_sent w = [q] \<and> rc_packets_received (nw_receiver w) = 1
    \<and> map fst (rc_peers (nw_receiver w)) = [replicate 16 6]
    \<and> (\<exists>v. parse_packet q = Some v \<and> session v = replicate 16 6 \<and> kind v = KIND_HELLO)"
proof -
  obtain pkt se where snd: "sender_step demo_crates SHello demo_sender = (Some pkt, se)"
    and sealed: "seal_packet demo_crates (sender_to_receiver (derive demo_crates (replicate 32 7) (replicate 16 5) (replicate 16 6)))
      (replicate 16 5) (replicate 16 6) 1 KIND_HELLO [2, 104, 105] = Some pkt" by (rule demo_hello)
  let ?rc = "receiver_new (replicate 32 7) (replicate 16 5)" and ?i = "hex_encode demo_crates (replicate 16 6)"
  let ?w1 = "demo_network\<lparr>nw_senders := [se], nw_sent := [pkt]\<rparr>"
  have ok: "receiver_ok demo_crates ?rc"
    using engine_ok_new[of "replicate 16 5" demo_crates "replicate 32 7" MAX_SESSION_HISTORY canonical]
    by (simp add: engine_ok_def receiver_new_def)
  have rc: "rc_token ?rc = replicate 32 7" "rc_epoch ?rc = replicate 16 5" "rc_peers ?rc = []" "rc_packets_received ?rc = 0"
    "rc_cap ?rc = 4096"
    by (simp_all add: receiver_new_def with_history_cap_def MAX_SESSION_HISTORY_def)
  obtain v where v: "parse_packet pkt = Some v" "epoch v = replicate 16 5"
    using sealed_opens[OF demo_hash_ok demo_aead_ok ok, of "replicate 16 6" KIND_HELLO 1 "[2, 104, 105]" pkt] sealed rc
    by (auto simp: kind_defs)
  obtain mx where en: "ensure_stream (mixer_new canonical) ?i [104, 105] (id 0) = (mx, Inr ())"
    by (auto simp: ensure_stream_def mixer_new_def find_stream_def MAX_STREAMS_def Let_def)
  obtain rc1 where h: "handle_datagram demo_crates id (replicate 16 1) ?rc (mixer_new canonical) pkt demo_source = (rc1, mx)"
    "rc_packets_received rc1 = 1" "map fst (rc_peers rc1) = [replicate 16 6]"
    using hello_admitted[where clk = id, OF demo_hash_ok demo_aead_ok ok _ _ demo_hello_body _ _ _ en,
        of 1 pkt "replicate 16 1" demo_source] sealed rc
    by (auto simp: accept_def peer_count_def MAX_STREAMS_def)
  have s1: "net_step demo_crates demo_network ?w1"
    using net_step.Send[of 0 demo_network demo_crates SHello "Some pkt" se] snd by (simp add: demo_network_def)
  have s2: "net_step demo_crates ?w1 (?w1\<lparr>nw_receiver := rc1, nw_mixer := mx\<rparr>)"
    by (rule net_step.Deliver[of pkt _ _ "replicate 16 1"]) (use h(1) v rc in \<open>simp_all add: demo_network_def new_epoch_def\<close>)
  have reach: "net_reaches demo_crates demo_network (?w1\<lparr>nw_receiver := rc1, nw_mixer := mx\<rparr>)"
    by (rule net_reaches.Next[OF net_reaches.Next[OF net_reaches.Here s1] s2])
  from no_forged_traffic[OF _ this[unfolded demo_network_def]] have
    "\<forall>(s, p) \<in> set (rc_peers rc1). \<exists>v. parse_packet pkt = Some v \<and> session v = s \<and> kind v = KIND_HELLO" by simp
  then have "\<exists>v. parse_packet pkt = Some v \<and> session v = replicate 16 6 \<and> kind v = KIND_HELLO" using h(3) by auto
  with reach h(2,3) show ?thesis by (intro exI[of _ "?w1\<lparr>nw_receiver := rc1, nw_mixer := mx\<rparr>"] exI[of _ pkt]) simp
qed

end
