(* ===== verification/Discovery.thy ===== *)
theory Discovery
  imports Crypto_Session Wire Net_Addr "HOL-Library.Monad_Syntax" "HOL-Library.Multiset"
begin

text \<open>
  \<open>src/src/discovery/mod.rs\<close>: the authenticated discovery datagrams (a query with a challenge, an
  announce that answers it), and the choice among the answers. The random challenge is an argument.
  The probing of the local address (\<open>local_lan_v4\<close>) is socket I/O and not modelled.
\<close>

definition DISCOVERY_MAGIC :: "byte list" where "DISCOVERY_MAGIC = bytes_of ''RAUD''"
definition DISCOVERY_VERSION :: byte where "DISCOVERY_VERSION = 2"
definition INSTANCE_ID_LEN :: nat where "INSTANCE_ID_LEN = 16"
definition CHALLENGE_LEN :: nat where "CHALLENGE_LEN = 16"
definition MAC_LEN :: nat where "MAC_LEN = 16"
definition DISCOVERY_HEADER_LEN :: nat where "DISCOVERY_HEADER_LEN = 4 + 1 + 1 + CHALLENGE_LEN + MAC_LEN"
definition MAX_PACKET_BYTES :: nat where "MAX_PACKET_BYTES = 512"
definition DEFAULT_DISCOVERY_PORTS :: "u16 list" where "DEFAULT_DISCOVERY_PORTS = [47001, 48001, 49001]"
definition TYPE_QUERY :: byte where "TYPE_QUERY = 1"
definition TYPE_ANNOUNCE :: byte where "TYPE_ANNOUNCE = 2"

lemmas discovery_consts = DISCOVERY_HEADER_LEN_def CHALLENGE_LEN_def MAC_LEN_def MAX_PACKET_BYTES_def
  INSTANCE_ID_LEN_def

record announce =
  an_tcp_port :: u16
  an_instance :: "byte list"
  an_addr :: ipv4
  an_name :: rstring
  an_epoch :: "byte list"

record signed_query =
  sq_bytes :: "byte list"
  sq_challenge :: "byte list"

datatype discovery_error = BadToken crypto_error | MissingPort | NameTooLong | PacketTooLarge

section \<open>Addresses\<close>

definition directed_query_targets :: "ipv4 list \<Rightarrow> socket_addr list" where
  "directed_query_targets extra =
     concat (map (\<lambda>host. map (\<lambda>port. (V4 host, port)) DEFAULT_DISCOVERY_PORTS)
       (extra @ [(192, 168, 2, 255), (192, 168, 1, 255), v4_broadcast, v4_localhost]))"

definition contact_addr :: "announce \<Rightarrow> socket_addr \<Rightarrow> socket_addr" where
  "contact_addr an source = (sock_ip source, an_tcp_port an)"

fun source_rank :: "socket_addr \<Rightarrow> nat" where
  "source_rank (V4 (a, b, c, d), port) =
     (if v4_is_loopback (a, b, c, d) then 4
      else if v4_is_unspecified (a, b, c, d) \<or> v4_is_broadcast (a, b, c, d) then 3
      else if a = 192 \<and> b = 168 \<and> c = 2 then 0
      else if v4_is_private (a, b, c, d) then 1
      else 2)"
| "source_rank (V6 segs, port) = (if v6_is_loopback segs then 4 else 3)"

section \<open>Packets\<close>

definition signed_bytes :: "byte \<Rightarrow> byte list \<Rightarrow> byte list \<Rightarrow> byte list" where
  "signed_bytes knd challenge body = DISCOVERY_MAGIC @ [DISCOVERY_VERSION] @ [knd] @ challenge @ body"

definition seal_discovery ::
  "crates \<Rightarrow> byte \<Rightarrow> byte list \<Rightarrow> byte list \<Rightarrow> byte list \<Rightarrow> discovery_error + byte list" where
  "seal_discovery l knd challenge body key =
     (if MAX_PACKET_BYTES < DISCOVERY_HEADER_LEN + length body then Inl PacketTooLarge
      else
        (let out = replicate (DISCOVERY_HEADER_LEN + length body) 0;
             out = copy_at 0 DISCOVERY_MAGIC out;
             out = out[4 := DISCOVERY_VERSION];
             out = out[5 := knd];
             out = copy_at 6 challenge out;
             out = copy_at DISCOVERY_HEADER_LEN body out;
             mac = mac16 l key (signed_bytes knd challenge body);
             out = copy_at 22 mac out
         in Inr out))"

definition open_discovery :: "crates \<Rightarrow> byte list \<Rightarrow> rstring \<Rightarrow> (byte \<times> byte list \<times> byte list) option" where
  "open_discovery l packet tok =
     (if length packet < DISCOVERY_HEADER_LEN \<or> MAX_PACKET_BYTES < length packet then None
      else do {
        magic \<leftarrow> get_range packet 0 4;
        version \<leftarrow> get_at packet 4;
        if magic \<noteq> DISCOVERY_MAGIC \<or> version \<noteq> DISCOVERY_VERSION then None
        else do {
          knd \<leftarrow> get_at packet 5;
          challenge \<leftarrow> get_range packet 6 22;
          mac \<leftarrow> get_range packet 22 38;
          body \<leftarrow> get_range packet DISCOVERY_HEADER_LEN (length packet);
          (case parse_invitation l tok of
             Inl _ \<Rightarrow> None
           | Inr raw \<Rightarrow>
               (let key = discovery_key l raw; expect = mac16 l key (signed_bytes knd challenge body)
                in if \<not> mac_eq l mac expect then None else Some (knd, challenge, body)))
        }
      })"

section \<open>Queries and announces\<close>

definition encode_query :: "crates \<Rightarrow> byte list \<Rightarrow> rstring \<Rightarrow> rstring \<Rightarrow> discovery_error + signed_query" where
  "encode_query l challenge name tok =
     (case parse_invitation l tok of
        Inl e \<Rightarrow> Inl (BadToken e)
      | Inr raw \<Rightarrow>
          (let key = discovery_key l raw; name = clip_name name
           in if 255 < str_len name then Inl NameTooLong
              else case seal_discovery l TYPE_QUERY challenge (of_nat (str_len name) # utf8 name) key of
                     Inl e \<Rightarrow> Inl e
                   | Inr bytes \<Rightarrow> Inr \<lparr>sq_bytes = bytes, sq_challenge = challenge\<rparr>))"

definition octets :: "ipv4 \<Rightarrow> byte list" where
  "octets v = (case v of (a, b, c, d) \<Rightarrow> [a, b, c, d])"

definition announce_body :: "announce \<Rightarrow> rstring \<Rightarrow> byte list" where
  "announce_body an name = u16_be (an_tcp_port an) @ an_instance an @ an_epoch an @ octets (an_addr an)
     @ [of_nat (str_len name)] @ utf8 name"

definition encode_announce :: "crates \<Rightarrow> announce \<Rightarrow> byte list \<Rightarrow> rstring \<Rightarrow> discovery_error + byte list" where
  "encode_announce l an challenge tok =
     (case parse_invitation l tok of
        Inl e \<Rightarrow> Inl (BadToken e)
      | Inr raw \<Rightarrow>
          (let key = discovery_key l raw
           in if an_tcp_port an = 0 then Inl MissingPort
              else
                (let name = clip_name (an_name an)
                 in if 255 < str_len name then Inl NameTooLong
                    else seal_discovery l TYPE_ANNOUNCE challenge (announce_body an name) key)))"

definition open_query :: "crates \<Rightarrow> byte list \<Rightarrow> rstring \<Rightarrow> (byte list \<times> rstring) option" where
  "open_query l packet tok = do {
     (knd, challenge, body) \<leftarrow> open_discovery l packet tok;
     if knd \<noteq> TYPE_QUERY \<or> body = [] then None
     else
       (let name_len = unat (body ! 0)
        in if length body \<noteq> 1 + name_len then None
           else do {
             raw \<leftarrow> get_range body 1 (length body);
             name \<leftarrow> from_utf8 raw;
             Some (challenge, name)
           })
   }"

definition respond_to_query :: "crates \<Rightarrow> byte list \<Rightarrow> rstring \<Rightarrow> announce \<Rightarrow> byte list option" where
  "respond_to_query l packet tok template = do {
     (challenge, name) \<leftarrow> open_query l packet tok;
     if name \<noteq> [] \<and> name \<noteq> an_name template then None
     else case encode_announce l template challenge tok of Inl _ \<Rightarrow> None | Inr p \<Rightarrow> Some p
   }"

definition open_announce :: "crates \<Rightarrow> byte list \<Rightarrow> rstring \<Rightarrow> byte list \<Rightarrow> announce option" where
  "open_announce l packet tok challenge = do {
     (knd, got, body) \<leftarrow> open_discovery l packet tok;
     if knd \<noteq> TYPE_ANNOUNCE \<or> got \<noteq> challenge \<or> length body < 2 + 16 + 16 + 4 + 1 then None
     else do {
       p \<leftarrow> get_range body 0 2;
       let port = u16_from_be p;
       if port = 0 then None
       else do {
         instance_id \<leftarrow> get_range body 2 18;
         ep \<leftarrow> get_range body 18 34;
         let addr = (body ! 34, body ! 35, body ! 36, body ! 37);
         n \<leftarrow> get_at body 38;
         let name_len = unat n;
         if length body \<noteq> 39 + name_len then None
         else do {
           raw \<leftarrow> get_range body 39 (39 + name_len);
           name \<leftarrow> from_utf8 raw;
           Some \<lparr>an_tcp_port = port, an_instance = instance_id, an_addr = addr, an_name = name, an_epoch = ep\<rparr>
         }
       }
     }
   }"

section \<open>The choice among answers\<close>

type_synonym answer = "announce \<times> socket_addr"

text \<open>\<open>*existing = item\<close> for the first entry with the same instance, when the new source is nearer.\<close>

fun merge_answer :: "answer \<Rightarrow> answer list \<Rightarrow> answer list" where
  "merge_answer item [] = [item]"
| "merge_answer item (e # best) =
     (if an_instance (fst e) = an_instance (fst item)
      then (if source_rank (snd item) < source_rank (snd e) then item # best else e # best)
      else e # merge_answer item best)"

definition dedup_prefer_direct :: "answer list \<Rightarrow> answer list" where
  "dedup_prefer_direct items =
     sort_key (\<lambda>e. source_rank (snd e)) (foldl (\<lambda>best item. merge_answer item best) [] items)"

section \<open>Opening is the inverse of sealing\<close>

text \<open>\<open>subtle\<close>: \<open>ct_eq\<close> compares byte strings, in constant time.\<close>

definition ct_ok :: "crates \<Rightarrow> bool" where
  "ct_ok l \<longleftrightarrow> (\<forall>a b. ct_eq l a b \<longleftrightarrow> a = b)"

lemma demo_ct_ok: "ct_ok demo_crates"
  by (simp add: ct_ok_def demo_crates_def)

lemma length_mac16: "hash_ok l \<Longrightarrow> length (mac16 l key m) = 16"
  by (simp add: mac16_def hash_ok_def)

lemma length_magic [simp]: "length DISCOVERY_MAGIC = 4"
  by (simp add: DISCOVERY_MAGIC_def bytes_of_def)

lemma seal_layout:
  assumes "hash_ok l" "length challenge = 16"
  shows "seal_discovery l knd challenge body key = Inr pkt \<longleftrightarrow> length body \<le> 474 \<and>
    pkt = DISCOVERY_MAGIC @ [DISCOVERY_VERSION, knd] @ challenge @ mac16 l key (signed_bytes knd challenge body) @ body"
proof -
  let ?m = "mac16 l key (signed_bytes knd challenge body)"
  have m: "length ?m = 16" by (rule length_mac16[OF assms(1)])
  have "copy_at 22 ?m (copy_at DISCOVERY_HEADER_LEN body (copy_at 6 challenge
      ((copy_at 0 DISCOVERY_MAGIC (replicate (DISCOVERY_HEADER_LEN + length body) 0))[4 := DISCOVERY_VERSION, 5 := knd])))
    = DISCOVERY_MAGIC @ [DISCOVERY_VERSION, knd] @ challenge @ ?m @ body"
    using m assms(2)
    by (simp add: copy_at_def discovery_consts upd_conv_take_nth_drop)
  then show ?thesis by (auto simp: seal_discovery_def discovery_consts Let_def)
qed

lemma open_discovery_iff:
  assumes ok: "hash_ok l" "ct_ok l" and key: "parse_invitation l tok = Inr raw"
  shows "open_discovery l pkt tok = Some (knd, ch, body) \<longleftrightarrow>
    length ch = 16 \<and> seal_discovery l knd ch body (discovery_key l raw) = Inr pkt" (is "?l \<longleftrightarrow> ?r")
proof
  let ?key = "discovery_key l raw"
  assume op: ?l
  then have len: "38 \<le> length pkt" "length pkt \<le> 512"
    by (auto simp: open_discovery_def discovery_consts split: if_splits)
  from op len key have f: "take 4 pkt = DISCOVERY_MAGIC" "pkt ! 4 = DISCOVERY_VERSION" "knd = pkt ! 5" "ch = subslice 6 22 pkt"
    "body = drop 38 pkt" "subslice 22 38 pkt = mac16 l ?key (signed_bytes knd ch body)"
    using ok(2) by (auto simp: open_discovery_def get_range_def get_at_def discovery_consts subslice_0 subslice_end
        mac_eq_def ct_ok_def Let_def split: if_splits)
  have "subslice 4 6 pkt = [DISCOVERY_VERSION, knd]"
    using len subslice_join[of 4 5 6 pkt] subslice_single[of 4 pkt] subslice_single[of 5 pkt] f(2,3) by simp
  moreover have "take 4 pkt @ subslice 4 6 pkt @ subslice 6 22 pkt @ subslice 22 38 pkt @ drop 38 pkt = pkt"
    using len by (simp add: subslice_join subslice_end[symmetric] subslice_0[symmetric])
  ultimately have "DISCOVERY_MAGIC @ [DISCOVERY_VERSION, knd] @ ch @ mac16 l ?key (signed_bytes knd ch body) @ body = pkt"
    using f by simp
  moreover have ch: "length ch = 16" using f(4) len by simp
  moreover have "length body \<le> 474" using f(5) len by simp
  ultimately show ?r using seal_layout[OF ok(1) ch] by blast
next
  let ?key = "discovery_key l raw"
  assume r: ?r
  then have ch: "length ch = 16" and body: "length body \<le> 474"
    and pkt: "pkt = DISCOVERY_MAGIC @ [DISCOVERY_VERSION, knd] @ ch @ mac16 l ?key (signed_bytes knd ch body) @ body"
    using seal_layout[OF ok(1)] by blast+
  let ?m = "mac16 l ?key (signed_bytes knd ch body)"
  have m: "length ?m = 16" by (rule length_mac16[OF ok(1)])
  have len: "length pkt = 38 + length body" using ch m by (simp add: pkt)
  have 1: "get_range pkt 0 4 = Some DISCOVERY_MAGIC" "get_at pkt 4 = Some DISCOVERY_VERSION" "get_at pkt 5 = Some knd"
    by (simp_all add: pkt get_range_def get_at_def subslice_def nth_append)
  have 2: "get_range pkt 6 22 = Some ch"
    using get_range_field[of "DISCOVERY_MAGIC @ [DISCOVERY_VERSION, knd]" 6 22 ch "?m @ body"] ch by (simp add: pkt)
  have 3: "get_range pkt 22 38 = Some ?m"
    using get_range_field[of "DISCOVERY_MAGIC @ [DISCOVERY_VERSION, knd] @ ch" 22 38 ?m body] ch m by (simp add: pkt)
  have 4: "get_range pkt 38 (length pkt) = Some body"
    using get_range_field[of "DISCOVERY_MAGIC @ [DISCOVERY_VERSION, knd] @ ch @ ?m" 38 "length pkt" body "[]"] ch m len
    by (simp add: pkt)
  have "\<not> (length pkt < 38 \<or> 512 < length pkt)" using len body by simp
  then show ?l using 1 2 3 4 key ok(2)
    by (simp add: open_discovery_def discovery_consts mac_eq_def ct_ok_def Let_def)
qed

text \<open>The body of a query, and of an announce.\<close>

definition query_body :: "rstring \<Rightarrow> byte list" where
  "query_body name = of_nat (str_len name) # utf8 name"

lemma open_query_iff:
  assumes ok: "hash_ok l" "ct_ok l" and key: "parse_invitation l tok = Inr raw"
  shows "open_query l pkt tok = Some (ch, name) \<longleftrightarrow>
    length ch = 16 \<and> valid_string name \<and> str_len name \<le> 255
    \<and> seal_discovery l TYPE_QUERY ch (query_body name) (discovery_key l raw) = Inr pkt" (is "?l \<longleftrightarrow> ?r")
proof
  assume ?l
  then obtain body bs where od: "open_discovery l pkt tok = Some (TYPE_QUERY, ch, body)" and ne: "body \<noteq> []"
    and len: "length body = 1 + unat (body ! 0)" and bs: "get_range body 1 (length body) = Some bs" and nm: "from_utf8 bs = Some name"
    by (auto simp: open_query_def Let_def bind_eq_Some_conv split: if_splits)
  obtain b rest where b: "body = b # rest" using ne by (cases body) auto
  have "bs = rest" using bs by (simp add: b get_range_def subslice_def)
  then have n: "valid_string name" "utf8 name = rest" using from_utf8_sound[OF nm] by simp_all
  have sl: "str_len name = unat b" using len n(2) by (simp add: b str_len_def)
  then have "of_nat (str_len name) = b" by simp
  then have "body = query_body name" using n(2) b by (simp add: query_body_def)
  moreover have "unat b < 256" by (rule byte_lt)
  ultimately show ?r using od open_discovery_iff[OF ok key] n(1) sl by simp
next
  assume r: ?r
  then have od: "open_discovery l pkt tok = Some (TYPE_QUERY, ch, query_body name)"
    using open_discovery_iff[OF ok key] by blast
  have "unat (of_nat (str_len name) :: byte) = str_len name" using r by (intro unat_byte_of) simp
  then show ?l using r from_utf8_utf8[of name]
    by (simp add: open_query_def od query_body_def get_range_def subslice_def str_len_def Let_def)
qed

definition announce_ok :: "announce \<Rightarrow> bool" where
  "announce_ok an \<longleftrightarrow> an_tcp_port an \<noteq> 0 \<and> length (an_instance an) = 16 \<and> length (an_epoch an) = 16
     \<and> valid_string (an_name an)"

lemma length_octets [simp]: "length (octets v) = 4"
  by (cases v) (simp add: octets_def)

lemma length_announce_body:
  "length (an_instance an) = 16 \<Longrightarrow> length (an_epoch an) = 16 \<Longrightarrow> length (announce_body an name) = 39 + str_len name"
  by (simp add: announce_body_def str_len_def)

lemma announce_body_fields:
  fixes an :: announce and name :: rstring
  assumes ids: "length (an_instance an) = 16" "length (an_epoch an) = 16"
  defines "body \<equiv> announce_body an name"
  shows "get_range body 0 2 = Some (u16_be (an_tcp_port an))" "get_range body 2 18 = Some (an_instance an)"
    "get_range body 18 34 = Some (an_epoch an)" "(body ! 34, body ! 35, body ! 36, body ! 37) = an_addr an"
    "get_at body 38 = Some (of_nat (str_len name))" "get_range body 39 (39 + str_len name) = Some (utf8 name)"
proof -
  let ?p = "u16_be (an_tcp_port an)" and ?i = "an_instance an" and ?e = "an_epoch an" and ?o = "octets (an_addr an)"
    and ?n = "[of_nat (str_len name)] :: byte list" and ?u = "utf8 name"
  have body: "body = ?p @ ?i @ ?e @ ?o @ ?n @ ?u" by (simp add: body_def announce_body_def)
  show "get_range body 0 2 = Some ?p" using get_range_field[of "[]" 0 2 ?p "?i @ ?e @ ?o @ ?n @ ?u"] by (simp add: body)
  show "get_range body 2 18 = Some ?i"
    using get_range_field[of ?p 2 18 ?i "?e @ ?o @ ?n @ ?u"] ids by (simp add: body)
  show "get_range body 18 34 = Some ?e"
    using get_range_field[of "?p @ ?i" 18 34 ?e "?o @ ?n @ ?u"] ids by (simp add: body)
  show "get_range body 39 (39 + str_len name) = Some ?u"
    using get_range_field[of "?p @ ?i @ ?e @ ?o @ ?n" 39 "39 + str_len name" ?u "[]"] ids by (simp add: body str_len_def)
  show "get_at body 38 = Some (of_nat (str_len name))"
    using ids by (simp add: body get_at_def nth_append)
  show "(body ! 34, body ! 35, body ! 36, body ! 37) = an_addr an"
    using ids by (cases "an_addr an") (simp add: body octets_def nth_append)
qed

lemma announce_body_split:
  assumes "length body = 39 + n" "n = unat (body ! 38)" "utf8 name = drop 39 body"
  shows "announce_body \<lparr>an_tcp_port = u16_from_be (take 2 body), an_instance = subslice 2 18 body,
      an_addr = (body ! 34, body ! 35, body ! 36, body ! 37), an_name = name, an_epoch = subslice 18 34 body\<rparr> name = body"
proof -
  have "u16_be (u16_from_be (take 2 body)) = take 2 body"
    using assms(1) by (intro word_be_from_be(1)) simp
  moreover have "(of_nat (str_len name) :: byte) = body ! 38" using assms by (simp add: str_len_def)
  moreover have "subslice 34 38 body = [body ! 34, body ! 35, body ! 36, body ! 37]"
  proof -
    have s: "subslice i (Suc i) body = [body ! i]" if "i < 38" for i
      using subslice_single[of i body] that assms(1) by simp
    have "subslice 34 38 body = subslice 34 35 body @ subslice 35 36 body @ subslice 36 37 body @ subslice 37 38 body"
      by (simp add: subslice_join)
    then show ?thesis using s[of 34] s[of 35] s[of 36] s[of 37] by simp
  qed
  moreover have "subslice 38 39 body = [body ! 38]" using subslice_single[of 38 body] assms(1) by simp
  moreover have "take 2 body @ subslice 2 18 body @ subslice 18 34 body @ subslice 34 38 body @ subslice 38 39 body @ drop 39 body = body"
    using assms(1) by (simp add: subslice_join subslice_end[symmetric] subslice_0[symmetric]) (simp add: subslice_def)
  ultimately show ?thesis using assms(3) by (simp add: announce_body_def octets_def)
qed

lemma open_announce_inverse:
  assumes ok: "hash_ok l" "ct_ok l" and key: "parse_invitation l tok = Inr raw"
  shows "open_announce l pkt tok ch = Some an \<longleftrightarrow>
    length ch = 16 \<and> announce_ok an \<and> str_len (an_name an) \<le> 255
    \<and> seal_discovery l TYPE_ANNOUNCE ch (announce_body an (an_name an)) (discovery_key l raw) = Inr pkt" (is "?l \<longleftrightarrow> ?r")
proof
  assume ?l
  then obtain body where od: "open_discovery l pkt tok = Some (TYPE_ANNOUNCE, ch, body)" and long: "39 \<le> length body"
    by (auto simp: open_announce_def Let_def bind_eq_Some_conv split: if_splits)
  then have parts: "u16_from_be (take 2 body) \<noteq> 0" "length body = 39 + unat (body ! 38)"
    "from_utf8 (drop 39 body) = Some (an_name an)"
    "an = \<lparr>an_tcp_port = u16_from_be (take 2 body), an_instance = subslice 2 18 body,
      an_addr = (body ! 34, body ! 35, body ! 36, body ! 37), an_name = an_name an, an_epoch = subslice 18 34 body\<rparr>"
    using \<open>?l\<close> by (auto simp: open_announce_def get_range_def get_at_def Let_def bind_eq_Some_conv
        subslice_0 subslice_end split: if_splits) (metis subslice_end)
  have nm: "valid_string (an_name an)" "utf8 (an_name an) = drop 39 body" using from_utf8_sound[OF parts(3)] by simp_all
  have "announce_body an (an_name an) = body"
    using announce_body_split[OF parts(2) refl nm(2)] parts(4) by metis
  moreover have "announce_ok an"
    using parts(1) nm(1) long by (subst (asm) parts(4), subst parts(4)) (simp add: announce_ok_def)
  moreover have "str_len (an_name an) = unat (body ! 38)" using nm(2) parts(2) by (simp add: str_len_def)
  then have "str_len (an_name an) \<le> 255" using byte_lt[of "body ! 38"] by simp
  ultimately show ?r using od open_discovery_iff[OF ok key] by simp
next
  assume r: ?r
  then have od: "open_discovery l pkt tok = Some (TYPE_ANNOUNCE, ch, announce_body an (an_name an))"
    using open_discovery_iff[OF ok key] by blast
  have ids: "length (an_instance an) = 16" "length (an_epoch an) = 16" using r by (simp_all add: announce_ok_def)
  note f = announce_body_fields[OF ids, of "an_name an"]
  have n: "unat (of_nat (str_len (an_name an)) :: byte) = str_len (an_name an)" using r by (intro unat_byte_of) simp
  show ?l using r f n length_announce_body[OF ids, of "an_name an"] from_utf8_utf8[of "an_name an"]
    by (simp add: open_announce_def od announce_ok_def Let_def)
qed

text \<open>
  C15. Announces are authentic. The querier reads an announce out of a datagram exactly when the
  datagram carries the MAC of the token over the announce's own fields, the querier's own challenge
  and the announce type: nothing can be altered, replayed for another challenge, or answered with a
  query; an announce without a port is refused.
\<close>

theorem open_announce_iff:
  assumes "hash_ok l" and "ct_ok l" and "parse_invitation l tok = Inr raw"
  shows "open_announce l pkt tok ch = Some an \<longleftrightarrow>
    length ch = 16 \<and> announce_ok an \<and> str_len (an_name an) \<le> 255 \<and> length pkt \<le> MAX_PACKET_BYTES
    \<and> pkt = DISCOVERY_MAGIC @ [DISCOVERY_VERSION, TYPE_ANNOUNCE] @ ch
        @ mac16 l (discovery_key l raw) (signed_bytes TYPE_ANNOUNCE ch (announce_body an (an_name an)))
        @ announce_body an (an_name an)"
proof -
  have "length (mac16 l key m) = 16" for key m by (rule length_mac16[OF assms(1)])
  then show ?thesis
    unfolding open_announce_inverse[OF assms]
    by (auto simp: seal_layout[OF assms(1)] MAX_PACKET_BYTES_def)
qed

lemma clip_small: "str_len (clip_name n) \<le> 255" "\<not> 255 < str_len (clip_name n)"
  using clip_name_le[of n] by simp_all

lemma encode_announce_eq:
  assumes ok: "hash_ok l" and key: "parse_invitation l tok = Inr raw" and ch: "length ch = 16" and an: "announce_ok an"
  shows "\<exists>pkt. encode_announce l an ch tok = Inr pkt
    \<and> seal_discovery l TYPE_ANNOUNCE ch (announce_body an (clip_name (an_name an))) (discovery_key l raw) = Inr pkt"
proof -
  have "length (announce_body an (clip_name (an_name an))) \<le> 474"
    using length_announce_body[of an "clip_name (an_name an)"] an clip_name_le[of "an_name an"] by (simp add: announce_ok_def)
  then obtain pkt where "seal_discovery l TYPE_ANNOUNCE ch (announce_body an (clip_name (an_name an))) (discovery_key l raw) = Inr pkt"
    using seal_layout[OF ok ch] by blast
  then show ?thesis using an clip_small by (simp add: encode_announce_def key announce_ok_def Let_def)
qed

lemma handshake:
  assumes ok: "hash_ok l" "ct_ok l" and key: "parse_invitation l tok = Inr raw" and ch: "length ch = 16"
    and n: "valid_string n" and an: "announce_ok an"
  shows "\<exists>q. encode_query l ch n tok = Inr q \<and>
    Option.bind (respond_to_query l (sq_bytes q) tok an) (\<lambda>p. open_announce l p tok (sq_challenge q))
    = (if clip_name n = [] \<or> clip_name n = an_name an then Some (an\<lparr>an_name := clip_name (an_name an)\<rparr>) else None)"
proof -
  have "length (query_body (clip_name n)) \<le> 474"
    using clip_name_le[of n] by (simp add: query_body_def str_len_def)
  then obtain bytes where q: "seal_discovery l TYPE_QUERY ch (query_body (clip_name n)) (discovery_key l raw) = Inr bytes"
    using seal_layout[OF ok(1) ch] by blast
  then have enc: "encode_query l ch n tok = Inr \<lparr>sq_bytes = bytes, sq_challenge = ch\<rparr>"
    using clip_small by (simp add: encode_query_def key query_body_def Let_def)
  have oq: "open_query l bytes tok = Some (ch, clip_name n)"
    using open_query_iff[OF ok key] q ch valid_clip_name[OF n] clip_small by blast
  obtain pkt where pkt: "encode_announce l an ch tok = Inr pkt"
    "seal_discovery l TYPE_ANNOUNCE ch (announce_body an (clip_name (an_name an))) (discovery_key l raw) = Inr pkt"
    using encode_announce_eq[OF ok(1) key ch an] by blast
  have "announce_ok (an\<lparr>an_name := clip_name (an_name an)\<rparr>)" using an valid_clip_name by (simp add: announce_ok_def)
  moreover have "announce_body (an\<lparr>an_name := m\<rparr>) k = announce_body an k" for m k by (simp add: announce_body_def)
  ultimately have "open_announce l pkt tok ch = Some (an\<lparr>an_name := clip_name (an_name an)\<rparr>)"
    using open_announce_inverse[OF ok key] pkt(2) ch clip_small by simp
  then show ?thesis using enc oq pkt(1) by (simp add: respond_to_query_def)
qed

text \<open>
  C16. The discovery handshake. A query for a name, answered by a receiver that holds the same token
  and opened by the querier, yields the receiver's announce with its name clipped to 64 bytes, exactly
  when the clipped name asked for is empty or is the receiver's name; otherwise the receiver stays
  silent.
\<close>

theorem discovery_handshake:
  assumes "hash_ok l" and "ct_ok l" and "parse_invitation l tok = Inr raw" and "length ch = 16"
    and "valid_string n" and "announce_ok an"
  shows "\<exists>q. encode_query l ch n tok = Inr q \<and>
    Option.bind (respond_to_query l (sq_bytes q) tok an) (\<lambda>p. open_announce l p tok (sq_challenge q))
    = (if clip_name n = [] \<or> clip_name n = an_name an then Some (an\<lparr>an_name := clip_name (an_name an)\<rparr>) else None)"
  by (rule handshake[OF assms])

text \<open>
  A receiver whose name is longer than 64 bytes never answers a query for exactly that name: the
  query carries the clipped name, the receiver compares with the full one.
\<close>

theorem long_name_not_found:
  assumes "hash_ok l" and "ct_ok l" and "parse_invitation l tok = Inr raw" and "length ch = 16"
    and "announce_ok an" and "64 < str_len (an_name an)" and "clip_name (an_name an) \<noteq> []"
  shows "\<exists>q. encode_query l ch (an_name an) tok = Inr q
    \<and> Option.bind (respond_to_query l (sq_bytes q) tok an) (\<lambda>p. open_announce l p tok (sq_challenge q)) = None"
proof -
  have "clip_name (an_name an) \<noteq> an_name an" using clip_name_le[of "an_name an"] assms(6) by auto
  moreover have "valid_string (an_name an)" using assms(5) by (simp add: announce_ok_def)
  ultimately show ?thesis using handshake[OF assms(1-4) _ assms(5), of "an_name an"] assms(7) by simp
qed

section \<open>The choice keeps the nearest source of every instance\<close>

definition best_of :: "answer list \<Rightarrow> answer list \<Rightarrow> bool" where
  "best_of items best \<longleftrightarrow> distinct (map (\<lambda>e. an_instance (fst e)) best)
     \<and> list_all (\<lambda>b. b \<in> set items) best
     \<and> list_all (\<lambda>e. list_ex (\<lambda>b. an_instance (fst b) = an_instance (fst e)
          \<and> source_rank (snd b) \<le> source_rank (snd e)) best) items"

lemma merge_ids: "set (map (\<lambda>e. an_instance (fst e)) (merge_answer item best))
    = insert (an_instance (fst item)) (set (map (\<lambda>e. an_instance (fst e)) best))"
  by (induction best) auto

lemma merge_distinct:
  "distinct (map (\<lambda>e. an_instance (fst e)) best) \<Longrightarrow> distinct (map (\<lambda>e. an_instance (fst e)) (merge_answer item best))"
proof (induction best)
  case Nil
  then show ?case by simp
next
  case (Cons e best)
  then show ?case using merge_ids[of item best] by (auto simp: image_iff)
qed

lemma merge_sub: "set (merge_answer item best) \<subseteq> insert item (set best)"
  by (induction best) auto

lemma merge_new: "list_ex (\<lambda>b. an_instance (fst b) = an_instance (fst item) \<and> source_rank (snd b) \<le> source_rank (snd item))
    (merge_answer item best)"
  by (induction best) auto

lemma merge_old:
  "list_ex (\<lambda>b. an_instance (fst b) = i \<and> source_rank (snd b) \<le> r) best \<Longrightarrow>
    list_ex (\<lambda>b. an_instance (fst b) = i \<and> source_rank (snd b) \<le> r) (merge_answer item best)"
  by (induction best) auto

lemma dedup_fold_best: "best_of items (foldl (\<lambda>best item. merge_answer item best) [] items)"
proof (induction items rule: rev_induct)
  case Nil
  then show ?case by (simp add: best_of_def)
next
  case (snoc item items)
  let ?best = "foldl (\<lambda>best item. merge_answer item best) [] items"
  have IH: "distinct (map (\<lambda>e. an_instance (fst e)) ?best)" "set ?best \<subseteq> set items"
    "\<And>e. e \<in> set items \<Longrightarrow> list_ex (\<lambda>b. an_instance (fst b) = an_instance (fst e) \<and> source_rank (snd b) \<le> source_rank (snd e)) ?best"
    using snoc.IH by (auto simp: best_of_def list_all_iff)
  have "list_all (\<lambda>b. b \<in> set (items @ [item])) (merge_answer item ?best)"
    using merge_sub[of item ?best] IH(2) by (auto simp: list_all_iff)
  moreover have "list_all (\<lambda>e. list_ex (\<lambda>b. an_instance (fst b) = an_instance (fst e) \<and> source_rank (snd b) \<le> source_rank (snd e))
      (merge_answer item ?best)) (items @ [item])"
    using merge_new merge_old IH(3) by (auto simp: list_all_iff)
  ultimately show ?case using merge_distinct[OF IH(1), of item] by (simp add: best_of_def)
qed

lemma best_of_mset:
  assumes "mset best' = mset best" "best_of items best"
  shows "best_of items best'"
proof -
  have "mset (map (\<lambda>e. an_instance (fst e)) best') = mset (map (\<lambda>e. an_instance (fst e)) best)"
    using assms(1) by simp
  then have "distinct (map (\<lambda>e. an_instance (fst e)) best')"
    using assms(2) mset_eq_imp_distinct_iff unfolding best_of_def by blast
  moreover have "set best' = set best" using assms(1) by (rule mset_eq_setD)
  ultimately show ?thesis using assms(2) unfolding best_of_def list_all_iff list_ex_iff by blast
qed

text \<open>
  The choice among answers. Deduplication keeps one answer per instance, each one received, and
  for every received answer one of the same instance from a source at least as near; the result is
  ordered by the nearness of the source.
\<close>

theorem dedup_keeps_nearest:
  "best_of items (dedup_prefer_direct items)
    \<and> sorted (map (\<lambda>e. source_rank (snd e)) (dedup_prefer_direct items))"
  unfolding dedup_prefer_direct_def
  by (intro conjI best_of_mset[OF _ dedup_fold_best] sorted_sort_key) simp

section \<open>A concrete handshake\<close>

definition demo_token :: rstring where "demo_token = generate_invitation_token demo_crates (replicate 32 7)"

lemma demo_token_ok: "parse_invitation demo_crates demo_token = Inr (replicate 32 7)"
  using demo_hex_ok hex_digit_not_space by (simp add: demo_token_def generate_invitation_token_def
      parse_invitation_def hex_ok_def trim_def TOKEN_BYTES_def dropWhile_all_id list_all_iff)

definition demo_announce :: announce where
  "demo_announce = \<lparr>an_tcp_port = 9000, an_instance = replicate 16 1, an_addr = (10, 0, 0, 2),
     an_name = [114, 120], an_epoch = replicate 16 5\<rparr>"

lemma demo_announce_ok: "announce_ok demo_announce"
  by (simp add: announce_ok_def demo_announce_def valid_string_def scalar_def)

theorem open_announce_iff_witness:
  "\<exists>pkt. open_announce demo_crates pkt demo_token (replicate 16 3) = Some demo_announce"
proof -
  let ?b = "announce_body demo_announce (an_name demo_announce)"
  have sl: "str_len (an_name demo_announce) = 2" by (simp add: demo_announce_def len_utf8_def)
  have "length ?b = 41" using length_announce_body[of demo_announce] sl by (simp add: demo_announce_def)
  moreover have "length (mac16 demo_crates k m) = 16" for k m by (rule length_mac16[OF demo_hash_ok])
  ultimately show ?thesis
    using open_announce_iff[OF demo_hash_ok demo_ct_ok demo_token_ok] demo_announce_ok sl
    by (simp add: MAX_PACKET_BYTES_def)
qed

theorem discovery_handshake_witness:
  "\<exists>q. encode_query demo_crates (replicate 16 3) [114, 120] demo_token = Inr q \<and>
    Option.bind (respond_to_query demo_crates (sq_bytes q) demo_token demo_announce)
      (\<lambda>p. open_announce demo_crates p demo_token (sq_challenge q)) = Some demo_announce"
proof -
  have "clip_name [114, 120] = [114, 120]" by (rule clip_name_short) (simp add: len_utf8_def)
  moreover have "an_name demo_announce = [114, 120]" by (simp add: demo_announce_def)
  moreover have "valid_string [114, 120]" by (simp add: valid_string_def scalar_def)
  ultimately show ?thesis
    using discovery_handshake[OF demo_hash_ok demo_ct_ok demo_token_ok _ _ demo_announce_ok, of "replicate 16 3" "[114, 120]"]
    by (simp add: demo_announce_def)
qed

end
