(* ===== verification/Ring.thy ===== *)
theory Ring
  imports Prelude "HOL-Library.Sublist"
begin

text \<open>
  \<open>src/src/audio/ring.rs\<close>: the bounded byte queue between an audio callback and its reader, which
  drops the oldest bytes when it is full. The interface, a stream with a bound that may forget old
  data, is a locale; the interpretation on \<open>ByteRing\<close> discharges it.
\<close>

record byte_ring =
  br_deque :: "byte list"
  br_capacity :: nat

definition ring_with_capacity :: "nat \<Rightarrow> byte_ring" where
  "ring_with_capacity c = \<lparr>br_deque = [], br_capacity = c\<rparr>"

text \<open>The body of the push loop: \<open>pop_front\<close> of an empty queue changes nothing.\<close>

definition push_byte :: "byte_ring \<Rightarrow> byte \<Rightarrow> byte_ring" where
  "push_byte r b =
     (let r = (if br_capacity r \<le> length (br_deque r) then r\<lparr>br_deque := tl (br_deque r)\<rparr> else r)
      in r\<lparr>br_deque := br_deque r @ [b]\<rparr>)"

definition ring_push :: "byte_ring \<Rightarrow> byte list \<Rightarrow> byte_ring" where
  "ring_push r xs = foldl push_byte r xs"

text \<open>The pop loop writes \<open>out[i]\<close> for \<open>i\<close> from \<open>a\<close> on, \<open>n\<close> times.\<close>

fun pop_loop :: "nat \<Rightarrow> nat \<Rightarrow> byte_ring \<Rightarrow> byte list \<Rightarrow> byte_ring \<times> byte list" where
  "pop_loop a 0 r out = (r, out)"
| "pop_loop a (Suc n) r out =
     (case br_deque r of
        [] \<Rightarrow> pop_loop (a + 1) n r (out[a := 0])
      | b # q \<Rightarrow> pop_loop (a + 1) n (r\<lparr>br_deque := q\<rparr>) (out[a := b]))"

definition pop_into :: "byte_ring \<Rightarrow> byte list \<Rightarrow> nat \<times> byte_ring \<times> byte list" where
  "pop_into r out =
     (let n = min (length out) (length (br_deque r))
      in (n, pop_loop 0 n r out))"

section \<open>What each operation does\<close>

text \<open>A queue of capacity zero still holds one byte: the code pops before it pushes.\<close>

definition ring_bound :: "byte_ring \<Rightarrow> nat" where
  "ring_bound r = max 1 (br_capacity r)"

definition ring_ok :: "byte_ring \<Rightarrow> bool" where
  "ring_ok r \<longleftrightarrow> length (br_deque r) \<le> ring_bound r"

definition newest :: "nat \<Rightarrow> 'a list \<Rightarrow> 'a list" where
  "newest n xs = drop (length xs - n) xs"

lemma newest_all [simp]: "length xs \<le> n \<Longrightarrow> newest n xs = xs"
  by (simp add: newest_def)

lemma length_newest [simp]: "length (newest n xs) = min n (length xs)"
  by (simp add: newest_def min_def)

lemma newest_append: "newest n (newest n xs @ ys) = newest n (xs @ ys)"
proof -
  have eq: "newest n xs @ ys = drop (length xs - n) (xs @ ys)" by (simp add: newest_def)
  show ?thesis
  proof (cases "n \<le> length xs")
    case True
    then show ?thesis by (simp add: eq newest_def) (simp add: newest_def add.commute)
  next
    case False
    then show ?thesis by simp
  qed
qed

lemma subseq_newest: "subseq (newest n xs) xs"
  using list_emb_append2[of "(=)" "drop (length xs - n) xs" "drop (length xs - n) xs" "take (length xs - n) xs"]
  by (simp add: newest_def)

lemma push_byte_spec:
  "ring_ok r \<Longrightarrow> br_deque (push_byte r b) = newest (ring_bound r) (br_deque r @ [b])
    \<and> br_capacity (push_byte r b) = br_capacity r \<and> ring_ok (push_byte r b)"
  by (cases "br_deque r") (auto simp: push_byte_def Let_def ring_ok_def ring_bound_def newest_def max_def)

lemma ring_push_spec:
  "ring_ok r \<Longrightarrow> br_deque (ring_push r xs) = newest (ring_bound r) (br_deque r @ xs)
    \<and> br_capacity (ring_push r xs) = br_capacity r \<and> ring_ok (ring_push r xs)"
proof (induction xs rule: rev_induct)
  case Nil
  then show ?case by (simp add: ring_push_def ring_ok_def)
next
  case (snoc x xs)
  let ?r = "ring_push r xs"
  have r: "br_deque ?r = newest (ring_bound r) (br_deque r @ xs)" "br_capacity ?r = br_capacity r" "ring_ok ?r"
    using snoc by blast+
  have "ring_push r (xs @ [x]) = push_byte ?r x" by (simp add: ring_push_def)
  then show ?case
    using push_byte_spec[OF r(3), of x] r newest_append[of "ring_bound r" "br_deque r @ xs" "[x]"]
    by (simp add: ring_bound_def)
qed

lemma pop_loop_spec:
  "a + n \<le> length out \<Longrightarrow> n \<le> length (br_deque r) \<Longrightarrow>
    pop_loop a n r out = (r\<lparr>br_deque := drop n (br_deque r)\<rparr>,
      take a out @ take n (br_deque r) @ drop (a + n) out)"
proof (induction n arbitrary: a r out)
  case 0
  then show ?case by simp
next
  case (Suc n)
  then obtain b q where q: "br_deque r = b # q" by (cases "br_deque r") auto
  have "pop_loop a (Suc n) r out = pop_loop (a + 1) n (r\<lparr>br_deque := q\<rparr>) (out[a := b])" by (simp add: q)
  also have "\<dots> = (r\<lparr>br_deque := drop n q\<rparr>, take (a + 1) (out[a := b]) @ take n q @ drop (a + 1 + n) (out[a := b]))"
    using Suc.IH[of "a + 1" "out[a := b]" "r\<lparr>br_deque := q\<rparr>"] Suc.prems q by simp
  also have "take (a + 1) (out[a := b]) = take a out @ [b]"
    using Suc.prems(1) by (simp add: take_Suc_conv_app_nth)
  finally show ?case by (simp add: q)
qed

lemma pop_into_spec:
  "pop_into r out = (let n = min (length out) (length (br_deque r))
     in (n, r\<lparr>br_deque := drop n (br_deque r)\<rparr>, take n (br_deque r) @ drop n out))"
  unfolding pop_into_def Let_def by (subst pop_loop_spec) (simp_all add: min_def)

section \<open>The interface\<close>

locale forgetful_stream =
  fixes contents :: "'s \<Rightarrow> 'b list"
    and bound :: "'s \<Rightarrow> nat"
    and ok :: "'s \<Rightarrow> bool"
    and put :: "'s \<Rightarrow> 'b list \<Rightarrow> 's"
    and take_n :: "nat \<Rightarrow> 's \<Rightarrow> 's \<times> 'b list"
  assumes put_contents: "ok s \<Longrightarrow> contents (put s xs) = newest (bound s) (contents s @ xs)"
    and put_bound: "ok s \<Longrightarrow> bound (put s xs) = bound s"
    and put_ok: "ok s \<Longrightarrow> ok (put s xs)"
    and take_split: "ok s \<Longrightarrow> snd (take_n n s) @ contents (fst (take_n n s)) = contents s"
    and take_length: "ok s \<Longrightarrow> length (snd (take_n n s)) = min n (length (contents s))"
    and take_bound: "ok s \<Longrightarrow> bound (fst (take_n n s)) = bound s"
    and take_ok: "ok s \<Longrightarrow> ok (fst (take_n n s))"
begin

text \<open>A run of writes (\<open>Inl\<close> the data) and reads (\<open>Inr\<close> how much); its result is what was read.\<close>

fun run :: "('b list + nat) list \<Rightarrow> 's \<Rightarrow> 's \<times> 'b list" where
  "run [] s = (s, [])"
| "run (Inl xs # ops) s = run ops (put s xs)"
| "run (Inr n # ops) s = (let (s, got) = take_n n s; (s, rest) = run ops s in (s, got @ rest))"

fun written :: "('b list + nat) list \<Rightarrow> 'b list" where
  "written [] = []"
| "written (Inl xs # ops) = xs @ written ops"
| "written (Inr n # ops) = written ops"

lemma in_order:
  "ok s \<Longrightarrow> subseq (snd (run ops s) @ contents (fst (run ops s))) (contents s @ written ops)"
proof (induction ops arbitrary: s)
  case Nil
  then show ?case by simp
next
  case (Cons op ops)
  show ?case
  proof (cases op)
    case (Inl xs)
    have "subseq (newest (bound s) (contents s @ xs) @ written ops) ((contents s @ xs) @ written ops)"
      by (intro list_emb_append_mono subseq_newest) simp
    moreover have "subseq (snd (run ops (put s xs)) @ contents (fst (run ops (put s xs))))
        (newest (bound s) (contents s @ xs) @ written ops)"
      using Cons.IH[OF put_ok[OF Cons.prems]] put_contents[OF Cons.prems] by metis
    ultimately show ?thesis using Inl by (auto intro: subseq_order.trans)
  next
    case (Inr n)
    obtain s' got where t: "take_n n s = (s', got)" by (cases "take_n n s")
    obtain s2 rest where r: "run ops s' = (s2, rest)" by (cases "run ops s'")
    have "ok s'" "got @ contents s' = contents s"
      using take_ok[OF Cons.prems, of n] take_split[OF Cons.prems, of n] t by auto
    then show ?thesis using Cons.IH[of s'] Inr t r by (metis (no_types, lifting) append.assoc
          case_prod_conv fst_conv list_emb_append_mono run.simps(3) snd_conv subseq_order.order_refl written.simps(3))
  qed
qed

text \<open>The writes never exceed the bound: what is queued and written until the next read fits.\<close>

fun fits :: "('b list + nat) list \<Rightarrow> 's \<Rightarrow> bool" where
  "fits [] s \<longleftrightarrow> True"
| "fits (Inl xs # ops) s \<longleftrightarrow> length (contents s) + length xs \<le> bound s \<and> fits ops (put s xs)"
| "fits (Inr n # ops) s \<longleftrightarrow> fits ops (fst (take_n n s))"

lemma lossless:
  "ok s \<Longrightarrow> fits ops s \<Longrightarrow> snd (run ops s) @ contents (fst (run ops s)) = contents s @ written ops"
proof (induction ops arbitrary: s)
  case Nil
  then show ?case by simp
next
  case (Cons op ops)
  show ?case
  proof (cases op)
    case (Inl xs)
    then have "contents (put s xs) = contents s @ xs" using Cons.prems put_contents[of s xs] by simp
    then show ?thesis using Cons.IH[OF put_ok[OF Cons.prems(1)]] Cons.prems(2) Inl by simp
  next
    case (Inr n)
    obtain s' got where t: "take_n n s = (s', got)" by (cases "take_n n s")
    obtain s2 rest where r: "run ops s' = (s2, rest)" by (cases "run ops s'")
    have "ok s'" "got @ contents s' = contents s"
      using take_ok[OF Cons.prems(1), of n] take_split[OF Cons.prems(1), of n] t by auto
    then show ?thesis using Cons.IH[of s'] Cons.prems(2) Inr t r by auto
  qed
qed

end

text \<open>\<open>ByteRing\<close>: a read into a buffer of \<open>n\<close> bytes returns the bytes that were filled in.\<close>

definition ring_take :: "nat \<Rightarrow> byte_ring \<Rightarrow> byte_ring \<times> byte list" where
  "ring_take n r = (let (k, r, out) = pop_into r (replicate n 0) in (r, take k out))"

lemma ring_take_eq: "ring_take n r = (r\<lparr>br_deque := drop n (br_deque r)\<rparr>, take n (br_deque r))"
  by (auto simp: ring_take_def pop_into_spec Let_def min_def)

interpretation rg: forgetful_stream br_deque ring_bound ring_ok ring_push ring_take
  by unfold_locales
    (auto simp: ring_push_spec ring_take_eq ring_ok_def ring_bound_def min_def)

text \<open>
  C21. The queue hands bytes over in order and never holds more than its capacity: for every run of
  pushes and pops from the empty queue, the bytes popped followed by the bytes still queued are a
  subsequence of the bytes pushed, all of them when no push overflowed, and a push that overflows
  keeps exactly the newest bytes.
\<close>

theorem ring_in_order:
  "subseq (snd (rg.run ops (ring_with_capacity c)) @ br_deque (fst (rg.run ops (ring_with_capacity c)))) (rg.written ops)
    \<and> (rg.fits ops (ring_with_capacity c) \<longrightarrow>
        snd (rg.run ops (ring_with_capacity c)) @ br_deque (fst (rg.run ops (ring_with_capacity c))) = rg.written ops)
    \<and> (ring_ok r \<longrightarrow> br_deque (ring_push r xs) = newest (max 1 (br_capacity r)) (br_deque r @ xs))"
proof -
  have ok: "ring_ok (ring_with_capacity c)" "br_deque (ring_with_capacity c) = []"
    by (simp_all add: ring_ok_def ring_with_capacity_def)
  show ?thesis
    using rg.in_order[OF ok(1), of ops] rg.lossless[OF ok(1), of ops] ring_push_spec[of r xs] ok(2)
    by (simp add: ring_bound_def)
qed

theorem ring_in_order_witness:
  "snd (rg.run [Inl [1, 2], Inr 1, Inl [3], Inr 5] (ring_with_capacity 2)) = [1, 2, 3]
    \<and> br_deque (ring_push (ring_push (ring_with_capacity 2) [1, 2]) [3]) = [2, 3]"
proof -
  have f: "rg.fits [Inl [1, 2], Inr 1, Inl [3], Inr 5] (ring_with_capacity 2)"
    "br_deque (fst (rg.run [Inl [1, 2], Inr 1, Inl [3], Inr 5] (ring_with_capacity 2))) = []"
    by (simp_all add: ring_take_eq ring_with_capacity_def ring_bound_def ring_push_def push_byte_def)
  have "ring_ok (ring_push (ring_with_capacity 2) [1, 2])"
    "br_deque (ring_push (ring_with_capacity 2) [1, 2]) = [1, 2]" "br_capacity (ring_push (ring_with_capacity 2) [1, 2]) = 2"
    by (simp_all add: ring_ok_def ring_with_capacity_def ring_bound_def ring_push_def push_byte_def)
  then show ?thesis
    using ring_in_order[of "[Inl [1, 2], Inr 1, Inl [3], Inr 5]" 2 "ring_push (ring_with_capacity 2) [1, 2]" "[3]"] f
    by (simp add: newest_def)
qed

end
