(* ===== verification/Pcm.thy ===== *)
theory Pcm
  imports Sample_Scale
begin

text \<open>
  \<open>src/src/audio/pcm.rs\<close>: device samples to session PCM (any channel count and rate to interleaved
  16-bit little-endian stereo at 48 kHz) and back to the device's buffer. A slice that the source
  fills in place is the list it becomes.
\<close>

definition TARGET_RATE :: u32 where "TARGET_RATE = 48000"

text \<open>\<open>f32 as f64\<close> and \<open>f64 as f32\<close>, and \<open>round\<close> (half away from zero).\<close>

fun fcast :: "float_format \<Rightarrow> flt \<Rightarrow> flt" where
  "fcast fmt (Fin r) = fl fmt r"
| "fcast fmt x = x"

definition round_half_away :: "rat \<Rightarrow> int" where
  "round_half_away r = (if 0 \<le> r then \<lfloor>r + 1 / 2\<rfloor> else - \<lfloor>- r + 1 / 2\<rfloor>)"

fun fround :: "flt \<Rightarrow> flt" where
  "fround (Fin r) = Fin (of_int (round_half_away r))"
| "fround x = x"

fun ffloor :: "flt \<Rightarrow> flt" where
  "ffloor (Fin r) = Fin (of_int \<lfloor>r\<rfloor>)"
| "ffloor x = x"

text \<open>\<open>as usize\<close> and \<open>as i16\<close>.\<close>

definition to_usize :: "flt \<Rightarrow> nat" where
  "to_usize x = nat (to_int_sat 0 (int u64_max) x)"

section \<open>Samples to session PCM\<close>

definition float_to_i16 :: "flt \<Rightarrow> u16" where
  "float_to_i16 v =
     (let clamped = flt_clamp (Fin (- 1)) (Fin 1) v
      in of_int (to_int_sat (- 32768) 32767 (fround (fmul F32 clamped (Fin 32767)))))"

definition get_or :: "'a list \<Rightarrow> nat \<Rightarrow> 'a \<Rightarrow> 'a" where
  "get_or xs i d = (if i < length xs then xs ! i else d)"

text \<open>One output frame of the resampler: linear interpolation between two input samples.\<close>

definition resample_at :: "flt list \<Rightarrow> flt \<Rightarrow> nat \<Rightarrow> u16" where
  "resample_at samples ratio i =
     (let src = fmul F64 (fl F64 (of_nat i)) ratio;
          idx = to_usize (ffloor src);
          frac = fcast F32 (fsub F64 src (fl F64 (of_nat idx)));
          a = get_or samples idx (Fin 0);
          b = get_or samples (idx + 1) a
      in float_to_i16 (fadd F32 a (fmul F32 (fsub F32 b a) frac)))"

definition resample_mono :: "flt list \<Rightarrow> u32 \<Rightarrow> u32 \<Rightarrow> u16 list" where
  "resample_mono samples in_rate out_rate =
     (if samples = [] then []
      else if in_rate = out_rate then map float_to_i16 samples
      else
        (let ratio = fdiv F64 (fl F64 (of_nat (unat in_rate))) (fl F64 (of_nat (unat out_rate)));
             out_frames = to_usize (ffloor (fdiv F64 (fl F64 (of_nat (length samples))) ratio))
         in map (resample_at samples ratio) [0..<out_frames]))"

definition downmix_to_stereo :: "flt list \<Rightarrow> nat \<Rightarrow> flt \<times> flt" where
  "downmix_to_stereo frame chans =
     (if chans = 0 then (Fin 0, Fin 0)
      else if chans = 1 then (frame ! 0, frame ! 0)
      else (frame ! 0, get_or frame 1 (frame ! 0)))"

text \<open>The appended bytes; \<open>out\<close> itself is only extended.\<close>

definition append_f32_interleaved :: "byte list \<Rightarrow> flt list \<Rightarrow> nat \<Rightarrow> u32 \<Rightarrow> byte list" where
  "append_f32_interleaved out samples in_channels in_rate =
     (if in_channels = 0 \<or> samples = [] then out
      else
        (let in_frames = length samples div in_channels;
             frames = map (\<lambda>f. downmix_to_stereo
               (subslice (f * in_channels) (f * in_channels + in_channels) samples) in_channels) [0..<in_frames];
             li = resample_mono (map fst frames) in_rate TARGET_RATE;
             ri = resample_mono (map snd frames) in_rate TARGET_RATE
         in out @ concat (map (\<lambda>i. i16_le (li ! i) @ i16_le (ri ! i)) [0..<min (length li) (length ri)])))"

definition append_i16_interleaved :: "byte list \<Rightarrow> u16 list \<Rightarrow> nat \<Rightarrow> u32 \<Rightarrow> byte list" where
  "append_i16_interleaved out samples in_channels in_rate =
     (if in_channels = 0 \<or> samples = [] then out
      else append_f32_interleaved out
        (map (\<lambda>s. fdiv F32 (fl F32 (of_int (sint s))) (Fin 32768)) samples) in_channels in_rate)"

section \<open>Session PCM to the device\<close>

definition i16_to_f32 :: "u16 \<Rightarrow> flt" where
  "i16_to_f32 s = fdiv F32 (fl F32 (of_int (sint s))) (Fin 32768)"

definition session_frame :: "byte list \<Rightarrow> nat \<Rightarrow> nat \<Rightarrow> flt \<times> flt" where
  "session_frame session session_channels f =
     (let s_off = f * (max session_channels 1 * 2)
      in if s_off + 1 < length session
         then (let l = i16_from_le (session ! s_off) (session ! (s_off + 1));
                   r_off = s_off + 2;
                   r = (if 2 \<le> session_channels \<and> r_off + 1 < length session
                        then i16_from_le (session ! r_off) (session ! (r_off + 1)) else l)
               in (i16_to_f32 l, i16_to_f32 r))
         else (Fin 0, Fin 0))"

text \<open>The channel loop of one device frame.\<close>

definition write_frame :: "flt \<Rightarrow> flt \<Rightarrow> nat \<Rightarrow> nat \<Rightarrow> flt list \<Rightarrow> flt list" where
  "write_frame l r base chans out =
     fold (\<lambda>ch out. let v = (if ch = 0 then l else if ch = 1 then r else Fin 0)
                     in if base + ch < length out then out[base + ch := v] else out) [0..<chans] out"

definition fill_device_f32_from_session_i16 :: "flt list \<Rightarrow> byte list \<Rightarrow> nat \<Rightarrow> nat \<Rightarrow> flt list" where
  "fill_device_f32_from_session_i16 device_out session device_channels session_channels =
     fold (\<lambda>f out. case session_frame session session_channels f of
                     (l, r) \<Rightarrow> write_frame l r (f * device_channels) device_channels out)
       [0..<length device_out div max device_channels 1] device_out"

definition fill_device_i16_from_session_i16 :: "u16 list \<Rightarrow> byte list \<Rightarrow> nat \<Rightarrow> nat \<Rightarrow> u16 list" where
  "fill_device_i16_from_session_i16 device_out session device_channels session_channels =
     map (\<lambda>idx. let frame = idx div max device_channels 1;
                    channel = idx mod max device_channels 1;
                    source_channel = (if session_channels = 1 then 0 else channel);
                    offset = (frame * session_channels + source_channel) * 2
                in if source_channel < session_channels \<and> offset + 1 < length session
                   then i16_from_le (session ! offset) (session ! (offset + 1)) else 0)
       [0..<length device_out]"

section \<open>Levels of the conversion\<close>

lemma to_i16_range: "- 32768 \<le> to_int_sat (- 32768) 32767 x \<and> to_int_sat (- 32768) 32767 x \<le> 32767"
  by (rule to_int_sat_bounds) simp_all

lemma i16_to_f32_exact: "i16_to_f32 s = Fin (of_int (sint s) / 32768)"
  by (simp only: i16_to_f32_def fl_int[OF sint_u16_abs] fdiv.simps fl_sample[OF sint_u16_abs]) simp

lemma trunc_rat_of_int [simp]: "trunc_rat (of_int n) = n"
  by (simp add: trunc_rat_def flip: of_int_minus)

lemma fround_between:
  assumes "of_int lo \<le> r" "r \<le> of_int hi"
  shows "lo \<le> round_half_away r \<and> round_half_away r \<le> hi"
proof -
  have "of_int lo \<le> (of_int (round_half_away r) :: rat) + 1/2" "(of_int (round_half_away r) :: rat) - 1/2 \<le> of_int hi"
    using assms by (auto simp: round_half_away_def) linarith+
  then show ?thesis by linarith
qed


lemma small_top: "\<bar>j\<bar> < 2 ^ 24 \<Longrightarrow> \<bar>of_int j :: rat\<bar> < pow2 (top_exp F32)"
proof -
  assume "\<bar>j\<bar> < 2 ^ 24"
  then have "\<bar>of_int j :: rat\<bar> < 2 ^ 24" by (metis of_int_abs of_int_less_iff of_int_numeral of_int_power)
  also have "\<dots> < (2 :: rat) ^ 128" by (rule power_strict_increasing) simp_all
  finally show ?thesis by (simp add: pow2_numeral)
qed

text \<open>Scaling by 32767 and rounding stays between the integers around the exact product.\<close>

lemma scaled_between:
  assumes "of_int lo \<le> v * 32767" "v * 32767 \<le> of_int hi" "- 32768 \<le> lo" "hi \<le> 32767"
  shows "lo \<le> to_int_sat (- 32768) 32767 (fround (fmul F32 (Fin v) (Fin 32767)))
    \<and> to_int_sat (- 32768) 32767 (fround (fmul F32 (Fin v) (Fin 32767))) \<le> hi"
proof -
  have "(of_int lo :: rat) \<le> of_int hi" using assms(1,2) by linarith
  then have "lo \<le> hi" by simp
  then have small: "\<bar>lo\<bar> < 2 ^ 24" "\<bar>hi\<bar> < 2 ^ 24" using assms(3,4) by auto
  then have rep: "representable F32 (of_int lo)" "representable F32 (of_int hi)"
    by (auto intro!: representable_int)
  note f = fl_between[OF _ rep assms(1,2) small_top[OF small(1)] small_top[OF small(2)]]
  have "lo \<le> round_half_away (rnd F32 (v * 32767)) \<and> round_half_away (rnd F32 (v * 32767)) \<le> hi"
    by (rule fround_between) (use f in simp_all)
  moreover have "fround (fmul F32 (Fin v) (Fin 32767)) = Fin (of_int (round_half_away (rnd F32 (v * 32767))))"
    using f(1) by simp
  ultimately show ?thesis using assms(3,4) by simp
qed

lemma sint_float_to_i16:
  "sint (float_to_i16 v) = to_int_sat (- 32768) 32767 (fround (fmul F32 (flt_clamp (Fin (- 1)) (Fin 1) v) (Fin 32767)))"
  by (simp only: float_to_i16_def Let_def sint_of_int_u16 to_i16_range)

lemma float_to_i16_near:
  assumes "- 1 \<le> v" "v \<le> 1"
  shows "\<bar>of_int (sint (float_to_i16 (Fin v))) - v * 32767\<bar> < 1"
proof -
  have "flt_clamp (Fin (- 1)) (Fin 1) (Fin v) = Fin v" using assms by (simp add: flt_clamp_def)
  moreover have "of_int \<lfloor>v * 32767\<rfloor> \<le> v * 32767" "v * 32767 \<le> of_int \<lceil>v * 32767\<rceil>" by simp_all
  moreover have "- 32768 \<le> \<lfloor>v * 32767\<rfloor>" "\<lceil>v * 32767\<rceil> \<le> 32767"
    using assms by (simp_all add: le_floor_iff ceiling_le_iff)
  ultimately have "\<lfloor>v * 32767\<rfloor> \<le> sint (float_to_i16 (Fin v)) \<and> sint (float_to_i16 (Fin v)) \<le> \<lceil>v * 32767\<rceil>"
    using scaled_between[of "\<lfloor>v * 32767\<rfloor>" v "\<lceil>v * 32767\<rceil>"] by (simp only: sint_float_to_i16)
  then show ?thesis by linarith
qed

lemma float_to_i16_ends:
  "sint (float_to_i16 NaN) = 0"
  "1 \<le> v \<Longrightarrow> sint (float_to_i16 (Fin v)) = 32767" "sint (float_to_i16 PInf) = 32767"
  "v \<le> - 1 \<Longrightarrow> sint (float_to_i16 (Fin v)) = - 32767" "sint (float_to_i16 NInf) = - 32767"
proof -
  have one: "sint (float_to_i16 (Fin 1)) = 32767" "sint (float_to_i16 (Fin (- 1))) = - 32767"
    using scaled_between[of 32767 1 32767] scaled_between[of "- 32767" "- 1" "- 32767"]
    by (simp_all only: sint_float_to_i16) (simp_all add: flt_clamp_def)
  show "sint (float_to_i16 NaN) = 0" by (simp only: sint_float_to_i16) (simp add: flt_clamp_def)
  show "1 \<le> v \<Longrightarrow> sint (float_to_i16 (Fin v)) = 32767" "sint (float_to_i16 PInf) = 32767"
    "v \<le> - 1 \<Longrightarrow> sint (float_to_i16 (Fin v)) = - 32767" "sint (float_to_i16 NInf) = - 32767"
    using one by (auto simp only: sint_float_to_i16) (auto simp: flt_clamp_def)
qed

lemma float_to_i16_sample: "\<bar>sint (float_to_i16 (i16_to_f32 s)) - sint s\<bar> \<le> 1"
proof -
  define k where "k = sint s"
  have k: "- 32768 \<le> k" "k \<le> 32767" using sint_u16_bounds by (auto simp: k_def)
  then have r: "- 32768 \<le> (of_int k :: rat)" "(of_int k :: rat) \<le> 32767" by linarith+
  have "\<bar>of_int (sint (float_to_i16 (Fin (of_int k / 32768)))) - (of_int k :: rat) / 32768 * 32767\<bar> < 1"
    by (rule float_to_i16_near) (use r in simp_all)
  then have "\<bar>of_int (sint (float_to_i16 (i16_to_f32 s))) - (of_int k :: rat)\<bar> < 2"
    using r by (simp add: i16_to_f32_exact k_def)
  then show ?thesis unfolding k_def by linarith
qed

text \<open>The level of a sample: its value cut to the range from minus one to one, NaN counting as silence.\<close>

fun level :: "flt \<Rightarrow> rat" where
  "level (Fin r) = max (- 1) (min 1 r)"
| "level PInf = 1"
| "level NInf = - 1"
| "level NaN = 0"

lemma level_bound: "\<bar>level v\<bar> \<le> 1"
  by (cases v) auto

lemma float_to_i16_level: "\<bar>of_int (sint (float_to_i16 v)) - 32767 * level v\<bar> < 1"
proof (cases v)
  case (Fin r)
  consider "r < - 1" | "- 1 \<le> r" "r \<le> 1" | "1 < r" by linarith
  then show ?thesis
  proof cases
    case 1
    then show ?thesis using float_to_i16_ends(4)[of r] Fin by simp
  next
    case 2
    then show ?thesis using float_to_i16_near[of r] Fin by (simp add: mult.commute)
  next
    case 3
    then show ?thesis using float_to_i16_ends(2)[of r] Fin by simp
  qed
qed (simp_all add: float_to_i16_ends)

section \<open>Linear interpolation\<close>

definition lin :: "(nat \<Rightarrow> rat) \<Rightarrow> rat \<Rightarrow> rat" where
  "lin f x = f (nat \<lfloor>x\<rfloor>) + (f (nat \<lfloor>x\<rfloor> + 1) - f (nat \<lfloor>x\<rfloor>)) * (x - of_int \<lfloor>x\<rfloor>)"

lemma slope_bound:
  fixes d t :: rat
  assumes "\<bar>d\<bar> \<le> 2" "0 \<le> t"
  shows "\<bar>d * t\<bar> \<le> 2 * t"
proof -
  have "\<bar>d\<bar> * \<bar>t\<bar> \<le> 2 * t" using assms by (intro mult_mono) simp_all
  then show ?thesis by (simp add: abs_mult)
qed

lemma lin_bound:
  assumes "\<And>k. \<bar>f k\<bar> \<le> 1"
  shows "\<bar>lin f x\<bar> \<le> 1"
proof -
  define t where "t = x - of_int \<lfloor>x\<rfloor>"
  have t: "0 \<le> t" "t \<le> 1" unfolding t_def by linarith+
  let ?a = "f (nat \<lfloor>x\<rfloor>)" and ?b = "f (nat \<lfloor>x\<rfloor> + 1)"
  have "\<bar>?a\<bar> * (1 - t) \<le> 1 * (1 - t)" "\<bar>?b\<bar> * t \<le> 1 * t" using t assms by (intro mult_right_mono; simp)+
  then have "\<bar>?a * (1 - t)\<bar> \<le> 1 - t" "\<bar>?b * t\<bar> \<le> t" using t by (simp_all add: abs_mult)
  moreover have "lin f x = ?a * (1 - t) + ?b * t" unfolding lin_def t_def[symmetric] by algebra
  ultimately show ?thesis by linarith
qed

lemma abs_between:
  fixes m p q a b :: rat
  shows "\<bar>m - p\<bar> \<le> a \<Longrightarrow> \<bar>q - m\<bar> \<le> b \<Longrightarrow> \<bar>p - q\<bar> \<le> a + b"
  by linarith

lemma lin_lipschitz:
  assumes f: "\<And>k. \<bar>f k\<bar> \<le> 1" and xy: "0 \<le> x" "x \<le> y" "y < x + 1"
  shows "\<bar>lin f x - lin f y\<bar> \<le> 2 * (y - x)"
proof -
  have d: "\<bar>f (k + 1) - f k\<bar> \<le> 2" for k using f[of k] f[of "k + 1"] by linarith
  let ?k = "nat \<lfloor>x\<rfloor>"
  show ?thesis
  proof (cases "\<lfloor>y\<rfloor> = \<lfloor>x\<rfloor>")
    case True
    have "lin f y - lin f x = (f (?k + 1) - f ?k) * (y - x)" unfolding lin_def True by algebra
    then show ?thesis using slope_bound[OF d[of ?k], of "y - x"] xy by linarith
  next
    case False
    have "\<lfloor>x\<rfloor> \<le> \<lfloor>y\<rfloor>" using xy(2) by (rule floor_mono)
    moreover have "\<lfloor>y\<rfloor> \<le> \<lfloor>x\<rfloor> + 1" using xy(3) by linarith
    ultimately have fy: "\<lfloor>y\<rfloor> = \<lfloor>x\<rfloor> + 1" using False by linarith
    have k: "nat (\<lfloor>x\<rfloor> + 1) = ?k + 1" using xy(1) by (simp add: nat_add_distrib)
    let ?m = "of_int \<lfloor>x\<rfloor> + 1 :: rat"
    have m: "0 \<le> ?m - x" "0 \<le> y - ?m" using fy by linarith+
    have "f (?k + 1) - lin f x = (f (?k + 1) - f ?k) * (?m - x)" unfolding lin_def by algebra
    moreover have "lin f y - f (?k + 1) = (f (?k + 1 + 1) - f (?k + 1)) * (y - ?m)" unfolding lin_def fy k by simp
    ultimately have "\<bar>f (?k + 1) - lin f x\<bar> \<le> 2 * (?m - x)" "\<bar>lin f y - f (?k + 1)\<bar> \<le> 2 * (y - ?m)"
      using slope_bound[OF d[of ?k] m(1)] slope_bound[OF d[of "?k + 1"] m(2)] by simp_all
    from abs_between[OF this] show ?thesis by (simp add: algebra_simps)
  qed
qed

lemma lin_close:
  assumes "\<And>k. \<bar>f k\<bar> \<le> 1" "0 \<le> x" "0 \<le> y" "\<bar>x - y\<bar> \<le> e" "e < 1"
  shows "\<bar>lin f x - lin f y\<bar> \<le> 2 * e"
proof (cases "x \<le> y")
  case True
  then have "\<bar>lin f x - lin f y\<bar> \<le> 2 * (y - x)"
    using assms(4,5) by (intro lin_lipschitz assms(1,2)) linarith+
  moreover have "2 * (y - x) \<le> 2 * e" using assms(4) True by simp
  ultimately show ?thesis by (rule order_trans)
next
  case False
  then have "\<bar>lin f y - lin f x\<bar> \<le> 2 * (x - y)"
    using assms(4,5) by (intro lin_lipschitz assms(1,3)) linarith+
  moreover have "2 * (x - y) \<le> 2 * e" using assms(4) False by simp
  ultimately have "\<bar>lin f y - lin f x\<bar> \<le> 2 * e" by (rule order_trans)
  then show ?thesis by (simp only: abs_minus_commute)
qed

text \<open>The samples as a line from each to the next, level behind the last.\<close>

definition lerp :: "flt list \<Rightarrow> rat \<Rightarrow> rat" where
  "lerp vs = lin (\<lambda>k. level (vs ! min k (length vs - 1)))"

definition unit_sample :: "flt \<Rightarrow> bool" where
  "unit_sample v \<longleftrightarrow> v = Fin (level v)"

text \<open>The \<open>f32\<close> arithmetic of one output frame, from its source position.\<close>

lemma interpolate_near:
  assumes "\<bar>a\<bar> \<le> 1" "\<bar>b\<bar> \<le> 1" "0 \<le> t" "t < 1"
  obtains v where "fadd F32 (Fin a) (fmul F32 (fsub F32 (Fin b) (Fin a)) (fcast F32 (fl F64 t))) = Fin v"
    "\<bar>v - (a + (b - a) * t)\<bar> \<le> 1 / 2 ^ 20"
proof -
  have t: "\<bar>t\<bar> \<le> of_int 1" using assms by simp
  obtain u where u: "fl F64 t = Fin u" "\<bar>u - t\<bar> \<le> pow2 (0 - 53)" "\<bar>u\<bar> \<le> of_int 1" "0 \<le> u"
    by (rule fl_near[OF t, of F64 0]) (use assms(3) in \<open>simp_all add: pow2_def\<close>)
  obtain w where w: "fl F32 u = Fin w" "\<bar>w - u\<bar> \<le> pow2 (0 - 24)" "\<bar>w\<bar> \<le> of_int 1" "0 \<le> w"
    by (rule fl32_near[OF u(3), of 0]) (use u(4) in \<open>simp_all add: pow2_def\<close>)
  have ba: "\<bar>b + - a\<bar> \<le> of_int 2" using assms(1,2) by simp
  obtain d where d: "fl F32 (b + - a) = Fin d" "\<bar>d - (b + - a)\<bar> \<le> pow2 (1 - 24)" "\<bar>d\<bar> \<le> of_int 2"
    by (rule fl32_near[OF ba, of 1]) (simp_all add: pow2_one)
  have "\<bar>d * w\<bar> \<le> 2 * w" using d(3) w(4) by (intro slope_bound) simp_all
  then have dw: "\<bar>d * w\<bar> \<le> of_int 2" using w(3,4) by simp
  obtain m where m: "fl F32 (d * w) = Fin m" "\<bar>m - d * w\<bar> \<le> pow2 (1 - 24)" "\<bar>m\<bar> \<le> of_int 2"
    by (rule fl32_near[OF dw, of 1]) (simp_all add: pow2_one)
  have am: "\<bar>a + m\<bar> \<le> of_int 3" using assms(1) m(3) by simp
  obtain v where v: "fl F32 (a + m) = Fin v" "\<bar>v - (a + m)\<bar> \<le> pow2 (2 - 24)"
    by (rule fl32_near[OF am, of 2]) (simp_all add: pow2_numeral)
  have "pow2 (0 - 53) = 1 / 2 ^ 53" "pow2 (0 - 24) = 1 / 2 ^ 24" "(1 / 2 ^ 53 + 1 / 2 ^ 24 :: rat) \<le> 1 / 2 ^ 23"
    by (simp_all add: pow2_def)
  then have tw: "\<bar>w - t\<bar> \<le> 1 / 2 ^ 23" using u(2) w(2) by linarith
  have "\<bar>d - (b - a)\<bar> * \<bar>w\<bar> \<le> 1 / 2 ^ 23 * 1" using d(2) w(3) by (intro mult_mono) (simp_all add: pow2_def)
  then have e1: "\<bar>(d - (b - a)) * w\<bar> \<le> 1 / 2 ^ 23" by (simp add: abs_mult)
  have "\<bar>b - a\<bar> * \<bar>w - t\<bar> \<le> 2 * (1 / 2 ^ 23)" using assms(1,2) tw by (intro mult_mono) simp_all
  then have e2: "\<bar>(b - a) * (w - t)\<bar> \<le> 2 / 2 ^ 23" by (simp add: abs_mult)
  have "v - (a + (b - a) * t) = (v - (a + m)) + (m - d * w) + (d - (b - a)) * w + (b - a) * (w - t)" by algebra
  moreover have "pow2 (2 - 24) = 2 / 2 ^ 23" "pow2 (1 - 24) = 1 / 2 ^ 23" by (simp_all add: pow2_def)
  moreover have "(6 / 2 ^ 23 :: rat) \<le> 1 / 2 ^ 20" by simp
  ultimately have "\<bar>v - (a + (b - a) * t)\<bar> \<le> 1 / 2 ^ 20" using e1 e2 v(2) m(2) by linarith
  moreover have "fadd F32 (Fin a) (fmul F32 (fsub F32 (Fin b) (Fin a)) (fcast F32 (fl F64 t))) = Fin v"
    by (simp only: fsub_def fneg.simps fadd.simps fmul.simps fcast.simps u(1) w(1) d(1) m(1) v(1))
  ultimately show thesis using that by blast
qed

section \<open>Resampling\<close>

text \<open>The positions of the output frames, up to the rounding of the ratio and of the products.\<close>

lemma output_count:
  fixes n x p q :: rat
  assumes p: "\<bar>p - x\<bar> \<le> x / 2 ^ 53" and q: "\<bar>q - n / p\<bar> \<le> n / p / 2 ^ 53"
    and b: "0 < x" "0 < p" "0 \<le> n" "n / p \<le> 2 ^ 42"
  shows "\<bar>q - n / x\<bar> \<le> 1 / 2 ^ 10"
proof -
  have "n / x - n / p = n / p * (p - x) / x" using b(1,2) by (simp add: field_simps)
  then have "\<bar>n / x - n / p\<bar> = n / p * \<bar>p - x\<bar> / x" using b by (simp add: abs_mult)
  also have "\<dots> \<le> n / p * (x / 2 ^ 53) / x"
    using p b by (intro divide_right_mono mult_left_mono) simp_all
  also have "\<dots> = n / p / 2 ^ 53" using b(1) by simp
  finally have "\<bar>q - n / x\<bar> \<le> n / p / 2 ^ 53 + n / p / 2 ^ 53" using q by linarith
  also have "\<dots> \<le> 2 ^ 42 / 2 ^ 53 + 2 ^ 42 / 2 ^ 53" using b(4) by (intro add_mono divide_right_mono) simp_all
  also have "\<dots> \<le> 1 / 2 ^ 10" by simp
  finally show ?thesis .
qed

lemma source_position:
  fixes n x p q s :: rat
  assumes p: "\<bar>p - x\<bar> \<le> x / 2 ^ 53" and q: "q \<le> n / p * (1 + 1 / 2 ^ 53)"
    and i: "i + 1 \<le> q" "0 \<le> i" and s: "\<bar>s - i * p\<bar> \<le> i * p / 2 ^ 53"
    and b: "0 < x" "1 / 2 ^ 16 \<le> p" "1 \<le> n" "n \<le> 2 ^ 24"
  shows "s < n" "\<bar>s - i * x\<bar> \<le> 1 / 2 ^ 24"
proof -
  define e :: rat where "e = 1 / 2 ^ 53"
  have pos: "0 < p" using b(2) by (rule less_le_trans[rotated]) simp
  have ne: "n * e \<le> 2 ^ 24 * e" using b(4) by (simp add: e_def)
  have "(i + 1) * p \<le> n / p * (1 + e) * p" using i(1) q pos unfolding e_def by (intro mult_right_mono) simp_all
  moreover have "n / p * (1 + e) * p = n + n * e" using pos by (simp add: field_simps)
  ultimately have ip: "i * p \<le> n + n * e - p" by (simp add: distrib_right)
  have ip0: "0 \<le> i * p" using i(2) pos by simp
  have n2: "n + n * e - p \<le> 2 * n" using ne b(3) pos by (simp add: e_def)
  have ipe: "i * p * e \<le> 2 * (2 ^ 24 * e)"
  proof -
    have "i * p * e \<le> 2 * n * e" using ip n2 by (intro mult_right_mono) (simp_all add: e_def)
    then show ?thesis using ne by simp
  qed
  have se: "\<bar>s - i * p\<bar> \<le> 2 * (2 ^ 24 * e)" using s ipe by (simp add: e_def)
  have small: "3 * (2 ^ 24 * e) < 1 / 2 ^ 16" "4 * (2 ^ 24 * e) + 2 * (2 ^ 24 * e) \<le> 1 / 2 ^ 24" by (simp_all add: e_def)
  show "s < n" using se ip ne small(1) b(2) by linarith
  have "x / 2 ^ 53 \<le> x / 2" using b(1) by simp
  then have "x \<le> 2 * p" using p by linarith
  then have "i * x \<le> i * (2 * p)" using i(2) by (rule mult_left_mono)
  then have ixe: "i * x * e \<le> 2 * (i * p * e)" by (simp add: e_def)
  have "i * p - i * x = i * (p - x)" by algebra
  then have "\<bar>i * p - i * x\<bar> = i * \<bar>p - x\<bar>" using i(2) by (simp add: abs_mult)
  also have "\<dots> \<le> i * (x * e)" using p i(2) by (intro mult_left_mono) (simp_all add: e_def)
  finally have "\<bar>i * p - i * x\<bar> \<le> 4 * (2 ^ 24 * e)" using ixe ipe by (simp add: mult.assoc)
  with se small(2) show "\<bar>s - i * x\<bar> \<le> 1 / 2 ^ 24" by linarith
qed

text \<open>One output frame is the line at its source position.\<close>

lemma near_trans:
  fixes y l m :: rat
  assumes "\<bar>y - 32767 * l\<bar> < 1" "\<bar>l - m\<bar> \<le> 1 / 2 ^ 20"
  shows "\<bar>y - 32767 * m\<bar> < 3 / 2"
proof -
  have "(1 / 2 ^ 20 :: rat) = 1 / 1048576" by simp
  then show ?thesis using assms by linarith
qed

lemma resample_at_near:
  assumes "fmul F64 (fl F64 (of_nat i)) ratio = Fin s" "0 \<le> s" "s < of_nat (length vs)" "length vs \<le> 2 ^ 24"
    and "list_all unit_sample vs"
  shows "\<bar>of_int (sint (resample_at vs ratio i)) - 32767 * lerp vs s\<bar> < 3 / 2"
proof -
  let ?k = "nat \<lfloor>s\<rfloor>" and ?t = "s - of_int \<lfloor>s\<rfloor>" and ?f = "\<lambda>k. level (vs ! min k (length vs - 1))"
  have fs: "0 \<le> \<lfloor>s\<rfloor>" "\<lfloor>s\<rfloor> < int (length vs)" using assms(2,3) by (simp, simp add: floor_less_iff)
  then have k: "?k < length vs" "of_nat ?k = (of_int \<lfloor>s\<rfloor> :: rat)" by (simp_all only: nat_less_iff of_nat_nat)
  have "int (length vs) \<le> 2 ^ 24" using assms(4) by (metis of_nat_le_iff of_nat_numeral of_nat_power)
  moreover have "(2 :: int) ^ 24 \<le> int u64_max" by (simp add: u64_max_def)
  ultimately have "\<lfloor>s\<rfloor> \<le> int u64_max" using fs(2) by linarith
  then have idx: "to_usize (ffloor (Fin s)) = ?k" using fs(1) by (simp add: to_usize_def)
  have fk: "fl F64 (of_nat ?k) = Fin (of_int \<lfloor>s\<rfloor>)" using fl64_nat[of ?k] k assms(4) by simp
  have unit: "vs ! j = Fin (level (vs ! j))" if "j < length vs" for j
    using assms(5) that by (simp add: list_all_length unit_sample_def)
  have a: "get_or vs ?k (Fin 0) = Fin (?f ?k)" using unit[OF k(1)] k(1) by (simp add: get_or_def)
  have b: "get_or vs (?k + 1) (Fin (?f ?k)) = Fin (?f (?k + 1))"
  proof (cases "?k + 1 < length vs")
    case True
    then have "min (?k + 1) (length vs - 1) = ?k + 1" by simp
    then show ?thesis using unit[OF True] True by (simp only: get_or_def if_True)
  next
    case False
    then have "min (?k + 1) (length vs - 1) = min ?k (length vs - 1)" using k(1) by simp
    then show ?thesis using False by (simp only: get_or_def if_False)
  qed
  have t: "0 \<le> ?t" "?t < 1" by linarith+
  obtain v where v: "fadd F32 (Fin (?f ?k)) (fmul F32 (fsub F32 (Fin (?f (?k + 1))) (Fin (?f ?k))) (fcast F32 (fl F64 ?t))) = Fin v"
    "\<bar>v - (?f ?k + (?f (?k + 1) - ?f ?k) * ?t)\<bar> \<le> 1 / 2 ^ 20"
    by (rule interpolate_near[OF level_bound level_bound t])
  have "resample_at vs ratio i = float_to_i16 (Fin v)"
    unfolding resample_at_def Let_def assms(1) idx fk a b fsub_def[of F64] fneg.simps fadd.simps[of F64]
    using v(1) by (simp add: fsub_def)
  moreover have l: "\<bar>v - lerp vs s\<bar> \<le> 1 / 2 ^ 20" using v(2) by (simp only: lerp_def lin_def)
  moreover have "\<bar>lerp vs s\<bar> \<le> 1" unfolding lerp_def by (rule lin_bound) (rule level_bound)
  then have "\<bar>level (Fin v) - lerp vs s\<bar> \<le> 1 / 2 ^ 20" using l unfolding level.simps by linarith
  ultimately show ?thesis using near_trans[OF float_to_i16_level[of "Fin v"]] by simp
qed

text \<open>
  What conversion to 48 kHz promises of one channel: at 48 kHz each sample at its level on the 16-bit
  scale; at another rate as many frames as last as long, up to one, each on the line through the
  samples at its time, if these are between minus one and one.
\<close>

definition converted :: "u32 \<Rightarrow> flt list \<Rightarrow> u16 list \<Rightarrow> bool" where
  "converted rt vs ys \<longleftrightarrow>
     (if rt = TARGET_RATE
      then length ys = length vs \<and> (\<forall>i < length vs. \<bar>of_int (sint (ys ! i)) - 32767 * level (vs ! i)\<bar> < 1)
      else \<bar>of_nat (length ys) + 1 / 2 - of_nat (length vs) * 48000 / of_nat (unat rt)\<bar> \<le> (1 / 2 + 1 / 2 ^ 10 :: rat)
        \<and> (list_all unit_sample vs \<longrightarrow>
             (\<forall>i < length ys. \<bar>of_int (sint (ys ! i)) - 32767 * lerp vs (of_nat i * of_nat (unat rt) / 48000)\<bar> < 2)))"

lemma fl64_product:
  assumes "1 / 2 ^ 16 \<le> p" "p \<le> 2 ^ 18" "i < 2 ^ 42"
  obtains s where "fmul F64 (fl F64 (of_nat i)) (Fin p) = Fin s" "0 \<le> s" "\<bar>s - of_nat i * p\<bar> \<le> of_nat i * p / 2 ^ 53"
proof (cases "i = 0")
  case True
  have "fmul F64 (fl F64 (of_nat i)) (Fin p) = Fin 0" using fl64_nat[of 0] True by simp
  then show thesis using that True by simp
next
  case False
  have pos: "0 < p" using assms(1) by (rule less_le_trans[rotated]) simp
  have i: "1 \<le> (of_nat i :: rat)" using False by simp
  have iu: "(of_nat i :: rat) \<le> 2 ^ 42" using assms(3) by (metis less_imp_le of_nat_le_iff of_nat_numeral of_nat_power)
  have "1 * p \<le> of_nat i * p" using i pos by (intro mult_right_mono) simp_all
  moreover have "(1 / 2 ^ 20 :: rat) \<le> 1 / 2 ^ 16" by simp
  ultimately have "1 / 2 ^ 20 \<le> of_nat i * p" using assms(1) by linarith
  then have lo: "1 / 2 ^ 20 \<le> \<bar>of_nat i * p\<bar>" by (rule order_trans) simp
  have "of_nat i * p \<le> 2 ^ 42 * 2 ^ 18" using iu assms(2) pos by (intro mult_mono) simp_all
  then have hi: "\<bar>of_nat i * p\<bar> \<le> 2 ^ 64" using pos by (simp add: abs_mult)
  obtain s where s: "fl F64 (of_nat i * p) = Fin s" "\<bar>s - of_nat i * p\<bar> \<le> \<bar>of_nat i * p\<bar> / 2 ^ 53" "0 \<le> s"
    by (rule fl64_relative[OF lo hi]) (use pos in simp)
  have "fl F64 (of_nat i) = Fin (of_nat i)" using fl64_nat[of i] assms(3) by simp
  with s that pos show thesis by (simp add: abs_mult)
qed

lemma resample_ratio:
  assumes "0 < r" "r < 2 ^ 32" "0 < n" "n \<le> 2 ^ 24"
  obtains p q :: rat where "fdiv F64 (fl F64 (of_nat r)) (fl F64 (of_nat 48000)) = Fin p"
    "fdiv F64 (fl F64 (of_nat n)) (Fin p) = Fin q"
    "\<bar>p - of_nat r / 48000\<bar> \<le> of_nat r / 48000 / 2 ^ 53" "\<bar>q - of_nat n / p\<bar> \<le> of_nat n / p / 2 ^ 53"
    "1 / 2 ^ 16 \<le> p" "p \<le> 2 ^ 18" "of_nat n / p \<le> 2 ^ 40" "0 \<le> q"
proof -
  let ?x = "of_nat r / 48000 :: rat"
  have r: "1 \<le> (of_nat r :: rat)" "(of_nat r :: rat) \<le> 2 ^ 32"
    using assms(1,2) by (simp, metis less_imp_le of_nat_le_iff of_nat_numeral of_nat_power)
  have n: "1 \<le> (of_nat n :: rat)" "(of_nat n :: rat) \<le> 2 ^ 24"
    using assms(3,4) by (simp, metis of_nat_le_iff of_nat_numeral of_nat_power)
  have x: "1 / 48000 \<le> ?x" "?x \<le> 2 ^ 17" using r by simp_all
  then have xa: "1 / 2 ^ 20 \<le> \<bar>?x\<bar>" "\<bar>?x\<bar> \<le> 2 ^ 64" by simp_all
  obtain p where p: "fl F64 ?x = Fin p" "\<bar>p - ?x\<bar> \<le> \<bar>?x\<bar> / 2 ^ 53" by (rule fl64_relative[OF xa])
  have "?x / 2 ^ 53 \<le> ?x / 8" using x(1) by simp
  then have "\<bar>p - ?x\<bar> \<le> ?x / 8" using p(2) by simp
  then have "7 / 8 * ?x \<le> p" "p \<le> 2 * ?x" using x(1) by linarith+
  then have pb: "1 / 2 ^ 16 \<le> p" "p \<le> 2 ^ 18" using x by simp_all
  have pos: "0 < p" using pb(1) by (rule less_le_trans[rotated]) simp
  have "of_nat n / p \<le> 2 ^ 24 / (1 / 2 ^ 16)" using n pb(1) by (intro frac_le) simp_all
  then have hi: "of_nat n / p \<le> 2 ^ 40" by simp
  have "1 / 2 ^ 18 \<le> of_nat n / p" using n pb pos by (intro frac_le) simp_all
  then have na: "1 / 2 ^ 20 \<le> \<bar>of_nat n / p\<bar>" "\<bar>of_nat n / p\<bar> \<le> 2 ^ 64" using hi pos by simp_all
  obtain q where q: "fl F64 (of_nat n / p) = Fin q" "\<bar>q - of_nat n / p\<bar> \<le> \<bar>of_nat n / p\<bar> / 2 ^ 53" "0 \<le> q"
    by (rule fl64_relative[OF na]) (use pos in simp)
  have "fl F64 (of_nat r) = Fin (of_nat r)" "fl F64 (of_nat 48000) = Fin (of_nat 48000)" "fl F64 (of_nat n) = Fin (of_nat n)"
    using fl64_nat[of r] fl64_nat[of 48000] fl64_nat[of n] assms(2,4) by simp_all
  then have "fdiv F64 (fl F64 (of_nat r)) (fl F64 (of_nat 48000)) = Fin p" "fdiv F64 (fl F64 (of_nat n)) (Fin p) = Fin q"
    using p(1) q(1) pos by simp_all
  with that p(2) q(2,3) pb hi pos x(1) show thesis by simp
qed

lemma resample_mono_converted:
  assumes "0 < unat rt" "length vs \<le> 2 ^ 24"
  shows "converted rt vs (resample_mono vs rt TARGET_RATE)"
proof (cases "rt = TARGET_RATE")
  case True
  then show ?thesis using float_to_i16_level by (simp add: converted_def resample_mono_def)
next
  case other: False
  show ?thesis
  proof (cases "vs = []")
    case True
    then show ?thesis using other by (simp add: converted_def resample_mono_def)
  next
    case False
    obtain r where rt: "unat rt = r" by blast
    let ?n = "length vs" and ?x = "of_nat r / 48000 :: rat"
    have t: "unat TARGET_RATE = 48000" by (simp add: TARGET_RATE_def)
    have r: "0 < r" "r < 2 ^ 32" using unsigned_less[of rt, where 'a = nat] assms(1) by (simp_all add: rt)
    obtain p q where pq: "fdiv F64 (fl F64 (of_nat r)) (fl F64 (of_nat 48000)) = Fin p"
      "fdiv F64 (fl F64 (of_nat ?n)) (Fin p) = Fin q"
      "\<bar>p - ?x\<bar> \<le> ?x / 2 ^ 53" "\<bar>q - of_nat ?n / p\<bar> \<le> of_nat ?n / p / 2 ^ 53"
      "1 / 2 ^ 16 \<le> p" "p \<le> 2 ^ 18" "of_nat ?n / p \<le> 2 ^ 40" "0 \<le> q"
      by (rule resample_ratio[OF r _ assms(2)]) (use False in simp_all)
    have "0 < p" using pq(5) by (rule less_le_trans[rotated]) simp
    moreover have "0 < ?x" using r(1) by simp
    ultimately have pos: "0 < p" "0 < ?x" by blast+
    have "1 \<le> (of_nat ?n :: rat)" using False by (cases vs) simp_all
    moreover have "(of_nat ?n :: rat) \<le> 2 ^ 24" using assms(2) by (metis of_nat_le_iff of_nat_numeral of_nat_power)
    ultimately have n: "1 \<le> (of_nat ?n :: rat)" "(of_nat ?n :: rat) \<le> 2 ^ 24" by blast+
    have np: "0 \<le> of_nat ?n / p" using pos(1) by simp
    have qb: "q \<le> of_nat ?n / p * (1 + 1 / 2 ^ 53)" "q \<le> of_nat ?n / p + of_nat ?n / p / 2 ^ 53"
      using pq(4) by (simp_all only: distrib_left abs_le_iff mult_1_right times_divide_eq_right) simp_all
    have "of_nat ?n / p / 2 ^ 53 \<le> of_nat ?n / p / 1" using np by (intro divide_left_mono) simp_all
    then have q41: "q \<le> 2 ^ 41" using qb(2) pq(7) by simp
    let ?ys = "resample_mono vs rt TARGET_RATE"
    have "\<lfloor>q\<rfloor> \<le> int u64_max" "0 \<le> \<lfloor>q\<rfloor>" using q41 pq(8) by (simp_all add: u64_max_def floor_le_iff)
    then have fr: "to_usize (ffloor (Fin q)) = nat \<lfloor>q\<rfloor>" by (simp add: to_usize_def)
    have ys: "?ys = map (resample_at vs (Fin p)) [0..<nat \<lfloor>q\<rfloor>]"
      unfolding resample_mono_def Let_def t rt pq(1) pq(2) fr using other False by simp
    have "of_nat ?n / p \<le> 2 ^ 42" using pq(7) by simp
    from output_count[OF pq(3,4) pos(2,1) _ this] have "\<bar>q - of_nat ?n * 48000 / of_nat r\<bar> \<le> 1 / 2 ^ 10" by simp
    moreover have len: "of_nat (length ?ys) = (of_int \<lfloor>q\<rfloor> :: rat)" using pq(8) by (simp add: ys)
    moreover have "of_int \<lfloor>q\<rfloor> \<le> q" "q \<le> of_int \<lfloor>q\<rfloor> + 1" by linarith+
    ultimately have count: "\<bar>of_nat (length ?ys) + 1 / 2 - of_nat ?n * 48000 / of_nat r\<bar> \<le> (1 / 2 + 1 / 2 ^ 10 :: rat)" by linarith
    have near: "\<bar>of_int (sint (?ys ! i)) - 32767 * lerp vs (of_nat i * of_nat r / 48000)\<bar> < 2"
      if u: "list_all unit_sample vs" and i: "i < length ?ys" for i
    proof -
      have "int i + 1 \<le> \<lfloor>q\<rfloor>" using i pq(8) by (simp add: ys)
      then have iq: "of_nat i + 1 \<le> q" by (simp add: le_floor_iff)
      then have "(of_nat i :: rat) < 2 ^ 42" using q41 by simp
      then have "i < 2 ^ 42" by (metis of_nat_less_iff of_nat_numeral of_nat_power)
      from fl64_product[OF pq(5,6) this] obtain s where s: "fmul F64 (fl F64 (of_nat i)) (Fin p) = Fin s" "0 \<le> s"
        "\<bar>s - of_nat i * p\<bar> \<le> of_nat i * p / 2 ^ 53" by blast
      note pn = source_position[OF pq(3) qb(1) iq of_nat_0_le_iff s(3) pos(2) pq(5) n]
      have a: "\<bar>of_int (sint (?ys ! i)) - 32767 * lerp vs s\<bar> < 3 / 2"
        using resample_at_near[OF s(1,2) pn(1) assms(2) u] i by (simp add: ys)
      have "\<bar>lerp vs s - lerp vs (of_nat i * ?x)\<bar> \<le> 2 * (1 / 2 ^ 24)"
        unfolding lerp_def by (rule lin_close[OF level_bound s(2) _ pn(2)]) simp_all
      moreover have "2 * (1 / 2 ^ 24) = (1 / 8388608 :: rat)" by simp
      ultimately have "\<bar>lerp vs s - lerp vs (of_nat i * ?x)\<bar> \<le> 1 / 8388608" by simp
      with a have "\<bar>of_int (sint (?ys ! i)) - 32767 * lerp vs (of_nat i * ?x)\<bar> < 2" by linarith
      then show ?thesis by (simp only: times_divide_eq_right)
    qed
    show ?thesis using other count near by (simp add: converted_def rt)
  qed
qed

lemma length_resample: "length xs = length ys \<Longrightarrow> length (resample_mono xs r s) = length (resample_mono ys r s)"
  by (auto simp: resample_mono_def Let_def)

section \<open>Stereo at 48 kHz\<close>

lemma stereo_frames:
  assumes "i < length samples div 2"
  shows "downmix_to_stereo (subslice (i * 2) (i * 2 + 2) samples) 2 = (samples ! (2 * i), samples ! (2 * i + 1))"
proof -
  have "2 * i + 1 < length samples" using assms by linarith
  moreover from this have "length (subslice (i * 2) (i * 2 + 2) samples) = 2" by (simp add: subslice_def)
  ultimately show ?thesis by (simp add: downmix_to_stereo_def get_or_def subslice_def mult.commute)
qed

lemma stereo_at_target_rate:
  "append_f32_interleaved out samples 2 TARGET_RATE
    = out @ concat (map (\<lambda>i. i16_le (float_to_i16 (samples ! (2 * i))) @ i16_le (float_to_i16 (samples ! (2 * i + 1))))
        [0..<length samples div 2])"
proof (cases "length samples div 2 = 0")
  case True
  then show ?thesis by (simp add: append_f32_interleaved_def resample_mono_def)
next
  case False
  let ?n = "length samples div 2"
  define frames where "frames = map (\<lambda>f. downmix_to_stereo (subslice (f * 2) (f * 2 + 2) samples) 2) [0..<?n]"
  have fr: "frames ! i = (samples ! (2 * i), samples ! (2 * i + 1))" if "i < ?n" for i
    using that stereo_frames[OF that] by (simp add: frames_def)
  have len: "length frames = ?n" by (simp add: frames_def)
  have ne: "frames \<noteq> []" "samples \<noteq> []" using False by (auto simp: frames_def)
  have "append_f32_interleaved out samples 2 TARGET_RATE
      = out @ concat (map (\<lambda>i. i16_le (map (\<lambda>f. float_to_i16 (fst f)) frames ! i)
          @ i16_le (map (\<lambda>f. float_to_i16 (snd f)) frames ! i)) [0..<?n])"
    using ne by (simp add: append_f32_interleaved_def resample_mono_def frames_def comp_def Let_def)
  also have "map (\<lambda>i. i16_le (map (\<lambda>f. float_to_i16 (fst f)) frames ! i)
          @ i16_le (map (\<lambda>f. float_to_i16 (snd f)) frames ! i)) [0..<?n]
      = map (\<lambda>i. i16_le (float_to_i16 (samples ! (2 * i))) @ i16_le (float_to_i16 (samples ! (2 * i + 1)))) [0..<?n]"
    by (rule map_cong) (simp_all add: fr len)
  finally show ?thesis .
qed

section \<open>Any channel count and rate\<close>

definition channel :: "'a list \<Rightarrow> nat \<Rightarrow> nat \<Rightarrow> 'a list" where
  "channel xs c k = map (\<lambda>f. xs ! (f * c + k)) [0..<length xs div c]"

lemma length_channel [simp]: "length (channel xs c k) = length xs div c"
  by (simp add: channel_def)

lemma channel_map: "k < c \<Longrightarrow> channel (map g xs) c k = map g (channel xs c k)"
proof (rule nth_equalityI)
  fix i
  assume k: "k < c" and "i < length (channel (map g xs) c k)"
  then have i: "i < length xs div c" by simp
  then have "Suc i * c \<le> length xs div c * c" by (intro mult_le_mono1) simp
  then have "i * c + k < length xs" using k div_times_less_eq_dividend[of "length xs" c] unfolding mult_Suc by linarith
  with i show "channel (map g xs) c k ! i = map g (channel xs c k) ! i" by (simp add: channel_def)
qed simp

lemma downmix_frame:
  assumes "0 < c" "f < length xs div c"
  shows "downmix_to_stereo (subslice (f * c) (f * c + c) xs) c
    = (xs ! (f * c), xs ! (f * c + (if c = 1 then 0 else 1)))"
proof -
  have "Suc f * c \<le> length xs div c * c" using assms(2) by (intro mult_le_mono1) simp
  then have len: "f * c + c \<le> length xs" using div_times_less_eq_dividend[of "length xs" c] unfolding mult_Suc by linarith
  obtain s where s: "subslice (f * c) (f * c + c) xs = s" by blast
  have "length s = c" "\<And>k. k < c \<Longrightarrow> s ! k = xs ! (f * c + k)"
    using len by (simp_all add: subslice_def flip: s)
  then show ?thesis unfolding s using assms(1) by (auto simp: downmix_to_stereo_def get_or_def)
qed

lemma append_f32_channels:
  assumes "0 < c" "0 < unat rt" "length xs div c \<le> 2 ^ 24"
  shows "\<exists>ls rs. append_f32_interleaved out xs c rt = out @ concat (map2 (\<lambda>l r. i16_le l @ i16_le r) ls rs)
    \<and> length ls = length rs \<and> converted rt (channel xs c 0) ls \<and> converted rt (channel xs c (if c = 1 then 0 else 1)) rs
    \<and> ls = resample_mono (channel xs c 0) rt TARGET_RATE
    \<and> rs = resample_mono (channel xs c (if c = 1 then 0 else 1)) rt TARGET_RATE"
proof -
  let ?l = "channel xs c 0" and ?r = "channel xs c (if c = 1 then 0 else 1)"
  let ?ls = "resample_mono ?l rt TARGET_RATE" and ?rs = "resample_mono ?r rt TARGET_RATE"
  have len: "length ?ls = length ?rs" by (rule length_resample) simp
  have "map (\<lambda>f. downmix_to_stereo (subslice (f * c) (f * c + c) xs) c) [0..<length xs div c]
      = map (\<lambda>f. (xs ! (f * c), xs ! (f * c + (if c = 1 then 0 else 1)))) [0..<length xs div c]"
    by (rule map_cong[OF refl], rule downmix_frame[OF assms(1)]) simp
  note frames = this
  have m: "map fst (map (\<lambda>f. (xs ! (f * c), xs ! (f * c + (if c = 1 then 0 else 1)))) [0..<length xs div c]) = ?l"
    "map snd (map (\<lambda>f. (xs ! (f * c), xs ! (f * c + (if c = 1 then 0 else 1)))) [0..<length xs div c]) = ?r"
    by (simp_all only: channel_def map_map comp_def fst_conv snd_conv add_0_right)
  have "append_f32_interleaved out xs c rt = out @ concat (map (\<lambda>i. i16_le (?ls ! i) @ i16_le (?rs ! i)) [0..<length ?ls])"
  proof (cases "xs = []")
    case True
    then show ?thesis by (simp add: append_f32_interleaved_def channel_def resample_mono_def)
  next
    case False
    then show ?thesis
      using assms(1) len unfolding append_f32_interleaved_def Let_def frames m by simp
  qed
  also have "map (\<lambda>i. i16_le (?ls ! i) @ i16_le (?rs ! i)) [0..<length ?ls] = map2 (\<lambda>l r. i16_le l @ i16_le r) ?ls ?rs"
    by (rule nth_equalityI) (simp_all add: len)
  finally have eq: "append_f32_interleaved out xs c rt = out @ concat (map2 (\<lambda>l r. i16_le l @ i16_le r) ?ls ?rs)" .
  have "converted rt ?l ?ls" "converted rt ?r ?rs"
    using resample_mono_converted[OF assms(2), of ?l] resample_mono_converted[OF assms(2), of ?r] assms(3)
    by (simp_all only: length_channel)
  with eq len show ?thesis by (intro exI[of _ ?ls] exI[of _ ?rs] conjI refl)
qed

text \<open>
  C24. Capture, of any channel count and rate. Samples from a microphone become the session's 16-bit
  stereo PCM, appended frame by frame: the left channel is the device's first, the right one its
  second, or the first again when the device is mono; a trailing incomplete frame is left out. At
  48 kHz every frame is kept and each sample is less than one unit from its level (cut to [-1, 1],
  NaN being silence) on the 16-bit scale, and 16-bit samples move by at most one unit. At any other
  rate the frames last as long as those read, up to one frame, and each sample lies less than two
  units from the line through the input samples at its time, when these are in [-1, 1]. It holds
  for up to sixteen million frames at once.
\<close>

theorem capture_conversion:
  assumes "0 < c" "0 < unat rt" "length xs div c \<le> 2 ^ 24" "length ys div c \<le> 2 ^ 24"
  shows "(\<exists>ls rs. append_f32_interleaved out xs c rt = out @ concat (map2 (\<lambda>l r. i16_le l @ i16_le r) ls rs)
      \<and> length ls = length rs \<and> converted rt (channel xs c 0) ls
      \<and> converted rt (channel xs c (if c = 1 then 0 else 1)) rs)
    \<and> (\<exists>ls rs. append_i16_interleaved out ys c rt = out @ concat (map2 (\<lambda>l r. i16_le l @ i16_le r) ls rs)
      \<and> length ls = length rs
      \<and> converted rt (map (\<lambda>y. Fin (of_int (sint y) / 32768)) (channel ys c 0)) ls
      \<and> converted rt (map (\<lambda>y. Fin (of_int (sint y) / 32768)) (channel ys c (if c = 1 then 0 else 1))) rs
      \<and> (rt = TARGET_RATE \<longrightarrow> list_all2 (\<lambda>l y. \<bar>sint l - sint y\<bar> \<le> 1) ls (channel ys c 0)
          \<and> list_all2 (\<lambda>r y. \<bar>sint r - sint y\<bar> \<le> 1) rs (channel ys c (if c = 1 then 0 else 1))))"
proof (rule conjI)
  show "\<exists>ls rs. append_f32_interleaved out xs c rt = out @ concat (map2 (\<lambda>l r. i16_le l @ i16_le r) ls rs)
      \<and> length ls = length rs \<and> converted rt (channel xs c 0) ls
      \<and> converted rt (channel xs c (if c = 1 then 0 else 1)) rs"
    using append_f32_channels[OF assms(1-3), of out] by blast
  let ?k = "if c = 1 then 0 else 1 :: nat" and ?fs = "map i16_to_f32 ys"
  have k: "0 < c" "?k < c" using assms(1) by auto
  have f: "i16_to_f32 = (\<lambda>y. Fin (of_int (sint y) / 32768))" by (rule ext) (rule i16_to_f32_exact)
  have len: "length ?fs div c \<le> 2 ^ 24" using assms(4) by (simp only: length_map)
  have "append_i16_interleaved out ys c rt = append_f32_interleaved out ?fs c rt"
    using assms(1) by (cases "ys = []") (simp_all add: append_i16_interleaved_def append_f32_interleaved_def i16_to_f32_def[abs_def])
  with append_f32_channels[OF assms(1,2) len, of out] obtain ls rs where
    a: "append_i16_interleaved out ys c rt = out @ concat (map2 (\<lambda>l r. i16_le l @ i16_le r) ls rs)" "length ls = length rs"
      "converted rt (channel ?fs c 0) ls" "converted rt (channel ?fs c ?k) rs"
      "ls = resample_mono (channel ?fs c 0) rt TARGET_RATE" "rs = resample_mono (channel ?fs c ?k) rt TARGET_RATE" by auto
  have one: "list_all2 (\<lambda>l y. \<bar>sint l - sint y\<bar> \<le> 1) (resample_mono (map i16_to_f32 zs) TARGET_RATE TARGET_RATE) zs" for zs
    by (simp add: resample_mono_def list_all2_map1 list_all2_same float_to_i16_sample)
  show "\<exists>ls rs. append_i16_interleaved out ys c rt = out @ concat (map2 (\<lambda>l r. i16_le l @ i16_le r) ls rs)
      \<and> length ls = length rs
      \<and> converted rt (map (\<lambda>y. Fin (of_int (sint y) / 32768)) (channel ys c 0)) ls
      \<and> converted rt (map (\<lambda>y. Fin (of_int (sint y) / 32768)) (channel ys c ?k)) rs
      \<and> (rt = TARGET_RATE \<longrightarrow> list_all2 (\<lambda>l y. \<bar>sint l - sint y\<bar> \<le> 1) ls (channel ys c 0)
          \<and> list_all2 (\<lambda>r y. \<bar>sint r - sint y\<bar> \<le> 1) rs (channel ys c ?k))"
    using a one unfolding channel_map[OF k(1)] channel_map[OF k(2)] f by (intro exI[of _ ls] exI[of _ rs] conjI impI) simp_all
qed

text \<open>Mono at half the rate: each sample twice as long.\<close>

theorem capture_conversion_witness:
  "\<exists>ls rs. append_f32_interleaved [] [Fin (1 / 2), Fin (- 1 / 2)] 1 24000
      = concat (map2 (\<lambda>l r. i16_le l @ i16_le r) ls rs)
    \<and> \<bar>of_nat (length rs) + 1 / 2 - 4\<bar> \<le> (1 / 2 + 1 / 2 ^ 10 :: rat)
    \<and> (1 < length rs \<longrightarrow> \<bar>of_int (sint (rs ! 1))\<bar> < (2 :: rat))"
proof -
  let ?xs = "[Fin (1 / 2), Fin (- 1 / 2)]"
  have "channel ?xs 1 0 = ?xs" by (simp add: channel_def)
  moreover have "list_all unit_sample ?xs" by (simp add: unit_sample_def)
  moreover have "\<lfloor>1 / 2 :: rat\<rfloor> = 0" by (simp add: floor_eq_iff)
  then have "lerp ?xs (of_nat 1 * of_nat 24000 / 48000) = 0" by (simp add: lerp_def lin_def)
  moreover have "(24000 :: u32) \<noteq> TARGET_RATE" "unat (24000 :: u32) = 24000" by (simp_all add: TARGET_RATE_def)
  moreover obtain ls rs where ap: "append_f32_interleaved [] ?xs 1 24000 = [] @ concat (map2 (\<lambda>l r. i16_le l @ i16_le r) ls rs)"
    and "converted 24000 (channel ?xs 1 0) rs"
    using capture_conversion[of 1 24000 ?xs "[]" "[]"] by auto
  ultimately have "\<bar>of_nat (length rs) + 1 / 2 - 4\<bar> \<le> (1 / 2 + 1 / 2 ^ 10 :: rat)"
    "1 < length rs \<Longrightarrow> \<bar>of_int (sint (rs ! 1))\<bar> < (2 :: rat)"
    unfolding converted_def by (simp_all only: if_False) (simp, metis diff_zero mult_zero_right)
  with ap show ?thesis by (intro exI conjI impI) (auto simp only: append_Nil)
qed

section \<open>To the device\<close>

definition pcm_bytes :: "u16 list \<Rightarrow> byte list" where
  "pcm_bytes ys = concat (map i16_le ys)"

lemma length_pcm_bytes [simp]: "length (pcm_bytes ys) = 2 * length ys"
  by (induction ys) (simp_all add: pcm_bytes_def)

lemma pcm_bytes_nth:
  "i < length ys \<Longrightarrow> i16_from_le (pcm_bytes ys ! (2 * i)) (pcm_bytes ys ! Suc (2 * i)) = ys ! i"
proof (induction ys arbitrary: i)
  case Nil
  then show ?case by simp
next
  case (Cons y ys)
  have two: "pcm_bytes (y # ys) = i16_le y ! 0 # i16_le y ! 1 # pcm_bytes ys"
    by (simp add: pcm_bytes_def i16_le_def)
  show ?case
  proof (cases i)
    case 0
    then show ?thesis using i16_from_le_le[of y] by (simp add: two)
  next
    case (Suc j)
    then show ?thesis using Cons by (simp add: two)
  qed
qed

definition padded :: "'a list \<Rightarrow> 'a \<Rightarrow> nat \<Rightarrow> 'a list" where
  "padded xs d n = map (\<lambda>i. if i < length xs then xs ! i else d) [0..<n]"

lemma length_padded [simp]: "length (padded xs d n) = n"
  by (simp add: padded_def)

lemma padded_take [simp]: "length xs = n \<Longrightarrow> padded xs d n = xs"
  by (rule nth_equalityI) (simp_all add: padded_def)

lemma fill_i16_same_channels:
  assumes "0 < c"
  shows "fill_device_i16_from_session_i16 dev (pcm_bytes ys) c c = padded ys 0 (length dev)"
proof (rule nth_equalityI)
  fix i
  assume "i < length (fill_device_i16_from_session_i16 dev (pcm_bytes ys) c c)"
  then have i: "i < length dev" by (simp add: fill_device_i16_from_session_i16_def)
  have mx: "max c 1 = c" using assms by simp
  have ch: "(if c = 1 then 0 else i mod c) = i mod c" by simp
  have lt: "i mod c < c" "i * 2 + 1 < 2 * length ys \<longleftrightarrow> i < length ys" using assms by (simp, linarith)
  have "fill_device_i16_from_session_i16 dev (pcm_bytes ys) c c ! i
      = (if i < length ys then i16_from_le (pcm_bytes ys ! (i * 2)) (pcm_bytes ys ! (i * 2 + 1)) else 0)"
    using i by (simp only: fill_device_i16_from_session_i16_def nth_map length_upt nth_upt Let_def mx ch
        length_pcm_bytes div_mult_mod_eq lt add_0 diff_zero simp_thms)
  then show "fill_device_i16_from_session_i16 dev (pcm_bytes ys) c c ! i = padded ys 0 (length dev) ! i"
    using i pcm_bytes_nth[of i ys] by (simp add: padded_def mult.commute)
qed (simp add: fill_device_i16_from_session_i16_def)

lemma write_frame_stereo:
  "base + 1 < length out \<Longrightarrow> write_frame l r base 2 out = out[base := l, Suc base := r]"
  by (simp add: write_frame_def upt_rec)

lemma session_frame_stereo:
  "session_frame (pcm_bytes ys) 2 f = (if 2 * f + 1 < length ys then (i16_to_f32 (ys ! (2 * f)), i16_to_f32 (ys ! (2 * f + 1)))
     else if 2 * f < length ys then (i16_to_f32 (ys ! (2 * f)), i16_to_f32 (ys ! (2 * f))) else (Fin 0, Fin 0))"
  using pcm_bytes_nth[of "2 * f" ys] pcm_bytes_nth[of "2 * f + 1" ys]
  by (simp add: session_frame_def Let_def mult.commute numeral_eq_Suc add.assoc)


text \<open>Both fills write what the session holds: silence where it ends.\<close>

lemma fill_f32_frames:
  assumes "length dev = 2 * n" "length ys = 2 * m" "k \<le> n"
  shows "fold (\<lambda>f out. case session_frame (pcm_bytes ys) 2 f of (l, r) \<Rightarrow> write_frame l r (f * 2) 2 out) [0..<k] dev
    = map i16_to_f32 (padded ys 0 (2 * k)) @ drop (2 * k) dev"
  using assms(3)
proof (induction k)
  case 0
  then show ?case by (simp add: padded_def)
next
  case (Suc k)
  let ?p = "map i16_to_f32 (padded ys 0 (2 * k))"
  have zero: "i16_to_f32 0 = Fin 0" by (simp add: i16_to_f32_exact)
  have d: "drop (2 * k) dev = dev ! (2 * k) # dev ! (2 * k + 1) # drop (2 * Suc k) dev"
    using Suc.prems assms(1) by (simp add: Cons_nth_drop_Suc)
  have par: "2 * k < length ys \<longleftrightarrow> 2 * k + 1 < length ys" using assms(2) by simp linarith
  obtain l r where f: "session_frame (pcm_bytes ys) 2 k = (l, r)" by (cases "session_frame (pcm_bytes ys) 2 k")
  have lr: "l = (if 2 * k < length ys then i16_to_f32 (ys ! (2 * k)) else Fin 0)"
    "r = (if 2 * k + 1 < length ys then i16_to_f32 (ys ! (2 * k + 1)) else Fin 0)"
    using f par by (auto simp: session_frame_stereo split: if_splits)
  have u: "(drop (2 * k) dev)[0 := l, Suc 0 := r] = l # r # drop (2 * Suc k) dev"
    unfolding d by simp
  have two: "k * 2 = 2 * k" by simp
  have "write_frame l r (2 * k) 2 (?p @ drop (2 * k) dev) = (?p @ drop (2 * k) dev)[2 * k := l, Suc (2 * k) := r]"
    by (rule write_frame_stereo) (use Suc.prems assms(1) in simp)
  also have "\<dots> = ?p @ (drop (2 * k) dev)[0 := l, Suc 0 := r]" by (simp add: list_update_append)
  finally have "write_frame l r (k * 2) 2 (?p @ drop (2 * k) dev) = ?p @ l # r # drop (2 * Suc k) dev"
    by (simp only: u two)
  also have "\<dots> = map i16_to_f32 (padded ys 0 (2 * Suc k)) @ drop (2 * Suc k) dev"
    using lr zero by (simp add: padded_def)
  finally show ?case using Suc f by simp
qed

text \<open>
  Playback. A device buffer with the session's channel count is filled with exactly the samples of
  the session PCM, in order and at their place, and with silence where the PCM ends; a stereo float
  buffer holds the same samples divided by 32768, so nothing is lost: converting them back gives
  every sample up to one unit.
\<close>

theorem playback_conversion:
  assumes "0 < c" "length fdev = 2 * n" "length ys = 2 * m"
  shows "fill_device_i16_from_session_i16 dev (pcm_bytes ys) c c = padded ys 0 (length dev)
    \<and> fill_device_f32_from_session_i16 fdev (pcm_bytes ys) 2 2 = map i16_to_f32 (padded ys 0 (2 * n))
    \<and> list_all (\<lambda>y. \<bar>sint (float_to_i16 (i16_to_f32 y)) - sint y\<bar> \<le> 1) ys"
proof -
  have "max 2 (1 :: nat) = 2" by (simp add: max_def)
  then have "2 * n div max 2 1 = n" by (simp only: nonzero_mult_div_cancel_left)
  then show ?thesis
  using fill_i16_same_channels[OF assms(1), of dev ys] fill_f32_frames[OF assms(2,3), of n] assms(2)
    float_to_i16_sample by (simp only: fill_device_f32_from_session_i16_def list_all_iff mult.commute) simp
qed

theorem playback_conversion_witness:
  "fill_device_f32_from_session_i16 (replicate 4 (Fin 1)) (pcm_bytes [16384, 49152]) 2 2
    = [Fin (1 / 2), Fin (- 1 / 2), Fin 0, Fin 0]"
proof -
  have "sint (16384 :: u16) = 16384" "sint (49152 :: u16) = - 16384" "sint (0 :: u16) = 0" by code_simp+
  then show ?thesis
    using playback_conversion[of 1 "replicate 4 (Fin 1)" 2 "[16384, 49152]" 1 "[]"]
    by (simp add: padded_def upt_rec i16_to_f32_exact)
qed

end
