(* ===== verification/Capture.thy ===== *)
theory Capture
  imports Ring Pcm Audio_Format Utf8
begin

text \<open>
  \<open>src/src/audio/capture.rs\<close>: the capture handle that the sender polls every 5 ms, the callbacks that
  feed its queue, the synthetic tone, the selection of the input stream, and the worker thread that
  reopens a failed microphone. The operating system's audio interface (\<open>cpal\<close>, \<open>wasapi\<close>) is an
  argument: device lists, stream configurations and the outcome of each call. A \<open>try_lock\<close> that
  finds the mutex held is the argument \<open>busy\<close>; \<open>f32::sin\<close>, whose precision the standard library
  leaves open, is the argument \<open>fsin\<close>.
\<close>

definition RING_BYTES :: nat where "RING_BYTES = unat TARGET_RATE * 2 * 2 div 10"

datatype capture_source = Microphone | Loopback | Synthetic | Null

record capture_handle =
  ch_worker :: bool
  ch_ring :: byte_ring
  ch_error :: "rstring option"
  ch_synth_phase :: flt
  ch_format :: audio_format
  ch_source :: capture_source

section \<open>Reading\<close>

text \<open>\<open>f32::consts::TAU\<close> is the \<open>f32\<close> nearest to the real constant; \<open>%\<close> is exact.\<close>

definition TAU :: flt where "TAU = Fin (13176795 / 2097152)"

fun frem :: "flt \<Rightarrow> flt \<Rightarrow> flt" where
  "frem (Fin a) (Fin b) = (if b = 0 then NaN else Fin (a - of_int (trunc_rat (a / b)) * b))"
| "frem (Fin a) PInf = Fin a"
| "frem (Fin a) NInf = Fin a"
| "frem x y = NaN"

text \<open>One frame of the tone: the same sample on every whole channel of the frame.\<close>

definition synth_sample :: "(flt \<Rightarrow> flt) \<Rightarrow> flt \<Rightarrow> u16" where
  "synth_sample fsin phase =
     of_int (to_int_sat (- 32768) 32767 (fmul F32 (fmul F32 (fsin phase) (fl F32 (2 / 10))) (Fin 32767)))"

definition synth_frame :: "u16 \<Rightarrow> byte list \<Rightarrow> byte list" where
  "synth_frame sample frame =
     concat (replicate (length frame div 2) (i16_le sample)) @ drop (length frame div 2 * 2) frame"

text \<open>\<open>chunks_exact_mut(bpf)\<close>: the trailing bytes of an incomplete frame are left alone.\<close>

fun synth_loop :: "(flt \<Rightarrow> flt) \<Rightarrow> flt \<Rightarrow> nat \<Rightarrow> nat \<Rightarrow> flt \<Rightarrow> byte list \<Rightarrow> flt \<times> byte list" where
  "synth_loop fsin stp bpf 0 phase out = (phase, out)"
| "synth_loop fsin stp bpf (Suc n) phase out =
     (let frame = synth_frame (synth_sample fsin phase) (take bpf out);
          (phase, rest) = synth_loop fsin stp bpf n (frem (fadd F32 phase stp) TAU) (drop bpf out)
      in (phase, frame @ rest))"

definition synth_step :: "audio_format \<Rightarrow> flt" where
  "synth_step fmt = fdiv F32 (fmul F32 TAU (Fin 440)) (fl F32 (of_nat (unat (sample_rate fmt))))"

text \<open>\<open>chunks_exact_mut(0)\<close> panics; the formats that \<open>open_capture\<close> accepts have 4 bytes per frame.\<close>

definition fill_synth :: "(flt \<Rightarrow> flt) \<Rightarrow> capture_handle \<Rightarrow> byte list \<Rightarrow> nat \<times> capture_handle \<times> byte list" where
  "fill_synth fsin h out =
     (let bpf = bytes_per_frame (ch_format h);
          (phase, out') = synth_loop fsin (synth_step (ch_format h)) bpf (length out div bpf) (ch_synth_phase h) out
      in (length out, h\<lparr>ch_synth_phase := phase\<rparr>, out'))"

definition try_read :: "(flt \<Rightarrow> flt) \<Rightarrow> bool \<Rightarrow> capture_handle \<Rightarrow> byte list \<Rightarrow> nat \<times> capture_handle \<times> byte list" where
  "try_read fsin busy h out =
     (if ch_error h \<noteq> None then (0, h, replicate (length out) 0)
      else if ch_source h = Synthetic then fill_synth fsin h out
      else if ch_source h = Null then (length out, h, replicate (length out) 0)
      else if busy then (length out, h, replicate (length out) 0)
      else
        (let (n, ring, filled) = pop_into (ch_ring h) out;
             filled = (if n < length out then take n filled @ replicate (length out - n) 0 else filled)
         in (length out, h\<lparr>ch_ring := ring\<rparr>, filled)))"

definition capture_stop :: "capture_handle \<Rightarrow> capture_handle" where
  "capture_stop h = h\<lparr>ch_worker := False\<rparr>"

section \<open>Opening\<close>

datatype capture_error =
    Needs48kStereo | LoopbackUnsupported | SpawnFailed rstring
  | HostError rstring | InputNotFound nat | NoDefaultInput | NoUsableConfig | UnsupportedFormat

definition new_handle :: "audio_format \<Rightarrow> capture_source \<Rightarrow> bool \<Rightarrow> capture_handle" where
  "new_handle fmt src worker =
     \<lparr>ch_worker = worker, ch_ring = ring_with_capacity RING_BYTES, ch_error = None,
      ch_synth_phase = Fin 0, ch_format = fmt, ch_source = src\<rparr>"

text \<open>\<open>windows\<close> is the \<open>cfg\<close> of the build, \<open>spawned\<close> the outcome of starting the worker thread.\<close>

definition open_cpal_microphone :: "rstring + unit \<Rightarrow> audio_format \<Rightarrow> capture_error + capture_handle" where
  "open_cpal_microphone spawned fmt =
     (case spawned of Inl e \<Rightarrow> Inl (SpawnFailed e) | Inr _ \<Rightarrow> Inr (new_handle fmt Microphone True))"

definition open_windows_loopback :: "rstring + unit \<Rightarrow> audio_format \<Rightarrow> capture_error + capture_handle" where
  "open_windows_loopback spawned fmt =
     (case spawned of Inl e \<Rightarrow> Inl (SpawnFailed e) | Inr _ \<Rightarrow> Inr (new_handle fmt Loopback True))"

definition open_capture ::
  "bool \<Rightarrow> rstring + unit \<Rightarrow> audio_format \<Rightarrow> capture_source \<Rightarrow> capture_error + capture_handle" where
  "open_capture windows spawned fmt src =
     (if sample_rate fmt \<noteq> 48000 \<or> channels fmt \<noteq> 2 then Inl Needs48kStereo
      else if src = Synthetic \<or> src = Null then Inr (new_handle fmt src False)
      else if windows \<and> src = Loopback then open_windows_loopback spawned fmt
      else if \<not> windows \<and> src = Loopback then Inl LoopbackUnsupported
      else open_cpal_microphone spawned fmt)"

datatype sample_format = SF_I16 | SF_F32 | SF_other

record input_config =
  ic_channels :: u16
  ic_min_rate :: u32
  ic_max_rate :: u32
  ic_format :: sample_format

type_synonym input_device = "rstring + input_config list"

text \<open>
  The stream that a microphone opens: its sample format, channels and rate. \<open>devices\<close> is the host's
  device list, \<open>default\<close> its default device, \<open>built\<close> and \<open>started\<close> the outcome of building and
  starting the stream.
\<close>

definition usable_config :: "input_config \<Rightarrow> bool" where
  "usable_config c \<longleftrightarrow> ic_min_rate c \<le> TARGET_RATE \<and> TARGET_RATE \<le> ic_max_rate c
     \<and> (ic_format c = SF_F32 \<or> ic_format c = SF_I16)"

definition open_microphone_stream ::
  "rstring + input_device list \<Rightarrow> input_device option \<Rightarrow> rstring + unit \<Rightarrow> rstring + unit
    \<Rightarrow> nat option \<Rightarrow> capture_error + (sample_format \<times> nat \<times> u32)" where
  "open_microphone_stream devices dflt built started device_index =
     (case (case device_index of
              Some i \<Rightarrow> (case devices of
                           Inl e \<Rightarrow> Inl (HostError e)
                         | Inr ds \<Rightarrow> (case get_at ds i of None \<Rightarrow> Inl (InputNotFound i) | Some d \<Rightarrow> Inr d))
            | None \<Rightarrow> (case dflt of None \<Rightarrow> Inl NoDefaultInput | Some d \<Rightarrow> Inr d)) of
        Inl e \<Rightarrow> Inl e
      | Inr device \<Rightarrow>
     (case device of
        Inl e \<Rightarrow> Inl (HostError e)
      | Inr configs \<Rightarrow>
     (case find usable_config configs of
        None \<Rightarrow> Inl NoUsableConfig
      | Some c \<Rightarrow>
          if ic_format c = SF_other then Inl UnsupportedFormat
          else case built of
                 Inl e \<Rightarrow> Inl (HostError e)
               | Inr _ \<Rightarrow> (case started of
                            Inl e \<Rightarrow> Inl (HostError e)
                          | Inr _ \<Rightarrow> Inr (ic_format c, unat (ic_channels c), TARGET_RATE)))))"

text \<open>The two stream callbacks.\<close>

definition mic_callback_f32 :: "bool \<Rightarrow> nat \<Rightarrow> u32 \<Rightarrow> flt list \<Rightarrow> byte_ring \<Rightarrow> byte_ring" where
  "mic_callback_f32 busy in_channels in_rate samples ring =
     (let chunk = append_f32_interleaved [] samples in_channels in_rate
      in if busy then ring else ring_push ring chunk)"

definition mic_callback_i16 :: "bool \<Rightarrow> nat \<Rightarrow> u32 \<Rightarrow> u16 list \<Rightarrow> byte_ring \<Rightarrow> byte_ring" where
  "mic_callback_i16 busy in_channels in_rate samples ring =
     (let chunk = append_i16_interleaved [] samples in_channels in_rate
      in if busy then ring else ring_push ring chunk)"

section \<open>The microphone worker\<close>

text \<open>
  The thread's program counter: at the loop head, with a stream open, or in the pause of ten sleeps
  between two attempts. One step is one test of the stop flag with what follows it; \<open>opened\<close> is the
  outcome of \<open>open_microphone_stream\<close> in that step and \<open>raised\<close> an error the stream's callback has
  reported meanwhile.
\<close>

datatype mic_phase = MicHead | MicStream | MicPause nat | MicEnd

record mic_worker =
  mw_phase :: mic_phase
  mw_error :: "rstring option"

definition mic_step :: "bool \<Rightarrow> rstring + unit \<Rightarrow> rstring option \<Rightarrow> mic_worker \<Rightarrow> mic_worker" where
  "mic_step stop opened raised w =
     (case mw_phase w of
        MicHead \<Rightarrow>
          if stop then w\<lparr>mw_phase := MicEnd\<rparr>
          else (case opened of
                  Inr _ \<Rightarrow> w\<lparr>mw_error := None, mw_phase := MicStream\<rparr>
                | Inl e \<Rightarrow> w\<lparr>mw_error := Some e, mw_phase := MicPause 10\<rparr>)
      | MicStream \<Rightarrow>
          (let w = (case raised of None \<Rightarrow> w | Some e \<Rightarrow> w\<lparr>mw_error := Some e\<rparr>)
           in if \<not> stop \<and> mw_error w = None then w else w\<lparr>mw_phase := MicPause 10\<rparr>)
      | MicPause n \<Rightarrow>
          (case n of
             0 \<Rightarrow> w\<lparr>mw_phase := MicHead\<rparr>
           | Suc k \<Rightarrow> if stop then w\<lparr>mw_phase := MicHead\<rparr> else w\<lparr>mw_phase := MicPause k\<rparr>)
      | MicEnd \<Rightarrow> w)"


section \<open>Loopback on Windows\<close>

text \<open>\<open>f32::from_le_bytes\<close>: sign, eight exponent bits, 23 bits of significand.\<close>

definition f32_from_bits :: "nat \<Rightarrow> flt" where
  "f32_from_bits w =
     (let neg = odd (w div 2 ^ 31); e = w div 2 ^ 23 mod 256; m = w mod 2 ^ 23
      in if e = 255 then (if m \<noteq> 0 then NaN else if neg then NInf else PInf)
         else (let r = (if e = 0 then of_nat m * pow2 (- 149) else of_nat (2 ^ 23 + m) * pow2 (int e - 150))
               in Fin (if neg then - r else r)))"

definition f32_from_le :: "byte list \<Rightarrow> flt" where
  "f32_from_le c = f32_from_bits (from_be (rev c))"

record loopback =
  lb_raw :: "byte list"
  lb_ring :: byte_ring

definition loopback_poll :: "nat \<Rightarrow> u32 \<Rightarrow> bool \<Rightarrow> byte list \<Rightarrow> loopback \<Rightarrow> loopback" where
  "loopback_poll in_channels in_rate busy got lb =
     (let bpf = max (in_channels * 4) 4;
          lb = lb\<lparr>lb_raw := lb_raw lb @ got\<rparr>;
          frames = length (lb_raw lb) div bpf
      in if frames = 0 then lb
         else
           (let raw = take (frames * bpf) (lb_raw lb);
                samples = map f32_from_le (chunks 4 raw);
                chunk = append_f32_interleaved [] samples in_channels in_rate
            in lb\<lparr>lb_raw := drop (frames * bpf) (lb_raw lb),
                  lb_ring := (if busy then lb_ring lb else ring_push (lb_ring lb) chunk)\<rparr>))"

text \<open>What one round of the loop observes: the flag, the bytes read, the mutex, and, every two
  seconds, the endpoint's state and the default endpoint.\<close>

record loop_round =
  lr_stop :: bool
  lr_read :: "rstring + byte list"
  lr_busy :: bool
  lr_check_due :: bool
  lr_active :: "rstring + bool"
  lr_default :: "rstring + rstring"

datatype loop_end = LoopStopped | LoopFailed rstring | EndpointInactive | DefaultChanged

definition endpoint_check :: "nat option \<Rightarrow> rstring \<Rightarrow> loop_round \<Rightarrow> loop_end option" where
  "endpoint_check device_index endpoint_id e =
     (if \<not> lr_check_due e then None
      else case lr_active e of
             Inl m \<Rightarrow> Some (LoopFailed m)
           | Inr active \<Rightarrow>
               if \<not> active then Some EndpointInactive
               else if device_index \<noteq> None then None
               else (case lr_default e of
                       Inl m \<Rightarrow> Some (LoopFailed m)
                     | Inr current \<Rightarrow> if current \<noteq> endpoint_id then Some DefaultChanged else None))"

fun loopback_rounds ::
  "nat \<Rightarrow> u32 \<Rightarrow> nat option \<Rightarrow> rstring \<Rightarrow> loop_round list \<Rightarrow> loopback \<Rightarrow> loopback \<times> loop_end option" where
  "loopback_rounds in_channels in_rate device_index endpoint_id [] lb = (lb, None)"
| "loopback_rounds in_channels in_rate device_index endpoint_id (e # es) lb =
     (if lr_stop e then (lb, Some LoopStopped)
      else case lr_read e of
             Inl m \<Rightarrow> (lb, Some (LoopFailed m))
           | Inr got \<Rightarrow>
               (let lb = loopback_poll in_channels in_rate (lr_busy e) got lb
                in case endpoint_check device_index endpoint_id e of
                     Some r \<Rightarrow> (lb, Some r)
                   | None \<Rightarrow> loopback_rounds in_channels in_rate device_index endpoint_id es lb))"

section \<open>What the reader gets\<close>

abbreviation hears :: "bool \<Rightarrow> flt list \<Rightarrow> capture_handle \<Rightarrow> capture_handle" where
  "hears busy xs h \<equiv> h\<lparr>ch_ring := mic_callback_f32 busy 2 TARGET_RATE xs (ch_ring h)\<rparr>"

text \<open>A run of a handle fed by a stereo 48 kHz callback: deliveries of samples and reads of a buffer.\<close>

datatype capture_event = Heard bool "flt list" | Polled bool nat

fun capture_run :: "capture_event list \<Rightarrow> capture_handle \<Rightarrow> capture_handle \<times> byte list list" where
  "capture_run [] h = (h, [])"
| "capture_run (Heard busy xs # es) h =
     capture_run es (hears busy xs h)"
| "capture_run (Polled busy n # es) h =
     (case try_read (\<lambda>x. x) busy h (replicate n 0) of
        (k, h, buf) \<Rightarrow> (case capture_run es h of (h, bufs) \<Rightarrow> (h, buf # bufs)))"

text \<open>The session PCM of the samples that arrived: two bytes per sample of a whole stereo frame.\<close>

definition heard_pcm :: "flt list \<Rightarrow> byte list" where
  "heard_pcm xs = pcm_bytes (map float_to_i16 (take (2 * (length xs div 2)) xs))"

fun heard :: "capture_event list \<Rightarrow> byte list" where
  "heard [] = []"
| "heard (Heard busy xs # es) = heard_pcm xs @ heard es"
| "heard (Polled busy n # es) = heard es"

text \<open>Nobody holds the lock and the queue never overflows.\<close>

fun undisturbed :: "capture_event list \<Rightarrow> capture_handle \<Rightarrow> bool" where
  "undisturbed [] h \<longleftrightarrow> True"
| "undisturbed (Heard busy xs # es) h \<longleftrightarrow>
     \<not> busy \<and> length (br_deque (ch_ring h)) + length (heard_pcm xs) \<le> ring_bound (ch_ring h)
     \<and> undisturbed es (hears busy xs h)"
| "undisturbed (Polled busy n # es) h \<longleftrightarrow>
     \<not> busy \<and> undisturbed es (fst (snd (try_read (\<lambda>x. x) busy h (replicate n 0))))"

lemma concat_pairs:
  "concat (map (\<lambda>i. g (2 * i) @ g (2 * i + 1)) [0..<n]) = concat (map g [0..<2 * n])" for g :: "nat \<Rightarrow> 'a list"
proof (induction n)
  case (Suc n)
  have "[0..<2 * Suc n] = [0..<2 * n] @ [2 * n, 2 * n + 1]" by simp
  then show ?case using Suc by (simp del: upt_Suc mult_Suc_right) simp
qed simp

lemma heard_chunk: "append_f32_interleaved [] xs 2 TARGET_RATE = heard_pcm xs"
proof -
  let ?n = "length xs div 2"
  have "map (\<lambda>i. i16_le (float_to_i16 (xs ! i))) [0..<2 * ?n]
      = map i16_le (map float_to_i16 (take (2 * ?n) xs))"
    by (rule nth_equalityI) simp_all
  then show ?thesis
    using concat_pairs[of "\<lambda>i. i16_le (float_to_i16 (xs ! i))" ?n]
    by (simp only: stereo_at_target_rate heard_pcm_def pcm_bytes_def append_Nil)
qed

definition live :: "capture_handle \<Rightarrow> bool" where
  "live h \<longleftrightarrow> ch_error h = None \<and> (ch_source h = Microphone \<or> ch_source h = Loopback) \<and> ring_ok (ch_ring h)"

lemma live_read:
  assumes "live h"
  shows "try_read f busy h (replicate n 0) =
    (if busy then (n, h, replicate n 0)
     else (n, h\<lparr>ch_ring := fst (ring_take n (ch_ring h))\<rparr>,
           snd (ring_take n (ch_ring h)) @ replicate (n - length (snd (ring_take n (ch_ring h)))) 0))"
  using assms by (auto simp: live_def try_read_def pop_into_spec ring_take_eq Let_def min_def)

lemma live_moves:
  "live h \<Longrightarrow> live (h\<lparr>ch_ring := mic_callback_f32 busy c rate xs (ch_ring h)\<rparr>)"
  "live h \<Longrightarrow> live (h\<lparr>ch_ring := fst (ring_take n (ch_ring h))\<rparr>)"
  by (simp_all add: live_def mic_callback_f32_def Let_def rg.put_ok rg.take_ok)


abbreviation queued :: "capture_handle \<Rightarrow> byte list" where
  "queued h \<equiv> br_deque (ch_ring h)"

text \<open>One delivery keeps the queue a subsequence of what there was and what arrived.\<close>

lemma heard_queue:
  assumes "live h"
  shows "subseq (queued (hears busy xs h)) (queued h @ heard_pcm xs)"
    and "\<not> busy \<Longrightarrow> length (queued h) + length (heard_pcm xs) \<le> ring_bound (ch_ring h) \<Longrightarrow>
      queued (hears busy xs h) = queued h @ heard_pcm xs"
proof -
  have q: "queued (hears busy xs h) = (if busy then queued h else newest (ring_bound (ch_ring h)) (queued h @ heard_pcm xs))"
    using assms rg.put_contents[of "ch_ring h" "heard_pcm xs"]
    by (simp add: mic_callback_f32_def heard_chunk live_def)
  show "subseq (queued (hears busy xs h)) (queued h @ heard_pcm xs)"
    unfolding q using subseq_newest[of _ "queued h @ heard_pcm xs"] list_emb_append_mono[of "(=)" "queued h" "queued h" "[]" "heard_pcm xs"]
    by simp
  show "\<not> busy \<Longrightarrow> length (queued h) + length (heard_pcm xs) \<le> ring_bound (ch_ring h) \<Longrightarrow>
      queued (hears busy xs h) = queued h @ heard_pcm xs"
    unfolding q by simp
qed

definition read_as :: "byte list list \<Rightarrow> byte list list \<Rightarrow> bool" where
  "read_as bufs parts \<longleftrightarrow> list_all2 (\<lambda>buf p. \<exists>z. buf = p @ replicate z 0) bufs parts"

lemma read_as_simps [simp]:
  "read_as [] []"
  "read_as (b # bs) (p # ps) \<longleftrightarrow> (\<exists>z. b = p @ replicate z 0) \<and> read_as bs ps"
  by (simp_all add: read_as_def)

lemma run_in_order:
  "live h \<Longrightarrow> \<exists>parts. read_as (snd (capture_run es h)) parts
    \<and> subseq (concat parts @ queued (fst (capture_run es h))) (queued h @ heard es)
    \<and> (undisturbed es h \<longrightarrow> concat parts @ queued (fst (capture_run es h)) = queued h @ heard es)"
proof (induction es arbitrary: h)
  case Nil
  show ?case by (rule exI[of _ "[]"]) simp
next
  case (Cons e es)
  show ?case
  proof (cases e)
    case (Heard busy xs)
    let ?h = "hears busy xs h"
    obtain parts where p: "read_as (snd (capture_run es ?h)) parts"
      "subseq (concat parts @ queued (fst (capture_run es ?h))) (queued ?h @ heard es)"
      "undisturbed es ?h \<Longrightarrow> concat parts @ queued (fst (capture_run es ?h)) = queued ?h @ heard es"
      using Cons.IH[OF live_moves(1)[OF Cons.prems]] by blast
    note q = heard_queue[OF Cons.prems, of busy xs]
    have "subseq (queued ?h @ heard es) (queued h @ heard_pcm xs @ heard es)"
      using list_emb_append_mono[OF q(1), of "heard es" "heard es"] by (simp only: append.assoc subseq_order.order_refl)
    then have sub: "subseq (concat parts @ queued (fst (capture_run es ?h))) (queued h @ heard_pcm xs @ heard es)"
      by (rule subseq_order.order_trans[OF p(2)])
    have full: "concat parts @ queued (fst (capture_run es ?h)) = queued h @ heard_pcm xs @ heard es"
      if "undisturbed (e # es) h"
    proof -
      have u: "\<not> busy" "length (queued h) + length (heard_pcm xs) \<le> ring_bound (ch_ring h)" "undisturbed es ?h"
        using that unfolding Heard undisturbed.simps by blast+
      show ?thesis using p(3)[OF u(3)] unfolding q(2)[OF u(1,2)] by (simp only: append.assoc)
    qed
    have run: "capture_run (e # es) h = capture_run es ?h" "heard (e # es) = heard_pcm xs @ heard es"
      by (simp_all add: Heard)
    show ?thesis
      unfolding run by (rule exI[of _ parts]) (use p(1) sub full in blast)
  next
    case (Polled busy n)
    define h' where "h' = (if busy then h else h\<lparr>ch_ring := fst (ring_take n (ch_ring h))\<rparr>)"
    define got where "got = (if busy then [] else snd (ring_take n (ch_ring h)))"
    define buf where "buf = got @ replicate (n - length got) 0"
    have read: "try_read (\<lambda>x. x) busy h (replicate n 0) = (n, h', buf)"
      by (simp add: live_read[OF Cons.prems] h'_def got_def buf_def)
    have h': "live h'" "got @ queued h' = queued h"
      using Cons.prems live_moves(2)[OF Cons.prems, of n] rg.take_split[of "ch_ring h" n]
      by (simp_all add: h'_def got_def live_def)
    obtain parts where p: "read_as (snd (capture_run es h')) parts"
      "subseq (concat parts @ queued (fst (capture_run es h'))) (queued h' @ heard es)"
      "undisturbed es h' \<Longrightarrow> concat parts @ queued (fst (capture_run es h')) = queued h' @ heard es"
      using Cons.IH[OF h'(1)] by blast
    obtain h2 bufs where r: "capture_run es h' = (h2, bufs)" by (cases "capture_run es h'")
    have pre: "\<exists>z. buf = got @ replicate z 0" by (auto simp: buf_def)
    have sub: "subseq (got @ concat parts @ queued h2) (got @ queued h' @ heard es)"
      by (rule list_emb_append_mono) (use p(2) r in simp_all)
    have q: "queued h @ heard es = got @ queued h' @ heard es" by (simp only: h'(2)[symmetric] append.assoc)
    have full: "undisturbed (e # es) h \<Longrightarrow> got @ concat parts @ queued h2 = got @ queued h' @ heard es"
      using p(3) r Polled read by simp
    have run: "capture_run (e # es) h = (h2, buf # bufs)" "heard (e # es) = heard es"
      using Polled read r by simp_all
    have bufs: "read_as bufs parts" using p(1) r by simp
    show ?thesis
      unfolding run fst_conv snd_conv q
      by (rule exI[of _ "got # parts"]) (use pre bufs sub full in simp)
  qed
qed

text \<open>
  C22. Capture to sender. However deliveries of samples and reads interleave, every read fills its whole
  buffer with captured bytes followed by zeros; the captured bytes that were read, followed by those
  still queued, are a subsequence of the conversions of the samples delivered, so nothing is
  repeated, invented or reordered; and while the lock is free and the queue does not overflow
  nothing is lost.
\<close>

theorem capture_in_order:
  assumes "live h"
  shows "\<exists>parts. read_as (snd (capture_run es h)) parts
    \<and> subseq (concat parts @ queued (fst (capture_run es h))) (queued h @ heard es)
    \<and> (undisturbed es h \<longrightarrow> concat parts @ queued (fst (capture_run es h)) = queued h @ heard es)"
  by (rule run_in_order[OF assms])

definition demo_handle :: capture_handle where
  "demo_handle = new_handle (\<lparr>sample_rate = 48000, channels = 2, frame_samples = 240\<rparr>) Microphone True"

lemma demo_handle_live: "live demo_handle"
  by (simp add: live_def demo_handle_def new_handle_def ring_ok_def ring_with_capacity_def)

theorem capture_in_order_witness:
  "\<exists>parts. read_as (snd (capture_run [Polled False 4, Heard False [Fin 1, Fin 1], Polled False 4] demo_handle)) parts
    \<and> concat parts @ queued (fst (capture_run [Polled False 4, Heard False [Fin 1, Fin 1], Polled False 4] demo_handle))
      = heard_pcm [Fin 1, Fin 1]"
proof -
  have q: "queued demo_handle = []" "ring_bound (ch_ring demo_handle) = RING_BYTES"
    by (simp_all add: demo_handle_def new_handle_def ring_with_capacity_def ring_bound_def RING_BYTES_def TARGET_RATE_def)
  have "demo_handle\<lparr>ch_ring := fst (ring_take 4 (ch_ring demo_handle))\<rparr> = demo_handle"
    using q by (simp add: ring_take_eq)
  then have r: "fst (snd (try_read (\<lambda>x. x) False demo_handle (replicate 4 0))) = demo_handle"
    using live_read[OF demo_handle_live] by simp
  have "length (heard_pcm [Fin 1, Fin 1]) \<le> RING_BYTES"
    by (simp add: heard_pcm_def RING_BYTES_def TARGET_RATE_def)
  then have "undisturbed [Polled False 4, Heard False [Fin 1, Fin 1], Polled False 4] demo_handle"
    using q r by simp
  moreover have "heard [Polled False 4, Heard False [Fin 1, Fin 1], Polled False 4] = heard_pcm [Fin 1, Fin 1]" by simp
  ultimately show ?thesis
    using capture_in_order[OF demo_handle_live, of "[Polled False 4, Heard False [Fin 1, Fin 1], Polled False 4]"] q(1)
    by (metis append_Nil)
qed


section \<open>Opening a device\<close>

text \<open>
  A microphone stream that opens runs at 48 kHz in one of the two sample formats the callbacks
  exist for, on a configuration the device offers; the unsupported-format branch is never taken.
\<close>

theorem microphone_config:
  "open_microphone_stream devices dflt built started device_index \<noteq> Inl UnsupportedFormat
    \<and> (\<exists>e. open_microphone_stream devices dflt built started device_index = Inl e
        \<or> (\<exists>fmt n. open_microphone_stream devices dflt built started device_index = Inr (fmt, n, TARGET_RATE)
            \<and> fmt \<noteq> SF_other))"
proof -
  have f: "find usable_config cs = Some c \<Longrightarrow> ic_format c \<noteq> SF_other" for cs c
    by (auto simp: find_Some_iff usable_config_def)
  show ?thesis
    unfolding open_microphone_stream_def by (auto dest!: f split: option.splits sum.splits)
qed

section \<open>The tone\<close>

text \<open>A sine has values in [-1, 1].\<close>

definition sine_range :: "(flt \<Rightarrow> flt) \<Rightarrow> bool" where
  "sine_range fsin \<longleftrightarrow> (\<forall>r. \<exists>s. fsin (Fin r) = Fin s \<and> - 1 \<le> s \<and> s \<le> 1)"

definition phase_ok :: "flt \<Rightarrow> bool" where
  "phase_ok p \<longleftrightarrow> (\<exists>r. p = Fin r \<and> 0 \<le> r \<and> r < 13176795 / 2097152)"

lemma trunc_nonneg: "0 \<le> x \<Longrightarrow> trunc_rat x = \<lfloor>x\<rfloor>"
  by (simp add: trunc_rat_def)

lemma fl_small_nonneg:
  fixes n :: int
  assumes "0 \<le> r" "r \<le> of_int n" "n < 2 ^ 24"
  shows "\<exists>s. fl F32 r = Fin s \<and> 0 \<le> s \<and> s \<le> of_int n"
proof -
  have "(0 :: rat) \<le> of_int n" using assms(1,2) by linarith
  then have n: "\<bar>n\<bar> < 2 ^ 24" using assms(3) by simp
  have z: "representable F32 0" using representable_int[of 0 F32] by simp
  have t: "\<bar>0 :: rat\<bar> < pow2 (top_exp F32)" by simp
  show ?thesis
    using fl_between[OF _ z representable_int[of n F32] assms(1,2) t small_top[OF n]] n by auto
qed

lemma step_range: "sample_rate fmt = 48000 \<Longrightarrow> \<exists>s. synth_step fmt = Fin s \<and> 0 \<le> s \<and> s \<le> 1"
proof -
  assume fmt: "sample_rate fmt = 48000"
  obtain m where m: "fl F32 (13176795 / 2097152 * 440) = Fin m" "0 \<le> m" "m \<le> 2765"
    using fl_small_nonneg[of "13176795 / 2097152 * 440" 2765] by auto
  have rate: "fl F32 (of_nat (unat (sample_rate fmt))) = Fin 48000"
    using fl_int[of 48000] fmt by simp
  have q: "0 \<le> m / 48000" "m / 48000 \<le> of_int 1" using m by simp_all
  obtain s where "fl F32 (m / 48000) = Fin s" "0 \<le> s" "s \<le> 1"
    using fl_small_nonneg[OF q] by auto
  then show ?thesis using m(1) rate by (simp add: synth_step_def TAU_def)
qed

lemma phase_step:
  assumes "phase_ok p" "s = Fin x" "0 \<le> x" "x \<le> 1"
  shows "phase_ok (frem (fadd F32 p s) TAU)"
proof -
  obtain r where r: "p = Fin r" "0 \<le> r" "r < 13176795 / 2097152" using assms(1) by (auto simp: phase_ok_def)
  have b: "0 \<le> r + x" "r + x \<le> of_int 8" using r assms by auto
  obtain y where y: "fl F32 (r + x) = Fin y" "0 \<le> y" using fl_small_nonneg[OF b] by auto
  define q where "q = y / (13176795 / 2097152)"
  have q: "0 \<le> q" "y = q * (13176795 / 2097152)" using y(2) by (simp_all add: q_def)
  have "frem (fadd F32 p s) TAU = Fin (y - of_int \<lfloor>q\<rfloor> * (13176795 / 2097152))"
    using y r assms(2) q(1) by (simp add: TAU_def q_def trunc_nonneg)
  moreover have "y - of_int \<lfloor>q\<rfloor> * (13176795 / 2097152) = (q - of_int \<lfloor>q\<rfloor>) * (13176795 / 2097152)"
    unfolding q(2) by (simp only: left_diff_distrib)
  moreover have "0 \<le> q - of_int \<lfloor>q\<rfloor>" "q - of_int \<lfloor>q\<rfloor> < 1" by linarith+
  ultimately show ?thesis by (simp add: phase_ok_def)
qed

lemma synth_sample_range:
  assumes "sine_range fsin" "phase_ok p"
  shows "\<bar>sint (synth_sample fsin p)\<bar> \<le> 8192"
proof -
  obtain r where "p = Fin r" using assms(2) by (auto simp: phase_ok_def)
  then obtain s where s: "fsin p = Fin s" "- 1 \<le> s" "s \<le> 1" using assms(1) by (auto simp: sine_range_def)
  have quarter: "representable F32 (1 / 4)" "representable F32 (- (1 / 4))"
    unfolding representable_def
    by (rule exI[of _ 1], rule exI[of _ "- 2"], simp add: pow2_def, rule exI[of _ "- 1"], rule exI[of _ "- 2"], simp add: pow2_def)
  have top: "\<bar>1 / 4 :: rat\<bar> < pow2 (top_exp F32)" "\<bar>- (1 / 4) :: rat\<bar> < pow2 (top_exp F32)" "\<bar>0 :: rat\<bar> < pow2 (top_exp F32)"
    by (simp_all add: pow2_def)
  have z: "representable F32 0" using representable_int[of 0 F32] by simp
  obtain f where f: "fl F32 (2 / 10) = Fin f" "0 \<le> f" "f \<le> 1 / 4"
    using fl_between[OF _ z quarter(1) _ _ top(3,1), of "2 / 10"] by auto
  have b: "- (1 / 4) \<le> s * f" "s * f \<le> 1 / 4"
    using mult_mono[of s 1 f "1 / 4"] mult_mono[of "- s" 1 f "1 / 4"] s f by auto
  obtain g where g: "fl F32 (s * f) = Fin g" "- (1 / 4) \<le> g" "g \<le> 1 / 4"
    using fl_between[OF _ quarter(2,1) b top(2,1)] by auto
  have c: "of_int (- 8192) \<le> g * 32767" "g * 32767 \<le> of_int 8192" using g by simp_all
  have rep: "representable F32 (of_int (- 8192))" "representable F32 (of_int 8192)"
    by (rule representable_int; simp)+
  note h = fl_between[OF _ rep c small_top small_top]
  have "- 8192 \<le> to_int_sat (- 32768) 32767 (Fin (rnd F32 (g * 32767)))
      \<and> to_int_sat (- 32768) 32767 (Fin (rnd F32 (g * 32767))) \<le> 8192"
    by (rule to_int_sat_between) (use h in simp_all)
  moreover have "sint (synth_sample fsin p) = to_int_sat (- 32768) 32767 (Fin (rnd F32 (g * 32767)))"
    using s f g h(1) unfolding synth_sample_def
    by (subst sint_of_int_u16) (simp_all only: to_i16_range, simp_all)
  ultimately show ?thesis by linarith
qed


definition tone_pcm :: "u16 list \<Rightarrow> byte list" where
  "tone_pcm ys = concat (map (\<lambda>y. i16_le y @ i16_le y) ys)"

lemma synth_frame_stereo: "length frame = 4 \<Longrightarrow> synth_frame y frame = i16_le y @ i16_le y"
  by (simp add: synth_frame_def) (simp add: eval_nat_numeral)

lemma synth_loop_tone:
  assumes "sine_range fsin" "s = Fin x" "0 \<le> x" "x \<le> 1" "phase_ok p" "4 * n \<le> length out"
  shows "\<exists>p' ys. synth_loop fsin s 4 n p out = (p', tone_pcm ys @ drop (4 * n) out)
    \<and> phase_ok p' \<and> length ys = n \<and> list_all (\<lambda>y. \<bar>sint y\<bar> \<le> 8192) ys"
  using assms(5,6)
proof (induction n arbitrary: p out)
  case 0
  then show ?case by (intro exI[of _ p] exI[of _ "[]"]) (simp add: tone_pcm_def)
next
  case (Suc n)
  let ?y = "synth_sample fsin p"
  let ?p = "frem (fadd F32 p s) TAU"
  have p: "phase_ok ?p" by (rule phase_step[OF Suc.prems(1) assms(2-4)])
  have "4 * n \<le> length (drop 4 out)" using Suc.prems(2) by simp
  then obtain p' ys where r: "synth_loop fsin s 4 n ?p (drop 4 out) = (p', tone_pcm ys @ drop (4 * n) (drop 4 out))"
    "phase_ok p'" "length ys = n" "list_all (\<lambda>y. \<bar>sint y\<bar> \<le> 8192) ys"
    using Suc.IH[OF p] by blast
  have "synth_frame ?y (take 4 out) = i16_le ?y @ i16_le ?y"
    by (rule synth_frame_stereo) (use Suc.prems(2) in simp)
  then have "synth_loop fsin s 4 (Suc n) p out = (p', tone_pcm (?y # ys) @ drop (4 * Suc n) out)"
    using r(1) by (simp add: tone_pcm_def add.commute)
  then show ?case using r synth_sample_range[OF assms(1) Suc.prems(1)]
    by (intro exI[of _ p'] exI[of _ "?y # ys"]) simp
qed

text \<open>
  The synthetic source fills every whole frame of the buffer with one sample on both channels, at
  no more than a quarter of full scale, and keeps its phase in [0, TAU), for any sine with values in
  [-1, 1] and from any phase in that range.
\<close>

theorem tone_fills:
  assumes "sine_range fsin" "sample_rate (ch_format h) = 48000" "channels (ch_format h) = 2"
    and "ch_source h = Synthetic" "ch_error h = None" "phase_ok (ch_synth_phase h)"
  shows "\<exists>h' ys. try_read fsin busy h out = (length out, h', tone_pcm ys @ drop (4 * length ys) out)
    \<and> length ys = length out div 4 \<and> list_all (\<lambda>y. \<bar>sint y\<bar> \<le> 8192) ys \<and> phase_ok (ch_synth_phase h')
    \<and> h' = h\<lparr>ch_synth_phase := ch_synth_phase h'\<rparr>"
proof -
  obtain s where s: "synth_step (ch_format h) = Fin s" "0 \<le> s" "s \<le> 1" using step_range[OF assms(2)] by blast
  have bpf: "bytes_per_frame (ch_format h) = 4" using assms(3) by (simp add: bytes_per_frame_def)
  have "4 * (length out div 4) \<le> length out" by simp
  from synth_loop_tone[OF assms(1) s assms(6) this] obtain p ys
    where r: "synth_loop fsin (synth_step (ch_format h)) 4 (length out div 4) (ch_synth_phase h) out
        = (p, tone_pcm ys @ drop (4 * (length out div 4)) out)"
      "phase_ok p" "length ys = length out div 4" "list_all (\<lambda>y. \<bar>sint y\<bar> \<le> 8192) ys" by blast
  then show ?thesis using assms(4,5) bpf
    by (intro exI[of _ "h\<lparr>ch_synth_phase := p\<rparr>"] exI[of _ ys]) (simp add: try_read_def fill_synth_def)
qed

theorem tone_fills_witness:
  "\<exists>h' ys. try_read (\<lambda>x. Fin (1 / 2)) True
      (new_handle \<lparr>sample_rate = 48000, channels = 2, frame_samples = 240\<rparr> Synthetic False) (replicate 9 7)
    = (9, h', tone_pcm ys @ [7]) \<and> length ys = 2"
proof -
  let ?h = "new_handle \<lparr>sample_rate = 48000, channels = 2, frame_samples = 240\<rparr> Synthetic False"
  have "\<exists>s :: rat. s = 1 / 2 \<and> - 1 \<le> s \<and> s \<le> 1" by (rule exI[of _ "1 / 2"]) simp
  then have "sine_range (\<lambda>x. Fin (1 / 2))" "phase_ok (ch_synth_phase ?h)"
    by (simp_all only: sine_range_def phase_ok_def new_handle_def flt.inject capture_handle.simps) (auto intro: exI[of _ 0])
  then obtain h' ys where "try_read (\<lambda>x. Fin (1 / 2)) True ?h (replicate 9 7) = (9, h', tone_pcm ys @ drop (4 * length ys) (replicate 9 7))"
      "length ys = 2"
    using tone_fills[of "\<lambda>x. Fin (1 / 2)" ?h True "replicate 9 7"] by (auto simp: new_handle_def)
  then show ?thesis by (intro exI[of _ h'] exI[of _ ys]) simp
qed

section \<open>The worker stops, and only when told\<close>

definition mic_run :: "(bool \<times> (rstring + unit) \<times> rstring option) list \<Rightarrow> mic_worker \<Rightarrow> mic_worker" where
  "mic_run es w = foldl (\<lambda>w (stop, opened, raised). mic_step stop opened raised w) w es"

lemma mic_run_Cons [simp]:
  "mic_run ((stop, opened, raised) # es) w = mic_run es (mic_step stop opened raised w)"
  by (simp add: mic_run_def)

fun mic_left :: "mic_phase \<Rightarrow> nat" where
  "mic_left MicStream = 3" | "mic_left (MicPause n) = 2" | "mic_left MicHead = 1" | "mic_left MicEnd = 0"

lemma mic_left_0 [simp]: "mic_left p = 0 \<longleftrightarrow> p = MicEnd"
  by (cases p) simp_all

lemma mic_step_stop: "mic_left (mw_phase (mic_step True opened raised w)) = mic_left (mw_phase w) - 1"
  by (simp add: mic_step_def Let_def split: mic_phase.split option.split nat.split)

lemma mic_step_go: "mw_phase w \<noteq> MicEnd \<Longrightarrow> mw_phase (mic_step False opened raised w) \<noteq> MicEnd"
  by (simp add: mic_step_def Let_def split: mic_phase.split option.split nat.split sum.split)

text \<open>
  The worker thread ends within three steps of the stop flag being set, whatever the device does,
  which is what makes \<open>stop\<close> and the drop of the handle return; without the flag it never ends, it
  keeps trying to reopen.
\<close>

theorem mic_worker_stops:
  "(list_all fst es \<and> 3 \<le> length es \<longrightarrow> mw_phase (mic_run es w) = MicEnd)
    \<and> (list_all (\<lambda>e. \<not> fst e) es \<and> mw_phase w \<noteq> MicEnd \<longrightarrow> mw_phase (mic_run es w) \<noteq> MicEnd)"
proof (intro conjI impI)
  have "list_all fst es \<Longrightarrow> mic_left (mw_phase (mic_run es w)) = mic_left (mw_phase w) - length es"
  proof (induction es arbitrary: w)
    case Nil
    then show ?case by (simp add: mic_run_def)
  next
    case (Cons e es)
    obtain stop opened raised where "e = (stop, opened, raised)" by (cases e)
    then show ?case using Cons.prems Cons.IH[of "mic_step True opened raised w"] by (simp add: mic_step_stop)
  qed
  moreover have "mic_left (mw_phase w) \<le> 3" by (cases "mw_phase w") simp_all
  ultimately show "mw_phase (mic_run es w) = MicEnd" if "list_all fst es \<and> 3 \<le> length es"
    using that by simp
next
  show "mw_phase (mic_run es w) \<noteq> MicEnd" if "list_all (\<lambda>e. \<not> fst e) es \<and> mw_phase w \<noteq> MicEnd"
    using that
  proof (induction es arbitrary: w)
    case Nil
    then show ?case by (simp add: mic_run_def)
  next
    case (Cons e es)
    obtain stop opened raised where "e = (stop, opened, raised)" by (cases e)
    then show ?case using Cons.prems Cons.IH[of "mic_step False opened raised w"] by (simp add: mic_step_go)
  qed
qed

theorem mic_worker_stops_witness:
  "mw_phase (mic_run (replicate 3 (True, Inl [100], None)) \<lparr>mw_phase = MicStream, mw_error = None\<rparr>) = MicEnd"
  using mic_worker_stops[of "replicate 3 (True, Inl [100], None)" "\<lparr>mw_phase = MicStream, mw_error = None\<rparr>"]
  by (simp add: list_all_iff)

end
