(* ===== verification/Addr_Text.thy ===== *)
theory Addr_Text
  imports Net_Addr Utf8 "HOL-Library.Monad_Syntax"
begin

text \<open>
  The text form of socket addresses, from the Rust standard library: \<open>to_string\<close> and \<open>parse\<close> of an
  IPv4 \<open>SocketAddr\<close>, that is four decimal octets and a port. An octet has at most three digits and
  no leading zero, a port at most 65535 and any number of leading zeros. The grammar of IPv6 is not
  modelled: the parser of the bracketed form is the argument \<open>v6\<close>, and no operation of the source
  accepts its result.
\<close>

section \<open>Decimal numbers\<close>

fun digits :: "nat \<Rightarrow> rstring" where
  "digits n = (if n < 10 then [48 + n] else digits (n div 10) @ [48 + n mod 10])"

declare digits.simps [simp del]

definition is_digit :: "nat \<Rightarrow> bool" where
  "is_digit c \<longleftrightarrow> 48 \<le> c \<and> c \<le> 57"

definition number :: "rstring \<Rightarrow> nat" where
  "number ds = foldl (\<lambda>n c. n * 10 + (c - 48)) 0 ds"

lemma number_snoc [simp]: "number (ds @ [c]) = number ds * 10 + (c - 48)"
  by (simp add: number_def)

lemma digits_all: "list_all is_digit (digits n)"
proof (induction n rule: digits.induct)
  case (1 n)
  have "n mod 10 \<le> 9" using mod_less_divisor[of 10 n] by linarith
  with 1 show ?case by (subst digits.simps) (simp add: is_digit_def[of "48 + _"])
qed

lemma digits_nonempty [simp]: "digits n \<noteq> []"
  by (subst digits.simps) simp

lemma number_digits: "number (digits n) = n"
proof (induction n rule: digits.induct)
  case (1 n)
  then show ?case by (subst digits.simps) (simp add: number_def)
qed

lemma digits_hd: "n \<noteq> 0 \<Longrightarrow> hd (digits n) \<noteq> 48"
proof (induction n rule: digits.induct)
  case (1 n)
  then show ?case by (subst digits.simps) (auto simp: hd_append)
qed

lemma length_digits: "n < 1000 \<Longrightarrow> length (digits n) \<le> 3"
  by (subst digits.simps, subst digits.simps, subst digits.simps) simp

text \<open>A string literal of the source.\<close>

definition ascii :: "string \<Rightarrow> rstring" where
  "ascii s = map (\<lambda>c. of_char c) s"

section \<open>Addresses\<close>

definition show_v4 :: "ipv4 \<Rightarrow> rstring" where
  "show_v4 ip = (case ip of (a, b, c, d) \<Rightarrow>
     digits (unat a) @ [46] @ digits (unat b) @ [46] @ digits (unat c) @ [46] @ digits (unat d))"

definition show_v4_socket :: "ipv4 \<Rightarrow> u16 \<Rightarrow> rstring" where
  "show_v4_socket ip port = show_v4 ip @ [58] @ digits (unat port)"

text \<open>The longest run of digits, with what follows it.\<close>

definition read_digits :: "rstring \<Rightarrow> rstring \<times> rstring" where
  "read_digits s = (takeWhile is_digit s, dropWhile is_digit s)"

definition read_octet :: "rstring \<Rightarrow> (byte \<times> rstring) option" where
  "read_octet s =
     (case read_digits s of (ds, rest) \<Rightarrow>
        if ds = [] \<or> 3 < length ds \<or> (1 < length ds \<and> hd ds = 48) \<or> 255 < number ds then None
        else Some (of_nat (number ds), rest))"

definition read_port :: "rstring \<Rightarrow> (u16 \<times> rstring) option" where
  "read_port s =
     (case read_digits s of (ds, rest) \<Rightarrow>
        if ds = [] \<or> 65535 < number ds then None else Some (of_nat (number ds), rest))"

definition read_char :: "nat \<Rightarrow> rstring \<Rightarrow> rstring option" where
  "read_char c s = (case s of [] \<Rightarrow> None | x # rest \<Rightarrow> if x = c then Some rest else None)"

definition parse_v4_socket :: "rstring \<Rightarrow> (ipv4 \<times> u16) option" where
  "parse_v4_socket s = do {
     (a, s) \<leftarrow> read_octet s;
     s \<leftarrow> read_char 46 s;
     (b, s) \<leftarrow> read_octet s;
     s \<leftarrow> read_char 46 s;
     (c, s) \<leftarrow> read_octet s;
     s \<leftarrow> read_char 46 s;
     (d, s) \<leftarrow> read_octet s;
     s \<leftarrow> read_char 58 s;
     (port, s) \<leftarrow> read_port s;
     if s = [] then Some ((a, b, c, d), port) else None
   }"

definition parse_socket_addr :: "(rstring \<Rightarrow> (u16 list \<times> u16) option) \<Rightarrow> rstring \<Rightarrow> socket_addr option" where
  "parse_socket_addr v6 s =
     (case parse_v4_socket s of
        Some (ip, port) \<Rightarrow> Some (V4 ip, port)
      | None \<Rightarrow> map_option (\<lambda>(segs, port). (V6 segs, port)) (v6 s))"

section \<open>Round trip\<close>

lemma takeWhile_all: "list_all P ds \<Longrightarrow> \<not> P c \<Longrightarrow> takeWhile P (ds @ c # rest) = ds \<and> dropWhile P (ds @ c # rest) = c # rest"
  by (induction ds) auto

lemma takeWhile_all_end: "list_all P ds \<Longrightarrow> takeWhile P ds = ds \<and> dropWhile P ds = []"
  by (induction ds) auto

lemma read_octet_digits:
  assumes "\<not> is_digit c"
  shows "read_octet (digits (unat a) @ c # rest) = Some (a, c # rest)"
proof -
  have a: "unat a < 256" by (rule byte_lt)
  have r: "read_digits (digits (unat a) @ c # rest) = (digits (unat a), c # rest)"
    using takeWhile_all[OF digits_all assms] by (simp add: read_digits_def)
  have "length (digits (unat a)) \<le> 3" using length_digits[of "unat a"] a by simp
  moreover have "\<not> (1 < length (digits (unat a)) \<and> hd (digits (unat a)) = 48)"
    using digits_hd[of "unat a"] digits.simps[of 0] by (cases "unat a = 0") auto
  ultimately show ?thesis using a by (simp add: read_octet_def r number_digits)
qed

lemma read_port_digits: "read_port (digits (unat p)) = Some (p, [])"
  for p :: u16
proof -
  have p: "unat p < 65536" using unat_lt[of p] by simp
  have "read_digits (digits (unat p)) = (digits (unat p), [])"
    using takeWhile_all_end[OF digits_all] by (simp add: read_digits_def)
  then show ?thesis using p by (simp add: read_port_def number_digits)
qed

lemma socket_text: "parse_v4_socket (show_v4_socket ip port) = Some (ip, port)"
proof -
  obtain a b c d where ip: "ip = (a, b, c, d)" by (cases ip)
  have nd: "\<not> is_digit 46" "\<not> is_digit 58" by (simp_all add: is_digit_def)
  have s: "show_v4_socket ip port = digits (unat a) @ 46 # (digits (unat b) @ 46 # (digits (unat c) @ 46
      # (digits (unat d) @ 58 # digits (unat port))))"
    by (simp add: show_v4_socket_def show_v4_def ip)
  show ?thesis
    unfolding s parse_v4_socket_def
    by (simp add: read_octet_digits[OF nd(1)] read_octet_digits[OF nd(2)] read_char_def read_port_digits ip)
qed

text \<open>
  An IPv4 socket address survives its text form, so what the control server writes into its endpoint
  file and what the selection command saves is read back as the same address.
\<close>

theorem socket_text_roundtrip:
  "parse_socket_addr v6 (show_v4_socket ip port) = Some (V4 ip, port)"
  by (simp add: parse_socket_addr_def socket_text)

end
