(* ===== verification/Playback.thy ===== *)
theory Playback
  imports Pcm Audio_Format Utf8 Mixer Addr_Text
begin

text \<open>
  \<open>src/src/audio/playback.rs\<close>: the list of output devices, the playback statistics, the device
  callbacks that pull session PCM and fill the device buffer, the opening of the output stream and
  the worker thread that reopens it. The \<open>pull\<close> closure is an argument, a function on the state it
  works on, as in the code; the audio host is an argument. The statistics are the process-wide
  atomics, as a record; their 64-bit counters wrap.
\<close>

section \<open>Devices\<close>

record device_info =
  di_index :: nat
  di_name :: rstring
  di_is_default :: bool

text \<open>The host reports the default device's name, if any, and each device's name or an error.\<close>

definition list_output_devices :: "rstring option \<Rightarrow> (rstring option) list option \<Rightarrow> device_info list" where
  "list_output_devices default_name devices =
     (case devices of
        None \<Rightarrow> []
      | Some ds \<Rightarrow> map (\<lambda>(idx, d).
          let name = (case d of Some n \<Rightarrow> n | None \<Rightarrow> ascii ''device-'' @ digits idx)
          in \<lparr>di_index = idx, di_name = name, di_is_default = (default_name = Some name)\<rparr>) (enumerate 0 ds))"

section \<open>Statistics\<close>

record play_stats =
  ps_callbacks :: u64
  ps_frames :: u64
  ps_nonzero :: u64
  ps_silent_run :: u64
  ps_max_silent_run :: u64

text \<open>\<open>chunks_exact(2)\<close> of the pulled bytes, those that are not the zero sample.\<close>

fun nonzero_samples :: "byte list \<Rightarrow> nat" where
  "nonzero_samples (a # b # rest) = (if a \<noteq> 0 \<or> b \<noteq> 0 then 1 else 0) + nonzero_samples rest"
| "nonzero_samples _ = 0"

definition note_pull :: "byte list \<Rightarrow> nat \<Rightarrow> play_stats \<Rightarrow> play_stats" where
  "note_pull raw frames st =
     (let st = st\<lparr>ps_callbacks := ps_callbacks st + 1, ps_frames := ps_frames st + of_nat frames\<rparr>;
          count = of_nat (nonzero_samples raw)
      in if 0 < count then st\<lparr>ps_nonzero := ps_nonzero st + count, ps_silent_run := 0\<rparr>
         else if 0 < ps_nonzero st
         then (let run = ps_silent_run st + of_nat frames
               in st\<lparr>ps_silent_run := run, ps_max_silent_run := max (ps_max_silent_run st) run\<rparr>)
         else st)"

text \<open>A pull may not return (its clock is an argument): then the callback does not either.\<close>

type_synonym 'm pull = "'m \<Rightarrow> byte list \<Rightarrow> nat \<Rightarrow> ('m \<times> byte list) option"

definition counted_pull ::
  "'m pull \<Rightarrow> byte list \<Rightarrow> nat \<Rightarrow> 'm \<times> play_stats \<Rightarrow> (('m \<times> play_stats) \<times> byte list) option" where
  "counted_pull pl raw frames st =
     (case pl (fst st) raw frames of
        None \<Rightarrow> None
      | Some (m, raw) \<Rightarrow> Some ((m, note_pull raw frames (snd st)), raw))"

section \<open>The device callbacks\<close>

text \<open>
  The buffer is cut into chunks of at most 2048 frames; each chunk pulls its frames into the zeroed
  stack buffer (8192 bytes, cut to the chunk's frames) and is filled from it.
\<close>

fun callback_chunks ::
  "'m pull \<Rightarrow> ('a list \<Rightarrow> byte list \<Rightarrow> 'a list) \<Rightarrow> nat \<Rightarrow> nat \<Rightarrow> 'a list list \<Rightarrow> 'm \<times> play_stats
    \<Rightarrow> (('m \<times> play_stats) \<times> 'a list) option" where
  "callback_chunks pl fill device_channels session_bpf [] st = Some (st, [])"
| "callback_chunks pl fill device_channels session_bpf (chunk # cs) st =
     (let frames = length chunk div device_channels;
          raw = take (frames * session_bpf) (replicate 8192 0)
      in case counted_pull pl raw frames st of
           None \<Rightarrow> None
         | Some (st, raw) \<Rightarrow>
             (case callback_chunks pl fill device_channels session_bpf cs st of
                None \<Rightarrow> None
              | Some (st, out) \<Rightarrow> Some (st, fill chunk raw @ out)))"


definition playback_callback_f32 ::
  "'m pull \<Rightarrow> nat \<Rightarrow> nat \<Rightarrow> nat \<Rightarrow> flt list \<Rightarrow> 'm \<times> play_stats \<Rightarrow> (('m \<times> play_stats) \<times> flt list) option" where
  "playback_callback_f32 pl device_channels session_channels session_bpf out st =
     callback_chunks pl (\<lambda>chunk raw. fill_device_f32_from_session_i16 chunk raw device_channels session_channels)
       device_channels session_bpf (chunks (device_channels * 2048) out) st"

section \<open>Opening\<close>

datatype out_format = OF_I16 | OF_F32 | OF_other

datatype playback_error = PlayNeeds48kStereo | PlaySpawn rstring | PlayHost rstring | OutputNotFound nat
  | NoDefaultOutput | PlayUnsupported

datatype playback_backend = Cpal | NullBackend

type_synonym output_device = "rstring option \<times> (rstring + out_format)"

text \<open>
  \<open>open_cpal_playback\<close>: the device's name goes to the status, its default configuration gives the
  sample format, the session gives rate and channels. The result is the device name recorded and
  the callback that was installed (its sample format and the three sizes it captures).
\<close>

definition open_cpal_playback ::
  "rstring + output_device list \<Rightarrow> output_device option \<Rightarrow> rstring + unit \<Rightarrow> rstring + unit
    \<Rightarrow> audio_format \<Rightarrow> nat option \<Rightarrow> rstring \<Rightarrow> rstring \<times> (playback_error + (out_format \<times> nat \<times> nat \<times> nat))" where
  "open_cpal_playback devices dflt built started fmt device_index status_device =
     (case (case device_index of
              Some i \<Rightarrow> (case devices of
                           Inl e \<Rightarrow> Inl (PlayHost e)
                         | Inr ds \<Rightarrow> (case get_at ds i of None \<Rightarrow> Inl (OutputNotFound i) | Some d \<Rightarrow> Inr d))
            | None \<Rightarrow> (case dflt of None \<Rightarrow> Inl NoDefaultOutput | Some d \<Rightarrow> Inr d)) of
        Inl e \<Rightarrow> (status_device, Inl e)
      | Inr (name, config) \<Rightarrow>
          (let status_device = (case name of Some n \<Rightarrow> n | None \<Rightarrow> [])
           in (status_device,
               (case config of
                  Inl e \<Rightarrow> Inl (PlayHost e)
                | Inr sample_format \<Rightarrow>
                    if sample_format = OF_other then Inl PlayUnsupported
                    else case built of
                           Inl e \<Rightarrow> Inl (PlayHost e)
                         | Inr _ \<Rightarrow> (case started of
                                      Inl e \<Rightarrow> Inl (PlayHost e)
                                    | Inr _ \<Rightarrow> Inr (sample_format, unat (channels fmt), unat (channels fmt),
                                                   bytes_per_frame fmt))))))"

section \<open>The playback worker\<close>

text \<open>
  The thread's program counter and the status it publishes. One step is one test of the stop flag
  with what follows it. \<open>PlayPause n\<close> is the pause of twenty sleeps after a failed attempt. In a
  step: \<open>opened\<close> is the outcome of opening (the device name or an error), \<open>failed\<close> whether the
  stream has reported its loss, \<open>changed\<close> whether the check of the default device (made every two
  seconds when no device was chosen) found another name.
\<close>

datatype play_state = Closed | NullState | WaitingForOutput | Playing | Stopped

datatype play_phase = PlayStart | NullLoop | PlayHead | PlayStream | PlayPause nat | PlayEnd

record play_worker =
  pw_backend :: playback_backend
  pw_phase :: play_phase
  pw_state :: play_state
  pw_pulls :: nat

record play_obs =
  po_stop :: bool
  po_opened :: "playback_error + unit"
  po_failed :: bool
  po_changed :: bool

definition play_step :: "play_obs \<Rightarrow> play_worker \<Rightarrow> play_worker" where
  "play_step e w =
     (case pw_phase w of
        PlayStart \<Rightarrow>
          (case pw_backend w of
             NullBackend \<Rightarrow> w\<lparr>pw_state := NullState, pw_phase := NullLoop\<rparr>
           | Cpal \<Rightarrow> w\<lparr>pw_phase := PlayHead\<rparr>)
      | NullLoop \<Rightarrow>
          if po_stop e then w\<lparr>pw_phase := PlayEnd, pw_state := Stopped\<rparr>
          else w\<lparr>pw_pulls := pw_pulls w + 1\<rparr>
      | PlayHead \<Rightarrow>
          if po_stop e then w\<lparr>pw_phase := PlayEnd, pw_state := Stopped\<rparr>
          else (case po_opened e of
                  Inr _ \<Rightarrow> w\<lparr>pw_state := Playing, pw_phase := PlayStream\<rparr>
                | Inl _ \<Rightarrow> w\<lparr>pw_state := WaitingForOutput, pw_phase := PlayPause 20\<rparr>)
      | PlayStream \<Rightarrow>
          if po_stop e \<or> po_failed e \<or> po_changed e then w\<lparr>pw_phase := PlayHead\<rparr> else w
      | PlayPause n \<Rightarrow>
          (case n of
             0 \<Rightarrow> w\<lparr>pw_phase := PlayHead\<rparr>
           | Suc k \<Rightarrow> if po_stop e then w\<lparr>pw_phase := PlayHead\<rparr> else w\<lparr>pw_phase := PlayPause k\<rparr>)
      | PlayEnd \<Rightarrow> w)"

text \<open>The published status is process-wide: it keeps its last value until the thread runs.\<close>

definition open_playback ::
  "rstring + unit \<Rightarrow> play_state \<Rightarrow> audio_format \<Rightarrow> playback_backend \<Rightarrow> playback_error + play_worker" where
  "open_playback spawned status fmt backend =
     (if sample_rate fmt \<noteq> 48000 \<or> channels fmt \<noteq> 2 then Inl PlayNeeds48kStereo
      else case spawned of
             Inl e \<Rightarrow> Inl (PlaySpawn e)
           | Inr _ \<Rightarrow> Inr \<lparr>pw_backend = backend, pw_phase = PlayStart, pw_state = status, pw_pulls = 0\<rparr>)"


section \<open>The worker stops when told\<close>

definition play_run :: "play_obs list \<Rightarrow> play_worker \<Rightarrow> play_worker" where
  "play_run es w = foldl (\<lambda>w e. play_step e w) w es"

lemma play_run_simps [simp]: "play_run [] w = w" "play_run (e # es) w = play_run es (play_step e w)"
  by (simp_all add: play_run_def)

fun play_left :: "play_phase \<Rightarrow> nat" where
  "play_left PlayStart = 2" | "play_left NullLoop = 1" | "play_left PlayHead = 1"
| "play_left PlayStream = 2" | "play_left (PlayPause n) = 2" | "play_left PlayEnd = 0"

lemma play_left_0 [simp]: "play_left p = 0 \<longleftrightarrow> p = PlayEnd"
  by (cases p) simp_all

lemma play_step_stop: "po_stop e \<Longrightarrow> play_left (pw_phase (play_step e w)) = play_left (pw_phase w) - 1"
  by (simp add: play_step_def split: play_phase.split playback_backend.split nat.split)

lemma play_step_go: "\<not> po_stop e \<Longrightarrow> pw_phase w \<noteq> PlayEnd \<Longrightarrow> pw_phase (play_step e w) \<noteq> PlayEnd"
  by (simp add: play_step_def split: play_phase.split playback_backend.split nat.split sum.split)

text \<open>The published status follows the program counter.\<close>

definition status_ok :: "play_worker \<Rightarrow> bool" where
  "status_ok w \<longleftrightarrow> (pw_phase w = PlayEnd \<longrightarrow> pw_state w = Stopped) \<and> (pw_phase w = PlayStream \<longrightarrow> pw_state w = Playing)
     \<and> (pw_phase w = NullLoop \<longrightarrow> pw_state w = NullState)
     \<and> (\<forall>n. pw_phase w = PlayPause n \<longrightarrow> pw_state w = WaitingForOutput)"

lemma play_step_status: "status_ok w \<Longrightarrow> status_ok (play_step e w)"
  by (simp add: play_step_def status_ok_def split: play_phase.split playback_backend.split nat.split sum.split)

lemma play_run_status: "status_ok w \<Longrightarrow> status_ok (play_run es w)"
  by (induction es arbitrary: w) (simp_all add: play_step_status)

lemma play_run_left: "list_all po_stop es \<Longrightarrow> play_left (pw_phase (play_run es w)) = play_left (pw_phase w) - length es"
  by (induction es arbitrary: w) (simp_all add: play_step_stop)

lemma play_run_go: "list_all (\<lambda>e. \<not> po_stop e) es \<Longrightarrow> pw_phase w \<noteq> PlayEnd \<Longrightarrow> pw_phase (play_run es w) \<noteq> PlayEnd"
  by (induction es arbitrary: w) (simp_all add: play_step_go)

text \<open>
  A playback worker that \<open>open_playback\<close> starts publishes the status of what it does in every run;
  it ends, with the status "stopped", within two steps of the stop flag whatever the device does
  (which is what makes the \<open>join\<close> of \<open>stop\<close> return), and never without the flag: losses and errors
  of the device lead back to another attempt.
\<close>

theorem playback_worker_stops:
  assumes "open_playback spawned status fmt backend = Inr w"
    and "list_all (\<lambda>e. \<not> po_stop e) before" and "list_all po_stop after" and "2 \<le> length after"
  shows "status_ok (play_run before w) \<and> pw_phase (play_run before w) \<noteq> PlayEnd
    \<and> pw_phase (play_run after (play_run before w)) = PlayEnd
    \<and> pw_state (play_run after (play_run before w)) = Stopped"
proof -
  have w: "pw_phase w = PlayStart" using assms(1) by (auto simp: open_playback_def split: if_splits sum.splits)
  have ok: "status_ok w" by (simp add: status_ok_def w)
  have "play_left (pw_phase (play_run before w)) \<le> 2" by (cases "pw_phase (play_run before w)") simp_all
  then have "play_left (pw_phase (play_run after (play_run before w))) = 0"
    using play_run_left[OF assms(3)] assms(4) by simp
  then show ?thesis
    using play_run_status[OF ok, of before] play_run_status[OF play_run_status[OF ok], of after before]
      play_run_go[OF assms(2), of w] w by (simp add: status_ok_def)
qed

theorem playback_worker_stops_witness:
  "pw_state (play_run (replicate 2 \<lparr>po_stop = True, po_opened = Inr (), po_failed = False, po_changed = False\<rparr>)
     (play_run [] \<lparr>pw_backend = Cpal, pw_phase = PlayStart, pw_state = Closed, pw_pulls = 0\<rparr>)) = Stopped"
  using playback_worker_stops[of "Inr ()" Closed "\<lparr>sample_rate = 48000, channels = 2, frame_samples = 240\<rparr>" Cpal
      "\<lparr>pw_backend = Cpal, pw_phase = PlayStart, pw_state = Closed, pw_pulls = 0\<rparr>" "[]"
      "replicate 2 \<lparr>po_stop = True, po_opened = Inr (), po_failed = False, po_changed = False\<rparr>"]
  by (simp add: open_playback_def list_all_iff)

section \<open>The device plays the mix\<close>



definition mix_of :: "mixer \<Rightarrow> nat \<Rightarrow> u16 list" where
  "mix_of mx k = map (\<lambda>i. mixed_sample (mix_value k (mx_streams mx) i) (mx_master_gain mx)) [0..<2 * k]"

lemma length_mix_of [simp]: "length (mix_of mx k) = 2 * k"
  by (simp add: mix_of_def)













section \<open>The statistics\<close>

text \<open>What the silence counters mean: over the pulls since the first sound.\<close>

definition silent :: "byte list \<times> nat \<Rightarrow> bool" where
  "silent p \<longleftrightarrow> nonzero_samples (fst p) = 0"

definition since_sound :: "(byte list \<times> nat) list \<Rightarrow> (byte list \<times> nat) list" where
  "since_sound ps = dropWhile silent ps"

definition total_frames :: "(byte list \<times> nat) list \<Rightarrow> nat" where
  "total_frames ps = sum_list (map snd ps)"

definition ending_silence :: "(byte list \<times> nat) list \<Rightarrow> nat" where
  "ending_silence ps = total_frames (takeWhile silent (rev ps))"

definition longest_silence :: "(byte list \<times> nat) list \<Rightarrow> nat" where
  "longest_silence ps = Max (set (map (\<lambda>i. ending_silence (take i ps)) [0..<Suc (length ps)]))"

definition total_sound :: "(byte list \<times> nat) list \<Rightarrow> nat" where
  "total_sound ps = sum_list (map (\<lambda>p. nonzero_samples (fst p)) ps)"

definition note_pulls :: "(byte list \<times> nat) list \<Rightarrow> play_stats" where
  "note_pulls ps = foldl (\<lambda>st p. note_pull (fst p) (snd p) st)
     \<lparr>ps_callbacks = 0, ps_frames = 0, ps_nonzero = 0, ps_silent_run = 0, ps_max_silent_run = 0\<rparr> ps"


lemma note_pulls_simps [simp]:
  "note_pulls (ps @ [p]) = note_pull (fst p) (snd p) (note_pulls ps)"
  by (simp add: note_pulls_def)

lemma since_sound_snoc:
  "since_sound (ps @ [p]) = (if since_sound ps = [] then (if silent p then [] else [p]) else since_sound ps @ [p])"
  by (induction ps) (simp_all add: since_sound_def)

lemma ending_silence_snoc: "ending_silence (ps @ [p]) = (if silent p then snd p + ending_silence ps else 0)"
  by (simp add: ending_silence_def total_frames_def)

lemma longest_silence_snoc: "longest_silence (ps @ [p]) = max (longest_silence ps) (ending_silence (ps @ [p]))"
proof -
  have "map (\<lambda>i. ending_silence (take i (ps @ [p]))) [0..<Suc (length (ps @ [p]))]
      = map (\<lambda>i. ending_silence (take i ps)) [0..<Suc (length ps)] @ [ending_silence (ps @ [p])]"
    by simp
  then show ?thesis by (simp add: longest_silence_def max.commute del: upt_Suc)
qed

lemma silence_bounds: "ending_silence ps \<le> total_frames ps" "longest_silence ps \<le> total_frames ps"
proof -
  show e: "ending_silence ps \<le> total_frames ps" for ps :: "(byte list \<times> nat) list"
    by (induction ps rule: rev_induct) (simp_all add: ending_silence_snoc, auto simp: ending_silence_def total_frames_def)
  show "longest_silence ps \<le> total_frames ps"
  proof (induction ps rule: rev_induct)
    case Nil
    then show ?case by (simp add: longest_silence_def ending_silence_def total_frames_def)
  next
    case (snoc p ps)
    then show ?case using e[of "ps @ [p]"] by (simp add: longest_silence_snoc total_frames_def)
  qed
qed

lemma since_sound_total: "total_frames (since_sound ps) \<le> total_frames ps"
  by (induction ps) (simp_all add: since_sound_def total_frames_def)

lemma empty_silence [simp]: "ending_silence [] = 0" "longest_silence [] = 0" "ending_silence [p] = (if silent p then snd p else 0)"
  "longest_silence [p] = (if silent p then snd p else 0)"
  by (simp_all add: longest_silence_def ending_silence_def total_frames_def)

definition stats_are :: "(byte list \<times> nat) list \<Rightarrow> play_stats \<Rightarrow> bool" where
  "stats_are ps st \<longleftrightarrow> unat (ps_callbacks st) = length ps \<and> unat (ps_frames st) = total_frames ps
     \<and> unat (ps_nonzero st) = total_sound ps
     \<and> unat (ps_silent_run st) = ending_silence (since_sound ps)
     \<and> unat (ps_max_silent_run st) = longest_silence (since_sound ps)
     \<and> (total_sound ps = 0 \<longleftrightarrow> since_sound ps = [])"

lemma unat_add_small: "unat w + n < 2 ^ 64 \<Longrightarrow> unat (w + of_nat n) = unat w + n" for w :: u64
  by (simp add: unat_word_ariths unat_of_nat)

lemma stats_step:
  assumes "stats_are ps st" "length ps < 2 ^ 63" "total_frames (ps @ [p]) < 2 ^ 63" "total_sound (ps @ [p]) < 2 ^ 63"
  shows "stats_are (ps @ [p]) (note_pull (fst p) (snd p) st)"
proof -
  let ?q = "since_sound ps" and ?n = "nonzero_samples (fst p)"
  have cur: "unat (ps_callbacks st) = length ps" "unat (ps_frames st) = total_frames ps" "unat (ps_nonzero st) = total_sound ps"
    "unat (ps_silent_run st) = ending_silence ?q" "unat (ps_max_silent_run st) = longest_silence ?q"
    "total_sound ps = 0 \<longleftrightarrow> ?q = []" using assms(1) by (auto simp: stats_are_def)
  have b: "length ps + 1 < 2 ^ 64" "total_frames ps + snd p < 2 ^ 63" "total_sound ps + ?n < 2 ^ 63"
    using assms(2-4) by (simp_all add: total_frames_def total_sound_def)
  have e: "ending_silence ?q + snd p < 2 ^ 64"
    using silence_bounds(1)[of ?q] since_sound_total[of ps] b(2) by simp
  have frame: "unat (ps_callbacks st + 1) = length ps + 1" "unat (ps_frames st + of_nat (snd p)) = total_frames ps + snd p"
    "unat (ps_nonzero st + of_nat ?n) = total_sound ps + ?n"
    "unat (ps_silent_run st + of_nat (snd p)) = ending_silence ?q + snd p"
    using unat_add_small[of "ps_callbacks st" 1] unat_add_small[of "ps_frames st" "snd p"]
      unat_add_small[of "ps_nonzero st" ?n] unat_add_small[of "ps_silent_run st" "snd p"] cur b e by simp_all
  have "?n < 2 ^ 64" using b(3) by simp
  then have n: "unat (of_nat ?n :: u64) = ?n" by (simp add: unat_of_nat)
  then have sound: "0 < (of_nat ?n :: u64) \<longleftrightarrow> \<not> silent p" by (simp add: word_less_nat_alt silent_def)
  have nz: "0 < ps_nonzero st \<longleftrightarrow> ?q \<noteq> []" using cur(3,6) by (auto simp: word_less_nat_alt)
  have mx: "unat (max a b) = max (unat a) (unat b)" for a b :: u64 by (simp add: max_def word_le_nat_alt)
  have tot: "total_frames (ps @ [p]) = total_frames ps + snd p" "total_sound (ps @ [p]) = total_sound ps + ?n"
    by (simp_all add: total_frames_def total_sound_def)
  consider "\<not> silent p" | "silent p" "?q \<noteq> []" | "silent p" "?q = []" by blast
  then show ?thesis
  proof cases
    case 1
    then have "0 < ?n" by (simp add: silent_def)
    with 1 show ?thesis
      using frame cur sound by (simp add: stats_are_def note_pull_def tot since_sound_snoc ending_silence_snoc longest_silence_snoc)
  next
    case 2
    then have "?n = 0" by (simp add: silent_def)
    with 2 show ?thesis
      using frame cur nz by (simp add: stats_are_def note_pull_def tot since_sound_snoc ending_silence_snoc longest_silence_snoc
          mx add.commute Let_def)
  next
    case 3
    then have "?n = 0" by (simp add: silent_def)
    with 3 show ?thesis
      using frame cur nz by (simp add: stats_are_def note_pull_def tot since_sound_snoc)
  qed
qed

text \<open>
  C39. The statistics are exact: after any sequence of pulls (short of 2^63 of anything) they hold the
  number of pulls, of frames and of non-zero samples, the length of the silence that is running and
  the longest silence so far, both counted from the first sound on, as silence before it is not an
  underrun.
\<close>

theorem statistics_exact:
  assumes "length ps < 2 ^ 63" "total_frames ps < 2 ^ 63" "total_sound ps < 2 ^ 63"
  shows "stats_are ps (note_pulls ps)"
  using assms
proof (induction ps rule: rev_induct)
  case Nil
  then show ?case by (simp add: stats_are_def note_pulls_def total_frames_def total_sound_def since_sound_def)
next
  case (snoc p ps)
  then have "stats_are ps (note_pulls ps)" by (simp add: total_frames_def total_sound_def)
  then show ?case using stats_step[of ps "note_pulls ps" p] snoc.prems by simp
qed

theorem statistics_exact_witness:
  "stats_are [([0, 0], 5), ([1, 0], 5), ([0, 0], 7), ([0, 0], 2), ([0, 9], 1)]
     (note_pulls [([0, 0], 5), ([1, 0], 5), ([0, 0], 7), ([0, 0], 2), ([0, 9], 1)])
   \<and> longest_silence (since_sound [([0, 0], 5), ([1, 0], 5), ([0, 0], 7), ([0, 0], 2), ([0, 9], 1)]) = 9"
proof
  let ?ps = "[([0, 0], 5), ([1, 0], 5), ([0, 0], 7), ([0, 0], 2), ([0, 9], 1)] :: (byte list \<times> nat) list"
  show "stats_are ?ps (note_pulls ?ps)"
    by (rule statistics_exact) (simp_all add: total_frames_def total_sound_def)
  show "longest_silence (since_sound ?ps) = 9"
    by (simp add: longest_silence_def ending_silence_def total_frames_def since_sound_def silent_def upt_rec)
qed

end
