(* ===== verification/Store.thy ===== *)
theory Store
  imports Crypto_Session Addr_Text Ieee_Float
begin

text \<open>
  \<open>src/src/config/mod.rs\<close> and the pairing store of \<open>src/src/crypto/session.rs\<close>: the files of the
  configuration directory. The file system is a map from paths to contents with their permission
  bits; an operation that makes several system calls returns the state after each of them, because
  a crash can stop it there. Which calls fail is an argument. The JSON form of the files, from
  \<open>serde_json\<close>, is an argument too, with the round trip it documents as a hypothesis.
\<close>

type_synonym path = "rstring \<times> rstring"

record stored_file =
  fi_data :: "byte list"
  fi_mode :: nat

type_synonym files = "path \<Rightarrow> stored_file option"

datatype io_error = IoError

section \<open>Paths\<close>

text \<open>\<open>file_stem\<close>: up to the last dot, unless that is the first character or there is none.\<close>

definition file_stem :: "rstring \<Rightarrow> rstring" where
  "file_stem name =
     (let rest = dropWhile (\<lambda>c. c \<noteq> 46) (rev name)
      in if length rest \<le> 1 then name else rev (tl rest))"

definition with_extension :: "path \<Rightarrow> rstring \<Rightarrow> path" where
  "with_extension p ext = (fst p, file_stem (snd p) @ [46] @ ext)"

text \<open>\<open>{:016x}\<close>.\<close>

definition hex_char :: "nat \<Rightarrow> nat" where
  "hex_char d = (if d < 10 then 48 + d else 87 + d)"

fun hex_pad :: "nat \<Rightarrow> nat \<Rightarrow> rstring" where
  "hex_pad 0 n = []"
| "hex_pad (Suc k) n = hex_pad k (n div 16) @ [hex_char (n mod 16)]"

definition tmp_path :: "path \<Rightarrow> nat \<Rightarrow> u64 \<Rightarrow> path" where
  "tmp_path p pid r = with_extension p (ascii ''tmp-'' @ digits pid @ [45] @ hex_pad 16 (unat r))"

section \<open>Writing a private file\<close>

text \<open>
  The outcome of each call: opening with \<open>create_new\<close> (it also fails when the file exists), writing
  (all bytes, or an error after some of them), \<open>sync_all\<close>, on Windows the removal of the old file,
  the rename, and the removal of the temporary file after an error, whose outcome is ignored.
\<close>

record write_env =
  we_windows :: bool
  we_pid :: nat
  we_rand :: u64
  we_open :: bool
  we_partial :: "nat option"
  we_sync :: bool
  we_remove :: bool
  we_rename :: bool
  we_cleanup :: bool

definition write_steps :: "write_env \<Rightarrow> path \<Rightarrow> path \<Rightarrow> byte list \<Rightarrow> files \<Rightarrow> files list \<times> bool" where
  "write_steps e tmp p bs fs =
     (if fs tmp \<noteq> None \<or> \<not> we_open e then ([], False)
      else
        (let created = fs(tmp \<mapsto> \<lparr>fi_data = [], fi_mode = 384\<rparr>)
         in case we_partial e of
              Some k \<Rightarrow> ([created, fs(tmp \<mapsto> \<lparr>fi_data = take k bs, fi_mode = 384\<rparr>)], False)
            | None \<Rightarrow>
                (let full = fs(tmp \<mapsto> \<lparr>fi_data = bs, fi_mode = 384\<rparr>)
                 in if \<not> we_sync e then ([created, full], False)
                    else if we_windows e \<and> fs p \<noteq> None \<and> \<not> we_remove e then ([created, full], False)
                    else
                      (let cleared = (if we_windows e \<and> fs p \<noteq> None then [full(p := None)] else []);
                           last = (if we_windows e \<and> fs p \<noteq> None then full(p := None) else full)
                       in if \<not> we_rename e then ([created, full] @ cleared, False)
                          else ([created, full] @ cleared @ [last(p \<mapsto> \<lparr>fi_data = bs, fi_mode = 384\<rparr>, tmp := None)],
                                True)))))"

text \<open>The states the file system goes through, the starting one first, and the result.\<close>

definition private_write :: "write_env \<Rightarrow> path \<Rightarrow> byte list \<Rightarrow> files \<Rightarrow> files list \<times> (io_error + unit)" where
  "private_write e p bs fs =
     (let tmp = tmp_path p (we_pid e) (we_rand e);
          (states, ok) = write_steps e tmp p bs fs;
          states = fs # states
      in if ok then (states, Inr ())
         else (states @ (if we_cleanup e then [(last states)(tmp := None)] else []), Inl IoError))"

section \<open>Preferences\<close>

record preferences =
  pf_server :: "rstring option"
  pf_output_device :: "nat option"
  pf_capture_device :: "nat option"
  pf_master_gain :: "flt option"

definition default_preferences :: preferences where
  "default_preferences = \<lparr>pf_server = None, pf_output_device = None, pf_capture_device = None, pf_master_gain = None\<rparr>"

definition preferences_path :: "rstring \<Rightarrow> path" where
  "preferences_path dir = (dir, ascii ''preferences.json'')"

datatype store_error = StoreIo | StoreFormat

text \<open>\<open>de\<close> is \<open>serde_json::from_slice\<close>; \<open>readable\<close> is the outcome of reading the file.\<close>

definition load_preferences ::
  "(byte list \<Rightarrow> preferences option) \<Rightarrow> bool \<Rightarrow> rstring \<Rightarrow> files \<Rightarrow> store_error + preferences" where
  "load_preferences de readable dir fs =
     (case fs (preferences_path dir) of
        None \<Rightarrow> Inr default_preferences
      | Some f \<Rightarrow>
          if \<not> readable then Inl StoreIo
          else case de (fi_data f) of None \<Rightarrow> Inl StoreFormat | Some p \<Rightarrow> Inr p)"

definition save_preferences ::
  "(preferences \<Rightarrow> byte list option) \<Rightarrow> write_env \<Rightarrow> rstring \<Rightarrow> preferences \<Rightarrow> files \<Rightarrow> files list \<times> (store_error + unit)" where
  "save_preferences ser e dir prefs fs =
     (case ser prefs of
        None \<Rightarrow> ([fs], Inl StoreFormat)
      | Some bs \<Rightarrow>
          (case private_write e (preferences_path dir) bs fs of
             (states, Inl _) \<Rightarrow> (states, Inl StoreIo)
           | (states, Inr _) \<Rightarrow> (states, Inr ())))"

section \<open>The pairing store\<close>

record pairing_config =
  pc_token :: rstring
  pc_receiver_name :: "rstring option"

definition pairing_path :: "rstring \<Rightarrow> path" where
  "pairing_path dir = (dir, ascii ''pairing.json'')"

text \<open>\<open>fs::read_to_string\<close> also fails on bytes that are not UTF-8.\<close>

definition pairing_load ::
  "(rstring \<Rightarrow> pairing_config option) \<Rightarrow> bool \<Rightarrow> rstring \<Rightarrow> files \<Rightarrow> crypto_error + pairing_config option" where
  "pairing_load de readable dir fs =
     (case fs (pairing_path dir) of
        None \<Rightarrow> Inr None
      | Some f \<Rightarrow>
          if \<not> readable then Inl CryptoIo
          else case from_utf8 (fi_data f) of
                 None \<Rightarrow> Inl CryptoIo
               | Some s \<Rightarrow> (case de s of None \<Rightarrow> Inl InvalidToken | Some cfg \<Rightarrow> Inr (Some cfg)))"

text \<open>
  \<open>fs::write\<close> creates the file with the process's default mode (an existing file keeps its own),
  truncates it and writes; afterwards, on Unix, the permissions are set. \<open>wrote\<close> is the outcome of
  opening (\<open>Inl None\<close>) or writing (\<open>Inl (Some k)\<close>, an error after \<open>k\<close> bytes).
\<close>

definition pairing_save ::
  "(pairing_config \<Rightarrow> rstring option) \<Rightarrow> bool \<Rightarrow> bool \<Rightarrow> nat \<Rightarrow> nat option + unit \<Rightarrow> bool \<Rightarrow> rstring
    \<Rightarrow> pairing_config \<Rightarrow> files \<Rightarrow> files list \<times> (crypto_error + unit)" where
  "pairing_save ser unix mkdir default_mode wrote chmod dir cfg fs =
     (if \<not> mkdir then ([fs], Inl CryptoIo)
      else case ser cfg of
             None \<Rightarrow> ([fs], Inl InvalidToken)
           | Some text \<Rightarrow>
               (let p = pairing_path dir;
                    mode = (case fs p of None \<Rightarrow> default_mode | Some f \<Rightarrow> fi_mode f);
                    opened = fs(p \<mapsto> \<lparr>fi_data = [], fi_mode = mode\<rparr>);
                    full = fs(p \<mapsto> \<lparr>fi_data = utf8 text, fi_mode = mode\<rparr>)
                in case wrote of
                     Inl None \<Rightarrow> ([fs], Inl CryptoIo)
                   | Inl (Some k) \<Rightarrow> ([fs, opened, fs(p \<mapsto> \<lparr>fi_data = take k (utf8 text), fi_mode = mode\<rparr>)], Inl CryptoIo)
                   | Inr _ \<Rightarrow>
                       if \<not> unix then ([fs, opened, full], Inr ())
                       else if \<not> chmod then ([fs, opened, full], Inl CryptoIo)
                       else ([fs, opened, full, fs(p \<mapsto> \<lparr>fi_data = utf8 text, fi_mode = 384\<rparr>)], Inr ())))"

section \<open>The daemon lock\<close>

text \<open>\<open>flock\<close> with \<open>LOCK_EX | LOCK_NB\<close> on Unix: one holder per file; \<open>held\<close> are the locked directories.\<close>

datatype lock_error = LockIo | LockHeld

definition acquire_daemon_lock :: "bool \<Rightarrow> rstring \<Rightarrow> rstring list \<Rightarrow> (lock_error + unit) \<times> rstring list" where
  "acquire_daemon_lock openable dir held =
     (if \<not> openable then (Inl LockIo, held)
      else if dir \<in> set held then (Inl LockHeld, held)
      else (Inr (), dir # held))"


section \<open>What a crash leaves behind\<close>

lemma tmp_name: "snd (tmp_path (preferences_path dir) pid r) \<noteq> snd (preferences_path dir)"
proof -
  have n: "ascii ''preferences.json'' = [112, 114, 101, 102, 101, 114, 101, 110, 99, 101, 115, 46, 106, 115, 111, 110]"
    "ascii ''tmp-'' = [116, 109, 112, 45]"
    by (simp_all add: ascii_def)
  have st: "file_stem (ascii ''preferences.json'') = [112, 114, 101, 102, 101, 114, 101, 110, 99, 101, 115]"
    unfolding n by (simp add: file_stem_def)
  show ?thesis
    unfolding tmp_path_def with_extension_def preferences_path_def snd_conv st
    by (simp add: n)
qed

lemma tmp_other: "tmp_path (preferences_path dir) pid r \<noteq> preferences_path dir"
  using tmp_name by metis

text \<open>
  The file under its name is old or new in every state, or, on Windows, removed and not yet replaced;
  other files are left alone; what the temporary file holds only the owner can read.
\<close>

definition old_or_new :: "bool \<Rightarrow> files \<Rightarrow> path \<Rightarrow> path \<Rightarrow> byte list \<Rightarrow> files \<Rightarrow> bool" where
  "old_or_new windows fs p tmp bs s \<longleftrightarrow>
     (s p = fs p \<or> s p = Some \<lparr>fi_data = bs, fi_mode = 384\<rparr> \<or> (windows \<and> fs p \<noteq> None \<and> s p = None))
     \<and> (\<forall>q. q \<noteq> p \<longrightarrow> q \<noteq> tmp \<longrightarrow> s q = fs q)
     \<and> (s tmp = None \<or> s tmp = fs tmp \<or> (\<exists>f. s tmp = Some f \<and> fi_mode f = 384))"

lemma write_steps_states:
  assumes "tmp \<noteq> p"
  shows "list_all (old_or_new (we_windows e) fs p tmp bs) (fst (write_steps e tmp p bs fs))"
  using assms by (auto simp: write_steps_def old_or_new_def Let_def split: option.split)

lemma write_steps_end:
  assumes "tmp \<noteq> p" "snd (write_steps e tmp p bs fs)"
  shows "last (fs # fst (write_steps e tmp p bs fs)) = fs(p \<mapsto> \<lparr>fi_data = bs, fi_mode = 384\<rparr>)"
  using assms by (auto simp: write_steps_def Let_def fun_eq_iff split: option.splits if_splits)

lemma write_steps_failed:
  assumes "tmp \<noteq> p" "\<not> snd (write_steps e tmp p bs fs)"
  shows "last (fs # fst (write_steps e tmp p bs fs)) p = fs p
    \<or> (we_windows e \<and> fs p \<noteq> None \<and> last (fs # fst (write_steps e tmp p bs fs)) p = None)"
  using assms by (auto simp: write_steps_def Let_def split: option.splits if_splits)

lemma private_write_states:
  assumes "tmp_path p (we_pid e) (we_rand e) \<noteq> p"
  shows "list_all (old_or_new (we_windows e) fs p (tmp_path p (we_pid e) (we_rand e)) bs) (fst (private_write e p bs fs))"
    and "snd (private_write e p bs fs) = Inr () \<Longrightarrow>
        last (fst (private_write e p bs fs)) = fs(p \<mapsto> \<lparr>fi_data = bs, fi_mode = 384\<rparr>)"
    and "snd (private_write e p bs fs) \<noteq> Inr () \<Longrightarrow>
        last (fst (private_write e p bs fs)) p = fs p
        \<or> (we_windows e \<and> fs p \<noteq> None \<and> last (fst (private_write e p bs fs)) p = None)"
proof -
  let ?t = "tmp_path p (we_pid e) (we_rand e)"
  obtain ss ok where w: "write_steps e ?t p bs fs = (ss, ok)" by (cases "write_steps e ?t p bs fs")
  have pw: "private_write e p bs fs = (if ok then (fs # ss, Inr ())
      else ((fs # ss) @ (if we_cleanup e then [(last (fs # ss))(?t := None)] else []), Inl IoError))"
    by (simp add: private_write_def w Let_def)
  have ss: "list_all (old_or_new (we_windows e) fs p ?t bs) (fs # ss)"
    using write_steps_states[OF assms, of e fs bs] w by (simp add: old_or_new_def)
  then have "old_or_new (we_windows e) fs p ?t bs (last (fs # ss))"
    using last_in_set[of "fs # ss"] unfolding list_all_iff by blast
  then have "old_or_new (we_windows e) fs p ?t bs ((last (fs # ss))(?t := None))"
    using assms by (simp add: old_or_new_def)
  then show "list_all (old_or_new (we_windows e) fs p ?t bs) (fst (private_write e p bs fs))"
    using ss unfolding pw by simp
  show "snd (private_write e p bs fs) = Inr () \<Longrightarrow>
      last (fst (private_write e p bs fs)) = fs(p \<mapsto> \<lparr>fi_data = bs, fi_mode = 384\<rparr>)"
    using write_steps_end[OF assms, of e bs fs] w unfolding pw by (simp split: if_splits)
  show "snd (private_write e p bs fs) \<noteq> Inr () \<Longrightarrow>
      last (fst (private_write e p bs fs)) p = fs p
      \<or> (we_windows e \<and> fs p \<noteq> None \<and> last (fst (private_write e p bs fs)) p = None)"
    using write_steps_failed[OF assms, of e bs fs] w assms unfolding pw by (auto split: if_splits)
qed

text \<open>
  What \<open>serde_json\<close> documents of the preferences: what it has printed it reads back, the strings and
  the integers as they were; a gain that is not finite is printed as \<open>null\<close> and so read as no gain;
  as what it reads the text of a finite gain is the argument \<open>gain\<close>.
\<close>

definition read_back :: "(flt \<Rightarrow> flt option) \<Rightarrow> preferences \<Rightarrow> preferences" where
  "read_back gain p = p\<lparr>pf_master_gain := Option.bind (pf_master_gain p) gain\<rparr>"

definition prefs_json ::
  "(preferences \<Rightarrow> byte list option) \<Rightarrow> (byte list \<Rightarrow> preferences option) \<Rightarrow> (flt \<Rightarrow> flt option) \<Rightarrow> bool" where
  "prefs_json ser de gain \<longleftrightarrow>
     (\<forall>p bs. ser p = Some bs \<longrightarrow> de bs = Some (read_back gain p)) \<and> (\<forall>g. \<not> is_finite g \<longrightarrow> gain g = None)"

lemma saved_loads:
  assumes "prefs_json ser de gain" "snd (save_preferences ser e dir prefs fs) = Inr ()"
  shows "load_preferences de True dir (last (fst (save_preferences ser e dir prefs fs))) = Inr (read_back gain prefs)"
    and "q \<noteq> preferences_path dir \<Longrightarrow> last (fst (save_preferences ser e dir prefs fs)) q = fs q"
proof -
  obtain bs where bs: "ser prefs = Some bs"
    using assms(2) by (cases "ser prefs") (auto simp: save_preferences_def)
  obtain ss where w: "private_write e (preferences_path dir) bs fs = (ss, Inr ())"
    using assms(2) bs by (auto simp: save_preferences_def split: prod.splits sum.splits)
  then have "last ss = fs(preferences_path dir \<mapsto> \<lparr>fi_data = bs, fi_mode = 384\<rparr>)"
    using private_write_states(2)[OF tmp_other[where dir = dir], where e = e and bs = bs and fs = fs] by simp
  moreover have "de bs = Some (read_back gain prefs)" using assms(1) bs unfolding prefs_json_def by blast
  ultimately show "load_preferences de True dir (last (fst (save_preferences ser e dir prefs fs))) = Inr (read_back gain prefs)"
    "q \<noteq> preferences_path dir \<Longrightarrow> last (fst (save_preferences ser e dir prefs fs)) q = fs q"
    using bs w by (simp_all add: save_preferences_def load_preferences_def)
qed

lemma failed_save:
  assumes "snd (save_preferences ser e dir prefs fs) \<noteq> Inr ()"
  shows "last (fst (save_preferences ser e dir prefs fs)) (preferences_path dir) = fs (preferences_path dir)
    \<or> (we_windows e \<and> fs (preferences_path dir) \<noteq> None
        \<and> last (fst (save_preferences ser e dir prefs fs)) (preferences_path dir) = None)"
proof (cases "ser prefs")
  case None
  then show ?thesis by (simp add: save_preferences_def)
next
  case (Some bs)
  then show ?thesis
    using private_write_states(3)[OF tmp_other[where dir = dir], where e = e and bs = bs and fs = fs] assms
    by (cases "private_write e (preferences_path dir) bs fs") (auto simp: save_preferences_def split: sum.splits)
qed

text \<open>
  C25. Preferences survive crashes. Whatever call fails and wherever a crash stops the save, the
  preferences file holds the old contents or the new ones, complete, except that on Windows, where
  an existing file is removed before the rename, it can also be missing; so the next start reads
  the old preferences, the new ones, or on Windows possibly the defaults, but never a part of a
  file. No other file is touched but the temporary one, which is created for the owner alone. A
  save that reports success is read back as the saved preferences (a gain as its JSON text reads,
  none when it is not finite); one that reports an error has left the old preferences, or on
  Windows possibly no file.
\<close>

theorem preferences_crash_safe:
  assumes "prefs_json ser de gain" and "ser prefs = Some bs"
  shows "list_all (old_or_new (we_windows e) fs (preferences_path dir) (tmp_path (preferences_path dir) (we_pid e) (we_rand e)) bs)
      (fst (save_preferences ser e dir prefs fs))
    \<and> list_all (\<lambda>s. load_preferences de True dir s = load_preferences de True dir fs
          \<or> load_preferences de True dir s = Inr (read_back gain prefs)
          \<or> (we_windows e \<and> load_preferences de True dir s = Inr default_preferences))
        (fst (save_preferences ser e dir prefs fs))
    \<and> (snd (save_preferences ser e dir prefs fs) = Inr () \<longrightarrow>
        load_preferences de True dir (last (fst (save_preferences ser e dir prefs fs))) = Inr (read_back gain prefs))
    \<and> (snd (save_preferences ser e dir prefs fs) \<noteq> Inr () \<longrightarrow>
        load_preferences de True dir (last (fst (save_preferences ser e dir prefs fs))) = load_preferences de True dir fs
        \<or> (we_windows e \<and> last (fst (save_preferences ser e dir prefs fs)) (preferences_path dir) = None))"
proof -
  let ?t = "tmp_path (preferences_path dir) (we_pid e) (we_rand e)"
  have "fst (save_preferences ser e dir prefs fs) = fst (private_write e (preferences_path dir) bs fs)"
    using assms(2) by (simp add: save_preferences_def split: prod.split sum.split)
  then have all: "list_all (old_or_new (we_windows e) fs (preferences_path dir) ?t bs) (fst (save_preferences ser e dir prefs fs))"
    using private_write_states(1)[OF tmp_other[where dir = dir], where e = e and bs = bs and fs = fs] by simp
  have de: "de bs = Some (read_back gain prefs)" using assms unfolding prefs_json_def by blast
  have "load_preferences de True dir s = load_preferences de True dir fs
      \<or> load_preferences de True dir s = Inr (read_back gain prefs)
      \<or> (we_windows e \<and> load_preferences de True dir s = Inr default_preferences)"
    if "old_or_new (we_windows e) fs (preferences_path dir) ?t bs s" for s
    using that de by (auto simp: old_or_new_def load_preferences_def)
  with all have loads: "list_all (\<lambda>s. load_preferences de True dir s = load_preferences de True dir fs
          \<or> load_preferences de True dir s = Inr (read_back gain prefs)
          \<or> (we_windows e \<and> load_preferences de True dir s = Inr default_preferences))
        (fst (save_preferences ser e dir prefs fs))"
    unfolding list_all_iff by blast
  show ?thesis
    using all loads saved_loads(1)[OF assms(1)] failed_save[of ser e dir prefs fs]
    by (auto simp: load_preferences_def)
qed

definition demo_write :: write_env where
  "demo_write = \<lparr>we_windows = False, we_pid = 7, we_rand = 9, we_open = True, we_partial = None, we_sync = True,
     we_remove = True, we_rename = True, we_cleanup = True\<rparr>"

definition demo_gain :: "flt \<Rightarrow> flt option" where
  "demo_gain g = (if is_finite g then Some g else None)"

lemma demo_prefs_json: "prefs_json (\<lambda>p. if p = default_preferences then Some [1] else None) (\<lambda>b. Some default_preferences) demo_gain"
  by (simp add: prefs_json_def read_back_def demo_gain_def default_preferences_def)

theorem preferences_crash_safe_witness:
  "load_preferences (\<lambda>b. Some default_preferences) True []
      (last (fst (save_preferences (\<lambda>p. if p = default_preferences then Some [1] else None)
        (demo_write\<lparr>we_windows := True\<rparr>) [] default_preferences
        ((\<lambda>q. None)(preferences_path [] \<mapsto> \<lparr>fi_data = [2], fi_mode = 384\<rparr>))))) = Inr default_preferences"
proof -
  let ?ser = "\<lambda>p. if p = default_preferences then Some [1] else None"
  let ?e = "demo_write\<lparr>we_windows := True\<rparr>" and ?fs = "(\<lambda>q. None)(preferences_path [] \<mapsto> \<lparr>fi_data = [2 :: byte], fi_mode = 384\<rparr>)"
  have "snd (save_preferences ?ser ?e [] default_preferences ?fs) = Inr ()"
    using tmp_other[of "[]" 7 9]
    by (simp add: save_preferences_def private_write_def write_steps_def demo_write_def Let_def)
  moreover have "read_back demo_gain default_preferences = default_preferences"
    by (simp add: read_back_def default_preferences_def)
  ultimately show ?thesis
    using preferences_crash_safe[OF demo_prefs_json, of default_preferences "[1]" ?e ?fs "[]"] by simp
qed

text \<open>
  On Windows the old file is removed before the rename: when the rename fails, the preferences are
  gone although the save reports an error.
\<close>

theorem windows_save_can_lose:
  "fst (save_preferences (\<lambda>p. Some [1]) (demo_write\<lparr>we_windows := True, we_rename := False\<rparr>) [] default_preferences
       ((\<lambda>q. None)(preferences_path [] \<mapsto> \<lparr>fi_data = [2], fi_mode = 384\<rparr>))) ! 4 = (\<lambda>q. None)
    \<and> snd (save_preferences (\<lambda>p. Some [1]) (demo_write\<lparr>we_windows := True, we_rename := False\<rparr>) [] default_preferences
       ((\<lambda>q. None)(preferences_path [] \<mapsto> \<lparr>fi_data = [2], fi_mode = 384\<rparr>))) = Inl StoreIo"
  using tmp_other[of "[]" 7 9] by (auto simp: save_preferences_def private_write_def write_steps_def demo_write_def Let_def fun_eq_iff)

text \<open>
  The pairing file is read back as it was saved, when the save succeeds, and then has the owner's
  permissions on Unix; but until the permissions are set the group secret is in a file with the
  process's default mode.
\<close>

theorem pairing_save_load:
  assumes "ser cfg = Some text" and "de text = Some cfg" and "valid_string text"
    and "snd (pairing_save ser unix mkdir default_mode wrote chmod dir cfg fs) = Inr ()"
  shows "pairing_load de True dir (last (fst (pairing_save ser unix mkdir default_mode wrote chmod dir cfg fs))) = Inr (Some cfg)
    \<and> (unix \<longrightarrow> map_option fi_mode (last (fst (pairing_save ser unix mkdir default_mode wrote chmod dir cfg fs)) (pairing_path dir)) = Some 384)
    \<and> (fs (pairing_path dir) = None \<longrightarrow>
        (fst (pairing_save ser unix mkdir default_mode wrote chmod dir cfg fs) ! 2) (pairing_path dir)
          = Some \<lparr>fi_data = utf8 text, fi_mode = default_mode\<rparr>)"
  using assms from_utf8_utf8[of "text"]
  by (auto simp: pairing_save_def pairing_load_def Let_def split: if_splits sum.splits option.splits)

theorem pairing_save_load_witness:
  "pairing_load (\<lambda>t. Some \<lparr>pc_token = [97], pc_receiver_name = None\<rparr>) True []
     (last (fst (pairing_save (\<lambda>c. Some [97]) True True 420 (Inr ()) True [] \<lparr>pc_token = [97], pc_receiver_name = None\<rparr> (\<lambda>q. None))))
    = Inr (Some \<lparr>pc_token = [97], pc_receiver_name = None\<rparr>)"
  using pairing_save_load[of "\<lambda>c. Some [97]" "\<lparr>pc_token = [97], pc_receiver_name = None\<rparr>" "[97]"
      "\<lambda>t. Some \<lparr>pc_token = [97], pc_receiver_name = None\<rparr>" True True 420 "Inr ()" True "[]" "\<lambda>q. None"]
  by (simp add: pairing_save_def valid_string_def scalar_def Let_def)

end
