(* ===== verification/Control.thy ===== *)
theory Control
  imports Store Discovery
begin

text \<open>
  \<open>src/src/control/mod.rs\<close>: the local control channel. A connection sends one line of JSON with a
  token derived from the invitation, the server answers with one line. The JSON reader and printer
  (\<open>serde_json\<close>) are arguments. The handler is a locale: a function on the state it works on, of
  which a property is promised to survive every request.
\<close>

definition MAX_CONTROL_BYTES :: nat where "MAX_CONTROL_BYTES = 16384"

record 'j control_request =
  cq_token :: rstring
  cq_command :: rstring
  cq_args :: 'j

record 'b control_response =
  cs_ok :: bool
  cs_body :: 'b

definition LABEL_CONTROL :: "byte list" where "LABEL_CONTROL = bytes_of ''remote-au-local-control-v2''"

definition derive_control_token :: "crates \<Rightarrow> rstring \<Rightarrow> rstring" where
  "derive_control_token l invitation =
     hex_encode l (take 32 (blake2b512 l (LABEL_CONTROL @ utf8 invitation)))"

definition authorized :: "crates \<Rightarrow> rstring \<Rightarrow> rstring \<Rightarrow> bool" where
  "authorized l a b = ct_eq l (utf8 a) (utf8 b)"

section \<open>One connection\<close>

text \<open>
  \<open>read_line\<close> on at most \<open>MAX_CONTROL_BYTES + 1\<close> bytes of what the peer sends until it stops: up to
  and including the first newline; bytes that are not UTF-8 are an error.
\<close>

definition read_line :: "nat \<Rightarrow> byte list \<Rightarrow> rstring option" where
  "read_line limit bs =
     (let bs = take limit bs;
          line = takeWhile (\<lambda>b. b \<noteq> 10) bs @ (if 10 \<in> set bs then [10] else [])
      in from_utf8 line)"

datatype 'b reply = Closed | Unauthorized | Answer "'b control_response"

text \<open>
  What the connection does: \<open>Closed\<close> is an early return without an answer, \<open>Unauthorized\<close> the answer
  \<open>{"ok":false,...}\<close> for a bad token or malformed JSON.
\<close>

definition serve_connection ::
  "crates \<Rightarrow> (rstring \<Rightarrow> 'j control_request option) \<Rightarrow> ('j control_request \<Rightarrow> 's \<Rightarrow> 'b control_response \<times> 's)
    \<Rightarrow> rstring \<Rightarrow> byte list \<Rightarrow> 's \<Rightarrow> 'b reply \<times> 's" where
  "serve_connection l from_json handler expected input st =
     (case read_line (MAX_CONTROL_BYTES + 1) input of
        None \<Rightarrow> (Closed, st)
      | Some line \<Rightarrow>
          if MAX_CONTROL_BYTES < str_len line \<or> line = [] \<or> last line \<noteq> 10 then (Closed, st)
          else
            (case from_json line of
               Some req \<Rightarrow>
                 if authorized l (cq_token req) expected
                 then (case handler req st of (resp, st) \<Rightarrow> (Answer resp, st))
                 else (Unauthorized, st)
             | None \<Rightarrow> (Unauthorized, st)))"

text \<open>
  The bytes of the answer: one line of JSON, or nothing when the connection is closed early or the
  response cannot be printed. \<open>to_line\<close> is \<open>serde_json::to_string\<close> on a response, \<open>denied\<close> the body of
  the answer to a bad token.
\<close>

definition reply_bytes ::
  "('b control_response \<Rightarrow> rstring option) \<Rightarrow> 'b \<Rightarrow> 'b reply \<Rightarrow> byte list" where
  "reply_bytes to_line denied reply =
     (let line = (\<lambda>resp. case to_line resp of None \<Rightarrow> [] | Some t \<Rightarrow> utf8 (t @ [10]))
      in case reply of
           Closed \<Rightarrow> []
         | Unauthorized \<Rightarrow> line \<lparr>cs_ok = False, cs_body = denied\<rparr>
         | Answer resp \<Rightarrow> line resp)"

section \<open>The accept loop\<close>

text \<open>
  Sixteen slots: a connection that finds none free is dropped. The state is the number of
  connections in progress and the handler's state; \<open>Left k\<close> is the end of a connection without a
  request (its three seconds are over, or it broke).
\<close>

datatype net_event = Accepted | Request "byte list" | Left

record 's control_server =
  sv_active :: nat
  sv_state :: 's

definition server_event ::
  "crates \<Rightarrow> (rstring \<Rightarrow> 'j control_request option) \<Rightarrow> ('j control_request \<Rightarrow> 's \<Rightarrow> 'b control_response \<times> 's)
    \<Rightarrow> rstring \<Rightarrow> net_event \<Rightarrow> 's control_server \<Rightarrow> 's control_server" where
  "server_event l from_json handler expected ev sv =
     (case ev of
        Accepted \<Rightarrow> if sv_active sv < 16 then sv\<lparr>sv_active := sv_active sv + 1\<rparr> else sv
      | Request input \<Rightarrow>
          if sv_active sv = 0 then sv
          else sv\<lparr>sv_active := sv_active sv - 1,
                  sv_state := snd (serve_connection l from_json handler expected input (sv_state sv))\<rparr>
      | Left \<Rightarrow> sv\<lparr>sv_active := sv_active sv - 1\<rparr>)"

section \<open>The endpoint file\<close>

definition endpoint_path :: "rstring \<Rightarrow> path" where
  "endpoint_path dir = (dir, ascii ''control.json'')"

datatype control_error = ControlIo | ControlFormat | NotLoopback | AddrInUse
  | NotRunning | RequestFormat | SendFailed | ReceiveFailed | BadAnswer | TimedOut

fun ip_is_loopback :: "ip_addr \<Rightarrow> bool" where
  "ip_is_loopback (V4 v) \<longleftrightarrow> v4_is_loopback v"
| "ip_is_loopback (V6 v) \<longleftrightarrow> v6_is_loopback v"

text \<open>\<open>string_of\<close> and \<open>to_json\<close>: \<open>serde_json\<close> on a string.\<close>

definition read_endpoint ::
  "(byte list \<Rightarrow> rstring option) \<Rightarrow> (rstring \<Rightarrow> (u16 list \<times> u16) option) \<Rightarrow> rstring \<Rightarrow> files \<Rightarrow> control_error + socket_addr" where
  "read_endpoint string_of v6 dir fs =
     (case fs (endpoint_path dir) of
        None \<Rightarrow> Inl ControlIo
      | Some f \<Rightarrow>
          (case string_of (fi_data f) of
             None \<Rightarrow> Inl ControlFormat
           | Some s \<Rightarrow>
               (case parse_socket_addr v6 s of
                  None \<Rightarrow> Inl ControlFormat
                | Some addr \<Rightarrow> if \<not> ip_is_loopback (sock_ip addr) then Inl NotLoopback else Inr addr)))"

text \<open>
  The start of the server: another daemon that answers on the recorded endpoint keeps it
  (\<open>connects\<close>), otherwise the listener's address on 127.0.0.1 is written to the file.
\<close>

definition control_start ::
  "(byte list \<Rightarrow> rstring option) \<Rightarrow> (rstring \<Rightarrow> byte list) \<Rightarrow> (rstring \<Rightarrow> (u16 list \<times> u16) option)
    \<Rightarrow> (socket_addr \<Rightarrow> bool) \<Rightarrow> u16 option \<Rightarrow> write_env \<Rightarrow> rstring \<Rightarrow> files \<Rightarrow> files list \<times> (control_error + u16)" where
  "control_start string_of to_json v6 connects bound e dir fs =
     (if (case read_endpoint string_of v6 dir fs of Inr old \<Rightarrow> connects old | Inl _ \<Rightarrow> False)
      then ([fs], Inl AddrInUse)
      else case bound of
             None \<Rightarrow> ([fs], Inl ControlIo)
           | Some port \<Rightarrow>
               (case private_write e (endpoint_path dir) (to_json (show_v4_socket v4_localhost port)) fs of
                  (states, Inl _) \<Rightarrow> (states, Inl ControlIo)
                | (states, Inr _) \<Rightarrow> (states, Inr port)))"

section \<open>The client\<close>

text \<open>
  What happens on the wire is an argument: \<open>connect\<close> tells whether the connection to an address is
  refused, still open when the four seconds are over, or made; what then follows the sending of some
  bytes is an error of the sending or of the receiving, again the end of the four seconds, or the
  bytes that the peer sends (until it closes, or a line or one mebibyte is complete). The request is
  printed by \<open>to_line\<close> and the answer read by \<open>of_line\<close>, both \<open>serde_json\<close>.
\<close>

datatype exchange = Stalled | WriteBroke | ReadBroke | ReceivedBytes "byte list"

datatype connection = ConnectRefused | ConnectStalled | Connected "byte list \<Rightarrow> exchange"

definition MAX_ANSWER_BYTES :: nat where "MAX_ANSWER_BYTES = 1024 * 1024"

definition control_request_to ::
  "crates \<Rightarrow> (byte list \<Rightarrow> rstring option) \<Rightarrow> (rstring \<Rightarrow> (u16 list \<times> u16) option)
    \<Rightarrow> ('j control_request \<Rightarrow> rstring option) \<Rightarrow> (rstring \<Rightarrow> 'b control_response option)
    \<Rightarrow> (socket_addr \<Rightarrow> connection) \<Rightarrow> rstring \<Rightarrow> files \<Rightarrow> rstring \<Rightarrow> rstring \<Rightarrow> 'j
    \<Rightarrow> control_error + 'b control_response" where
  "control_request_to l string_of v6 to_line of_line connect dir fs invitation command args =
     (case read_endpoint string_of v6 dir fs of
        Inl e \<Rightarrow> Inl e
      | Inr endpoint \<Rightarrow>
          (case connect endpoint of
             ConnectRefused \<Rightarrow> Inl NotRunning
           | ConnectStalled \<Rightarrow> Inl TimedOut
           | Connected talk \<Rightarrow>
               (let req = \<lparr>cq_token = derive_control_token l invitation, cq_command = command, cq_args = args\<rparr>
                in case to_line req of
                     None \<Rightarrow> Inl RequestFormat
                   | Some line \<Rightarrow>
                       (case talk (utf8 (line @ [10])) of
                          WriteBroke \<Rightarrow> Inl SendFailed
                        | ReadBroke \<Rightarrow> Inl ReceiveFailed
                        | Stalled \<Rightarrow> Inl TimedOut
                        | ReceivedBytes bs \<Rightarrow>
                            (case read_line MAX_ANSWER_BYTES bs of
                               None \<Rightarrow> Inl ReceiveFailed
                             | Some answer \<Rightarrow>
                                 (case of_line answer of None \<Rightarrow> Inl BadAnswer | Some resp \<Rightarrow> Inr resp))))))"

section \<open>Only the holder of the invitation changes the state\<close>

lemma utf8_inj: "valid_string a \<Longrightarrow> valid_string b \<Longrightarrow> utf8 a = utf8 b \<longleftrightarrow> a = b"
  using from_utf8_utf8 by (metis option.inject)

text \<open>A handler that keeps a property of its state.\<close>

locale control_handler =
  fixes handler :: "'j control_request \<Rightarrow> 's \<Rightarrow> 'b control_response \<times> 's"
    and ok :: "'s \<Rightarrow> bool"
  assumes handler_ok: "ok st \<Longrightarrow> ok (snd (handler req st))"
begin

lemma serve_keeps: "ok st \<Longrightarrow> ok (snd (serve_connection l from_json handler expected input st))"
  using handler_ok by (auto simp: serve_connection_def Let_def split: option.split prod.split)
    (metis snd_conv)

lemma event_keeps:
  "ok (sv_state sv) \<and> sv_active sv \<le> 16 \<Longrightarrow>
    ok (sv_state (server_event l from_json handler expected ev sv)) \<and> sv_active (server_event l from_json handler expected ev sv) \<le> 16"
  using serve_keeps[of "sv_state sv"] by (cases ev) (auto simp: server_event_def)

text \<open>After any sequence of connections the property holds, and at most sixteen are in progress.\<close>

lemma run_keeps:
  "ok (sv_state sv) \<and> sv_active sv \<le> 16 \<Longrightarrow>
    ok (sv_state (foldl (\<lambda>sv ev. server_event l from_json handler expected ev sv) sv evs))
    \<and> sv_active (foldl (\<lambda>sv ev. server_event l from_json handler expected ev sv) sv evs) \<le> 16"
  by (induction evs arbitrary: sv) (simp_all add: event_keeps)

end

lemma serve_cases:
  assumes "ct_ok l"
  shows "serve_connection l from_json handler expected input st = (Closed, st)
    \<or> serve_connection l from_json handler expected input st = (Unauthorized, st)
    \<or> (\<exists>line req. read_line (MAX_CONTROL_BYTES + 1) input = Some line \<and> from_json line = Some req
        \<and> utf8 (cq_token req) = utf8 expected
        \<and> serve_connection l from_json handler expected input st
          = (Answer (fst (handler req st)), snd (handler req st)))"
  using assms by (auto simp: serve_connection_def authorized_def ct_ok_def split: option.split prod.split)



section \<open>A request reaches the handler\<close>

lemma high_bytes: "128 \<le> n \<Longrightarrow> n < 256 \<Longrightarrow> (of_nat n :: byte) \<noteq> 10"
proof
  assume n: "128 \<le> n" "n < 256" and "(of_nat n :: byte) = 10"
  then have "unat (of_nat n :: byte) = 10" by simp
  then show False using n by (simp add: unat_of_nat_byte)
qed

lemma newline_char: "scalar c \<Longrightarrow> 10 \<in> set (utf8_char c) \<longleftrightarrow> c = 10"
proof (cases "c < 128")
  case True
  then have "(of_nat c :: byte) = 10 \<longleftrightarrow> c = 10"
    by (simp add: word_unat_eq_iff unat_of_nat_byte)
  then show ?thesis using True by (auto simp: utf8_char_def)
next
  case False
  moreover assume "scalar c"
  moreover have "(of_nat (192 + c div 64) :: byte) \<noteq> 10" if "c < 2048" by (rule high_bytes) (use that in auto)
  moreover have "(of_nat (224 + c div 4096) :: byte) \<noteq> 10" if "c < 65536" by (rule high_bytes) (use that in auto)
  moreover have "(of_nat (240 + c div 262144) :: byte) \<noteq> 10" if "c \<le> 1114111" by (rule high_bytes) (use that in auto)
  moreover have "(of_nat (128 + k mod 64) :: byte) \<noteq> 10" for k
    using mod_less_divisor[of 64 k] by (intro high_bytes) linarith+
  ultimately have "\<forall>b \<in> set (utf8_char c). b \<noteq> 10"
    unfolding utf8_char_def scalar_def by (auto simp del: of_nat_add of_nat_numeral)
  then show ?thesis using False by auto
qed

lemma newline_utf8: "valid_string s \<Longrightarrow> 10 \<in> set (utf8 s) \<longleftrightarrow> 10 \<in> set s"
  by (induction s) (auto simp: utf8_def valid_string_def newline_char)

lemma utf8_snoc: "utf8 (s @ [10]) = utf8 s @ [10]"
  by (simp add: utf8_def utf8_char_def)

lemma read_line_sent:
  assumes "valid_string s" "10 \<notin> set s" "str_len s < limit"
  shows "read_line limit (utf8 (s @ [10])) = Some (s @ [10])"
proof -
  have v: "valid_string (s @ [10])" using assms(1) by (simp add: valid_string_def scalar_def)
  have "take limit (utf8 (s @ [10])) = utf8 s @ [10]"
    using assms(3) by (simp add: utf8_snoc str_len_def)
  moreover have "takeWhile (\<lambda>b. b \<noteq> 10) (utf8 s @ [10]) = utf8 s"
    using newline_utf8[OF assms(1)] assms(2) by (subst takeWhile_append2) auto
  ultimately show ?thesis using from_utf8_utf8[OF v] by (simp add: read_line_def utf8_snoc)
qed

lemma endpoint_tmp: "tmp_path (endpoint_path dir) pid r \<noteq> endpoint_path dir"
proof -
  have n: "ascii ''control.json'' = [99, 111, 110, 116, 114, 111, 108, 46, 106, 115, 111, 110]"
    "ascii ''tmp-'' = [116, 109, 112, 45]"
    by (simp_all add: ascii_def)
  have "file_stem (ascii ''control.json'') = [99, 111, 110, 116, 114, 111, 108]"
    unfolding n by (simp add: file_stem_def)
  then show ?thesis by (simp add: tmp_path_def with_extension_def endpoint_path_def n)
qed

lemma serve_request:
  assumes "ct_ok l" "valid_string s" "10 \<notin> set s" "str_len s < MAX_CONTROL_BYTES" "from_json (s @ [10]) = Some req"
    and "cq_token req = expected"
  shows "serve_connection l from_json handler expected (utf8 (s @ [10])) st = (Answer (fst (handler req st)), snd (handler req st))"
proof -
  have "str_len (s @ [10]) \<le> MAX_CONTROL_BYTES" using assms(4) by (simp add: str_len_def utf8_snoc)
  then show ?thesis
    using read_line_sent[OF assms(2,3), of "MAX_CONTROL_BYTES + 1"] assms(1,4-6)
    by (simp add: serve_connection_def authorized_def ct_ok_def split: prod.split)
qed

lemma started_endpoint:
  assumes "string_of (to_json (show_v4_socket v4_localhost port)) = Some (show_v4_socket v4_localhost port)"
    and "control_start string_of to_json v6 connects (Some port) e dir fs = (states, Inr p)"
  shows "p = port" "read_endpoint string_of v6 dir (last states) = Inr (V4 v4_localhost, port)"
proof -
  let ?bs = "to_json (show_v4_socket v4_localhost port)"
  obtain ss r where w: "private_write e (endpoint_path dir) ?bs fs = (ss, r)"
    by (cases "private_write e (endpoint_path dir) ?bs fs")
  have "states = ss" "r = Inr ()" and p: "p = port"
    using assms(2) w by (auto simp: control_start_def split: if_splits sum.splits)
  then have f: "last states = fs(endpoint_path dir \<mapsto> \<lparr>fi_data = ?bs, fi_mode = 384\<rparr>)"
    using private_write_states(2)[OF endpoint_tmp[where dir = dir], where e = e and fs = fs and bs = ?bs] w by simp
  show "read_endpoint string_of v6 dir (last states) = Inr (V4 v4_localhost, port)"
    using f assms(1) by (simp add: read_endpoint_def parse_socket_addr_def socket_text sock_ip_def v4_localhost_def)
  show "p = port" by (rule p)
qed

text \<open>What a client of the server gets whose address is in the file: the server's line, read back.\<close>

lemma client_reads_answer:
  assumes "read_endpoint string_of v6 dir fs = Inr addr"
    and "to_line \<lparr>cq_token = derive_control_token l invitation, cq_command = command, cq_args = args\<rparr> = Some line"
    and "connect addr = Connected (\<lambda>bs. ReceivedBytes (reply_bytes resp_to denied (fst (serve bs))))"
    and "fst (serve (utf8 (line @ [10]))) = Answer r"
    and "resp_to r = Some t" "valid_string t" "10 \<notin> set t" "str_len t < MAX_ANSWER_BYTES" "of_line (t @ [10]) = Some r"
  shows "control_request_to l string_of v6 to_line of_line connect dir fs invitation command args = Inr r"
  using assms(1-5,9) read_line_sent[OF assms(6-8)]
  by (simp add: control_request_to_def reply_bytes_def)

text \<open>
  C27. A client with the daemon's invitation gets the handler's answer. The server that starts records
  its address; the client finds it there and sends its request, a line of at most 16384 bytes, which
  is the request that the handler receives; the handler's response goes back as a line of at most
  one mebibyte, and the client returns that response. That \<open>serde_json\<close> reads back the address,
  this request and this response, printed without a newline, is assumed, and that the connection
  neither breaks nor stalls. It holds on Unix and on Windows alike.
\<close>

theorem control_roundtrip:
  fixes from_json :: "rstring \<Rightarrow> 'j control_request option"
  assumes "ct_ok l"
    and "string_of (to_json (show_v4_socket v4_localhost port)) = Some (show_v4_socket v4_localhost port)"
    and "control_start string_of to_json v6 connects (Some port) e dir fs = (states, Inr p)"
    and "req = \<lparr>cq_token = derive_control_token l invitation, cq_command = command, cq_args = args\<rparr>"
    and "to_line req = Some line" "valid_string line" "10 \<notin> set line" "str_len line < MAX_CONTROL_BYTES"
    and "from_json (line @ [10]) = Some req"
    and "r = fst (handler req st)"
    and "resp_to r = Some t" "valid_string t" "10 \<notin> set t" "str_len t < MAX_ANSWER_BYTES" "of_line (t @ [10]) = Some r"
  shows "p = port \<and> control_request_to l string_of v6 to_line of_line
      (\<lambda>addr. if addr = (V4 v4_localhost, port)
        then Connected (\<lambda>bs. ReceivedBytes (reply_bytes resp_to denied
               (fst (serve_connection l from_json handler (derive_control_token l invitation) bs st))))
        else ConnectRefused)
      dir (last states) invitation command args = Inr r"
proof -
  note ep = started_endpoint[where string_of = string_of and to_json = to_json, OF assms(2,3)]
  have "fst (serve_connection l from_json handler (derive_control_token l invitation) (utf8 (line @ [10])) st) = Answer r"
    using serve_request[where s = line and from_json = from_json, OF assms(1,6-9), of "derive_control_token l invitation" handler st]
      assms(4,10) by simp
  with ep show ?thesis
    by (intro conjI client_reads_answer[where serve = "\<lambda>bs. serve_connection l from_json handler (derive_control_token l invitation) bs st"
          and line = line and t = t and addr = "(V4 v4_localhost, port)" and resp_to = resp_to and denied = denied])
      (simp_all add: assms(4)[symmetric] assms(5,11-15))
qed

definition demo_control_request :: "unit control_request" where
  "demo_control_request = \<lparr>cq_token = derive_control_token demo_crates [], cq_command = [], cq_args = ()\<rparr>"

definition demo_control_handler :: "unit control_request \<Rightarrow> nat \<Rightarrow> nat control_response \<times> nat" where
  "demo_control_handler q n = (\<lparr>cs_ok = True, cs_body = n\<rparr>, n + 1)"

text \<open>A printer of numbers and its reader.\<close>

definition demo_resp_to :: "nat control_response \<Rightarrow> rstring option" where
  "demo_resp_to r = Some (replicate (cs_body r) 97)"

definition demo_of_line :: "rstring \<Rightarrow> nat control_response option" where
  "demo_of_line s = (if s = [] then None else Some \<lparr>cs_ok = True, cs_body = length s - 1\<rparr>)"

theorem control_roundtrip_witness:
  "\<exists>states. control_start from_utf8 utf8 (\<lambda>s. None) (\<lambda>a. False) (Some 9) demo_write [] (\<lambda>q. None) = (states, Inr 9)
    \<and> control_request_to demo_crates from_utf8 (\<lambda>s. None) (\<lambda>r. Some [97]) demo_of_line
      (\<lambda>addr. if addr = (V4 v4_localhost, 9)
        then Connected (\<lambda>bs. ReceivedBytes (reply_bytes demo_resp_to 0 (fst (serve_connection demo_crates
          (\<lambda>line. Some demo_control_request) demo_control_handler (derive_control_token demo_crates []) bs 1))))
        else ConnectRefused)
      [] (last states) [] [] () = Inr \<lparr>cs_ok = True, cs_body = 1\<rparr>"
proof -
  have "show_v4_socket v4_localhost 9 = [49, 50, 55, 46, 48, 46, 48, 46, 49, 58, 57]"
    by (simp add: show_v4_socket_def show_v4_def v4_localhost_def digits.simps)
  then have addr: "from_utf8 (utf8 (show_v4_socket v4_localhost 9)) = Some (show_v4_socket v4_localhost 9)"
    by (intro from_utf8_utf8) (simp add: valid_string_def scalar_def)
  obtain states where start: "control_start from_utf8 utf8 (\<lambda>s. None) (\<lambda>a. False) (Some 9) demo_write [] (\<lambda>q. None) = (states, Inr 9)"
    by (simp add: control_start_def read_endpoint_def private_write_def write_steps_def demo_write_def Let_def)
  have req: "demo_control_request = \<lparr>cq_token = derive_control_token demo_crates [], cq_command = [], cq_args = ()\<rparr>"
    by (simp add: demo_control_request_def)
  have line: "valid_string [97]" "10 \<notin> set [97 :: nat]" "str_len [97] < MAX_CONTROL_BYTES"
    by (simp_all add: valid_string_def scalar_def len_utf8_def MAX_CONTROL_BYTES_def)
  have resp: "\<lparr>cs_ok = True, cs_body = 1\<rparr> = fst (demo_control_handler demo_control_request 1)"
    "demo_resp_to \<lparr>cs_ok = True, cs_body = 1\<rparr> = Some [97]"
    "valid_string [97]" "10 \<notin> set [97 :: nat]" "str_len [97] < MAX_ANSWER_BYTES"
    "demo_of_line ([97] @ [10]) = Some \<lparr>cs_ok = True, cs_body = 1\<rparr>"
    by (simp_all add: demo_control_handler_def demo_resp_to_def demo_of_line_def valid_string_def scalar_def len_utf8_def
        MAX_ANSWER_BYTES_def)
  from control_roundtrip[where string_of = from_utf8 and to_json = utf8 and to_line = "\<lambda>r. Some [97]" and line = "[97]"
      and from_json = "\<lambda>line. Some demo_control_request" and handler = demo_control_handler and st = 1
      and resp_to = demo_resp_to and t = "[97]" and of_line = demo_of_line and denied = 0,
      OF demo_ct_ok addr start req _ line _ resp] start
  show ?thesis by (intro exI[of _ states]) simp
qed


end
