(* ===== verification/Daemon_Server.thy ===== *)
theory Daemon_Server
  imports Control Playback Receiver_Ok Sender
begin

text \<open>
  \<open>src/src/daemon/mod.rs\<close>, the receiver's side: the start of the daemon, the datagrams of the audio and
  discovery sockets, the periodic feedback and expiry, the control commands and the supervision of
  the playback. Arguments of control commands are JSON values of \<open>serde_json\<close>: the accessors the code
  calls are the record \<open>json\<close>. The reference counted, locked engine and mixer are the state that the
  events of the select loop and of the other threads pass on.
\<close>

section \<open>Arguments of control commands\<close>

record 'j json =
  jo_get :: "'j \<Rightarrow> string \<Rightarrow> 'j option"
  jo_is_null :: "'j \<Rightarrow> bool"
  jo_as_str :: "'j \<Rightarrow> rstring option"
  jo_as_f64 :: "'j \<Rightarrow> flt option"
  jo_as_u64 :: "'j \<Rightarrow> nat option"

datatype command_error = BadGain | UnknownStream | NeedsIndex | IndexNotInteger | IndexTooLarge
  | UnknownCommand | VolumeOnReceiver

definition finite_gain :: "'j json \<Rightarrow> 'j \<Rightarrow> command_error + flt" where
  "finite_gain jo v =
     (case jo_as_f64 jo v of
        None \<Rightarrow> Inl BadGain
      | Some gain \<Rightarrow>
          if is_finite gain \<and> flt_ge gain (Fin 0) \<and> flt_ge (Fin 2) gain then Inr (fcast F32 gain) else Inl BadGain)"

definition non_null :: "'j json \<Rightarrow> 'j option \<Rightarrow> 'j option" where
  "non_null jo v = (case v of None \<Rightarrow> None | Some v \<Rightarrow> if jo_is_null jo v then None else Some v)"

text \<open>The master gain is set before the stream's arguments are looked at.\<close>

definition apply_volume :: "'j json \<Rightarrow> mixer \<Rightarrow> 'j \<Rightarrow> mixer \<times> (command_error + unit)" where
  "apply_volume jo mx args =
     (case (case non_null jo (jo_get jo args ''master'') of
              None \<Rightarrow> Inr mx
            | Some v \<Rightarrow> (case finite_gain jo v of Inl e \<Rightarrow> Inl e | Inr g \<Rightarrow> Inr (set_master_gain mx g))) of
        Inl e \<Rightarrow> (mx, Inl e)
      | Inr mx \<Rightarrow>
          (case Option.bind (jo_get jo args ''stream'') (jo_as_str jo) of
             None \<Rightarrow> (mx, Inr ())
           | Some i \<Rightarrow>
               (case non_null jo (jo_get jo args ''gain'') of
                  None \<Rightarrow> (mx, Inr ())
                | Some v \<Rightarrow>
                    (case finite_gain jo v of
                       Inl e \<Rightarrow> (mx, Inl e)
                     | Inr g \<Rightarrow>
                         (case set_stream_gain mx i g of
                            (known, mx) \<Rightarrow> (mx, if known then Inr () else Inl UnknownStream))))))"

definition device_index :: "'j json \<Rightarrow> 'j \<Rightarrow> command_error + nat option" where
  "device_index jo args =
     (case jo_get jo args ''index'' of
        None \<Rightarrow> Inl NeedsIndex
      | Some v \<Rightarrow>
          if jo_is_null jo v then Inr None
          else (case jo_as_u64 jo v of
                  None \<Rightarrow> Inl IndexNotInteger
                | Some i \<Rightarrow> if u64_max < i then Inl IndexTooLarge else Inr (Some i)))"

section \<open>The receiver's answers\<close>

record playback_report =
  pr_state :: play_state
  pr_device :: rstring
  pr_stats :: play_stats

record stream_status =
  ss_id :: rstring
  ss_name :: rstring
  ss_packets :: nat
  ss_lost :: nat
  ss_underruns :: nat
  ss_starvations :: "nat option"
  ss_jitter_us :: nat
  ss_buffer_ms :: nat
  ss_queued_ms :: "flt option"
  ss_residence_us :: "nat option"

record receiver_status =
  rs_packets_received :: nat
  rs_packets_rejected :: nat
  rs_callbacks :: nat
  rs_underruns :: nat
  rs_master_gain :: flt
  rs_playback :: playback_report
  rs_streams :: "stream_status list"

datatype control_body = Empty | ErrorBody command_error | ReceiverStatus receiver_status | SenderStatus sender_snapshot

record server =
  sr_engine :: receiver
  sr_mixer :: mixer
  sr_device :: "nat option"

definition stat_of :: "stream_stat list \<Rightarrow> rstring \<Rightarrow> stream_stat option" where
  "stat_of stats i = find (\<lambda>s. st_id s = i) stats"

definition stream_status_of :: "stream_stat list \<Rightarrow> peer_report \<Rightarrow> stream_status" where
  "stream_status_of stats rep =
     \<lparr>ss_id = rp_id rep, ss_name = rp_name rep, ss_packets = rp_received rep, ss_lost = rp_lost rep,
      ss_underruns = (case stat_of stats (rp_id rep) of None \<Rightarrow> 0 | Some s \<Rightarrow> st_underruns s),
      ss_starvations = map_option st_starvations (stat_of stats (rp_id rep)),
      ss_jitter_us = rp_jitter_us rep, ss_buffer_ms = rp_buffer_ms rep,
      ss_queued_ms = map_option st_queued_ms (stat_of stats (rp_id rep)),
      ss_residence_us = map_option st_residence_us (stat_of stats (rp_id rep))\<rparr>"

definition receiver_status_of :: "crates \<Rightarrow> playback_report \<Rightarrow> server \<Rightarrow> receiver_status" where
  "receiver_status_of l pb sr =
     (let rc = sr_engine sr; mx = sr_mixer sr; stats = stream_stats mx
      in \<lparr>rs_packets_received = rc_packets_received rc, rs_packets_rejected = rc_packets_rejected rc,
          rs_callbacks = mx_callbacks mx, rs_underruns = sum_list (map st_underruns stats) mod 2 ^ 64,
          rs_master_gain = mx_master_gain mx, rs_playback = pb,
          rs_streams = map (stream_status_of stats) (reports l rc)\<rparr>)"

definition okay :: "control_body \<Rightarrow> control_body control_response" where
  "okay body = \<lparr>cs_ok = True, cs_body = body\<rparr>"

definition failed :: "command_error \<Rightarrow> control_body control_response" where
  "failed e = \<lparr>cs_ok = False, cs_body = ErrorBody e\<rparr>"

definition receiver_control ::
  "crates \<Rightarrow> 'j json \<Rightarrow> playback_report \<Rightarrow> 'j control_request \<Rightarrow> server \<Rightarrow> control_body control_response \<times> server" where
  "receiver_control l jo pb req sr =
     (if cq_command req = ascii ''status'' then (okay (ReceiverStatus (receiver_status_of l pb sr)), sr)
      else if cq_command req = ascii ''volume''
      then (case apply_volume jo (sr_mixer sr) (cq_args req) of
              (mx, Inr _) \<Rightarrow> (okay Empty, sr\<lparr>sr_mixer := mx\<rparr>)
            | (mx, Inl e) \<Rightarrow> (failed e, sr\<lparr>sr_mixer := mx\<rparr>))
      else if cq_command req = ascii ''device''
      then (case device_index jo (cq_args req) of
              Inr idx \<Rightarrow> (okay Empty, sr\<lparr>sr_device := idx\<rparr>)
            | Inl e \<Rightarrow> (failed e, sr))
      else (failed UnknownCommand, sr))"

section \<open>Starting\<close>

datatype start_error = StartFormat "nat \<times> nat \<times> nat" | StartStore crypto_error | NotPaired | BadPairing

text \<open>\<open>loaded\<close> is what \<open>PairingStore::load\<close> returned.\<close>

definition load_invitation :: "crates \<Rightarrow> crypto_error + pairing_config option \<Rightarrow> start_error + rstring" where
  "load_invitation l loaded =
     (case loaded of
        Inl e \<Rightarrow> Inl (StartStore e)
      | Inr None \<Rightarrow> Inl NotPaired
      | Inr (Some cfg) \<Rightarrow>
          (case parse_invitation l (pc_token cfg) of Inl _ \<Rightarrow> Inl BadPairing | Inr _ \<Rightarrow> Inr (pc_token cfg)))"

definition server_start ::
  "crates \<Rightarrow> audio_format \<Rightarrow> crypto_error + pairing_config option \<Rightarrow> store_error + preferences \<Rightarrow> nat option
    \<Rightarrow> byte list \<Rightarrow> start_error + (rstring \<times> server)" where
  "server_start l fmt loaded prefs device ep =
     (case require_wire fmt of
        Inl e \<Rightarrow> Inl (StartFormat e)
      | Inr _ \<Rightarrow>
     (case load_invitation l loaded of
        Inl e \<Rightarrow> Inl e
      | Inr invitation \<Rightarrow>
     (case parse_invitation l invitation of
        Inl e \<Rightarrow> Inl (StartStore e)
      | Inr tok \<Rightarrow>
          (let mx = mixer_new fmt;
               mx = (case prefs of Inl _ \<Rightarrow> mx
                     | Inr p \<Rightarrow> (case pf_master_gain p of None \<Rightarrow> mx | Some g \<Rightarrow> set_master_gain mx g))
           in Inr (invitation, \<lparr>sr_engine = receiver_new tok ep, sr_mixer = mx, sr_device = device\<rparr>)))))"

section \<open>Datagrams\<close>

text \<open>A datagram of the audio socket; the template's epoch is the engine's at that moment.\<close>

definition server_datagram ::
  "crates \<Rightarrow> rstring \<Rightarrow> announce \<Rightarrow> (nat \<Rightarrow> nat) \<Rightarrow> byte list \<Rightarrow> byte list \<Rightarrow> socket_addr \<Rightarrow> server
    \<Rightarrow> server \<times> (socket_addr \<times> byte list) list" where
  "server_datagram l invitation template clk rand buf src sr =
     (if buf = [] \<or> MAX_DATAGRAM < length buf then (sr\<lparr>sr_engine := reject (sr_engine sr)\<rparr>, [])
      else
        (case (if length buf \<le> 512
               then respond_to_query l buf invitation (template\<lparr>an_epoch := rc_epoch (sr_engine sr)\<rparr>) else None) of
           Some packet \<Rightarrow> (sr, [(src, packet)])
         | None \<Rightarrow>
             (case handle_datagram l clk rand (sr_engine sr) (sr_mixer sr) buf src of
                (rc, mx) \<Rightarrow> (sr\<lparr>sr_engine := rc, sr_mixer := mx\<rparr>, []))))"

text \<open>A datagram of one of the discovery ports.\<close>

definition discovery_datagram ::
  "crates \<Rightarrow> rstring \<Rightarrow> announce \<Rightarrow> byte list \<Rightarrow> socket_addr \<Rightarrow> server \<Rightarrow> (socket_addr \<times> byte list) list" where
  "discovery_datagram l invitation template buf src sr =
     (if buf = [] \<or> 512 < length buf then []
      else case respond_to_query l buf invitation (template\<lparr>an_epoch := rc_epoch (sr_engine sr)\<rparr>) of
             Some packet \<Rightarrow> [(src, packet)] | None \<Rightarrow> [])"

section \<open>The daemon's events\<close>

datatype daemon_event =
    SvDatagram "nat \<Rightarrow> nat" "byte list" "byte list" socket_addr
  | SvQuery "byte list" socket_addr
  | SvFeedback nat "byte list \<Rightarrow> nat" "byte list list"
  | SvExpire nat
  | SvControl "byte list"
  | SvPull "nat \<Rightarrow> nat" bool nat "byte list" nat

text \<open>\<open>cfg\<close> holds what the event handlers capture: invitation, template, JSON reader, status.\<close>

record 'j server_config =
  sc_invitation :: rstring
  sc_template :: announce
  sc_from_json :: "rstring \<Rightarrow> 'j control_request option"
  sc_json :: "'j json"
  sc_playback :: playback_report

fun server_step ::
  "crates \<Rightarrow> 'j server_config \<Rightarrow> daemon_event \<Rightarrow> server \<Rightarrow> (server \<times> (socket_addr \<times> byte list) list) option" where
  "server_step l cfg (SvDatagram clk rand buf src) sr =
     Some (server_datagram l (sc_invitation cfg) (sc_template cfg) clk rand buf src sr)"
| "server_step l cfg (SvQuery buf src) sr =
     Some (sr, discovery_datagram l (sc_invitation cfg) (sc_template cfg) buf src sr)"
| "server_step l cfg (SvFeedback now clk order) sr =
     (case feedback_due l now clk order (sr_engine sr) (sr_mixer sr) of
        (rc, mx, packets) \<Rightarrow> Some (sr\<lparr>sr_engine := rc, sr_mixer := mx\<rparr>, packets))"
| "server_step l cfg (SvExpire now) sr =
     (case expire l STREAM_IDLE now (sr_engine sr) (sr_mixer sr) of
        (rc, mx) \<Rightarrow> Some (sr\<lparr>sr_engine := rc, sr_mixer := mx\<rparr>, []))"
| "server_step l cfg (SvControl input) sr =
     Some (snd (serve_connection l (sc_from_json cfg) (receiver_control l (sc_json cfg) (sc_playback cfg))
        (derive_control_token l (sc_invitation cfg)) input sr), [])"
| "server_step l cfg (SvPull clk busy now out n) sr =
     map_option (\<lambda>(mx, _). (sr\<lparr>sr_mixer := mx\<rparr>, [])) (mixer_pull clk busy now (sr_mixer sr) out n)"

fun server_run :: "crates \<Rightarrow> 'j server_config \<Rightarrow> daemon_event list \<Rightarrow> server \<Rightarrow> (server \<times> (socket_addr \<times> byte list) list) option" where
  "server_run l cfg [] sr = Some (sr, [])"
| "server_run l cfg (e # es) sr =
     Option.bind (server_step l cfg e sr) (\<lambda>(sr, out).
       map_option (\<lambda>(sr, outs). (sr, out @ outs)) (server_run l cfg es sr))"

section \<open>Supervision of the playback\<close>

text \<open>
  \<open>supervise_playback\<close>: where the task waits. \<open>SuOpen since\<close> holds a playback opened at that time. An
  event is a change of the chosen device (\<open>False\<close>: its sender is gone) or the end of the sleep, with
  the clock, the mixer's last callback and \<open>mono_ms\<close> read then. \<open>SuOpened\<close> is what happens at the loop
  head, \<open>open_playback\<close> with its outcome and the time; the value of the index it is called with is
  recorded.
\<close>

datatype super_phase = SuHead | SuNull | SuOpen nat | SuRetry | SuEnd

datatype super_event = SuOpened "playback_error + nat" | DeviceChanged bool | SleepOver nat nat nat

record supervisor =
  su_backend :: playback_backend
  su_phase :: super_phase
  su_opened :: "nat option list"

definition callbacks_stalled :: "nat \<Rightarrow> nat \<Rightarrow> bool" where
  "callbacks_stalled last_ms now_ms \<longleftrightarrow> last_ms = 0 \<or> 3000 < now_ms - last_ms"

definition super_step :: "nat option \<Rightarrow> super_event \<Rightarrow> supervisor \<Rightarrow> supervisor" where
  "super_step device ev su =
     (case su_phase su of
        SuHead \<Rightarrow>
          (case ev of
             SuOpened r \<Rightarrow>
               (let su = su\<lparr>su_opened := su_opened su @ [device]\<rparr>
                in case su_backend su of
                     NullBackend \<Rightarrow> su\<lparr>su_phase := SuNull\<rparr>
                   | Cpal \<Rightarrow> (case r of Inr now \<Rightarrow> su\<lparr>su_phase := SuOpen now\<rparr> | Inl _ \<Rightarrow> su\<lparr>su_phase := SuRetry\<rparr>))
           | _ \<Rightarrow> su)
      | SuNull \<Rightarrow>
          (case ev of
             DeviceChanged sent \<Rightarrow> su\<lparr>su_phase := (if sent then SuHead else SuEnd)\<rparr>
           | _ \<Rightarrow> su)
      | SuOpen since \<Rightarrow>
          (case ev of
             DeviceChanged sent \<Rightarrow> if sent then su\<lparr>su_phase := SuHead\<rparr> else su
           | SleepOver now last_ms now_ms \<Rightarrow>
               if 5000 < now - since \<and> callbacks_stalled last_ms now_ms then su\<lparr>su_phase := SuHead\<rparr> else su
           | _ \<Rightarrow> su)
      | SuRetry \<Rightarrow> (case ev of SleepOver now last_ms now_ms \<Rightarrow> su\<lparr>su_phase := SuHead\<rparr> | _ \<Rightarrow> su)
      | SuEnd \<Rightarrow> su)"

section \<open>The control commands keep the server's invariant\<close>

definition server_ok :: "crates \<Rightarrow> server \<Rightarrow> bool" where
  "server_ok l sr \<longleftrightarrow> engine_ok l (sr_engine sr) (sr_mixer sr)"

lemma gain_ids [simp]:
  "stream_ids (set_master_gain mx g) = stream_ids mx"
  "stream_ids (snd (set_stream_gain mx i g)) = stream_ids mx"
  by (simp_all add: stream_ids_def set_master_gain_def set_stream_gain_def update_stream_ids)

lemma apply_volume_ok:
  assumes "mixer_ok mx"
  shows "mixer_ok (fst (apply_volume jo mx args)) \<and> stream_ids (fst (apply_volume jo mx args)) = stream_ids mx"
proof -
  have m: "mixer_ok (set_master_gain mx g)" for g using assms by (rule mixer_ops_ok)
  have st: "set_stream_gain m i g = (b, m') \<Longrightarrow> mixer_ok m \<Longrightarrow> mixer_ok m' \<and> stream_ids m' = stream_ids m" for m i g b m'
    using mixer_ops_ok(4)[of m i g] gain_ids(2)[of m i g] by simp
  show ?thesis using assms m
    by (auto simp: apply_volume_def split: option.splits sum.splits prod.splits dest!: st)
qed

lemma engine_ok_mixer:
  "engine_ok l rc mx \<Longrightarrow> mixer_ok mx' \<Longrightarrow> stream_ids mx' = stream_ids mx \<Longrightarrow> engine_ok l rc mx'"
  by (simp add: engine_ok_def linked_def)

interpretation rcc: control_handler "receiver_control l jo pb" "server_ok l" for l and jo :: "'j json" and pb
proof
  fix sr and req :: "'j control_request"
  assume ok: "server_ok l sr"
  then have "mixer_ok (sr_mixer sr)" by (simp add: server_ok_def engine_ok_def)
  note vol_ok = apply_volume_ok[OF this, of jo "cq_args req"]
  have vol: "server_ok l (sr\<lparr>sr_mixer := mx\<rparr>)" if "apply_volume jo (sr_mixer sr) (cq_args req) = (mx, r)" for mx r
    using engine_ok_mixer[of l "sr_engine sr" "sr_mixer sr" mx] vol_ok[unfolded that] ok by (simp add: server_ok_def)
  have "server_ok l (sr\<lparr>sr_device := d\<rparr>)" for d using ok by (simp add: server_ok_def)
  with ok vol show "server_ok l (snd (receiver_control l jo pb req sr))"
    by (auto simp: receiver_control_def split: prod.splits sum.splits)
qed

section \<open>Every run of the daemon keeps it\<close>

fun event_valid :: "daemon_event \<Rightarrow> bool" where
  "event_valid (SvDatagram clk rand buf src) \<longleftrightarrow> length rand = 16"
| "event_valid _ \<longleftrightarrow> True"

lemma server_datagram_ok:
  assumes "server_ok l sr" "length rand = 16"
  shows "server_ok l (fst (server_datagram l invt tmpl clk rand buf src sr))"
proof -
  obtain rc mx where h: "handle_datagram l clk rand (sr_engine sr) (sr_mixer sr) buf src = (rc, mx)"
    by (cases "handle_datagram l clk rand (sr_engine sr) (sr_mixer sr) buf src")
  with handle_datagram_ok[of l "sr_engine sr" "sr_mixer sr" rand clk buf src] assms have "engine_ok l rc mx"
    by (simp add: server_ok_def)
  then show ?thesis using assms(1) h by (auto simp: server_datagram_def server_ok_def split: option.split)
qed

lemma pull_ids:
  assumes "mixer_ok mx" "mixer_pull clk busy now mx out n = Some (mx', out')"
  shows "mixer_ok mx' \<and> stream_ids mx' = stream_ids mx"
  using outside_ids[OF assms(1), of "MPull clk busy now out n" mx'] mixer_pull_ok[OF assms(1), of clk busy now out n] assms(2)
  by simp

lemma server_step_ok:
  assumes ok: "server_ok l sr" and ev: "event_valid ev"
  shows "\<exists>sr' out. server_step l cfg ev sr = Some (sr', out) \<and> server_ok l sr'"
proof (cases ev)
  case (SvDatagram clk rand buf src)
  then show ?thesis
    using server_datagram_ok[OF ok, of rand "sc_invitation cfg" "sc_template cfg" clk buf src] ev
    by (cases "server_datagram l (sc_invitation cfg) (sc_template cfg) clk rand buf src sr") auto
next
  case (SvQuery buf src)
  then show ?thesis using ok by simp
next
  case (SvFeedback now clk order)
  then show ?thesis using feedback_due_ok[of l "sr_engine sr" "sr_mixer sr" now clk order] ok
    by (cases "feedback_due l now clk order (sr_engine sr) (sr_mixer sr)") (auto simp: server_ok_def)
next
  case (SvExpire now)
  then show ?thesis using expire_ok[of l "sr_engine sr" "sr_mixer sr" STREAM_IDLE now] ok
    by (cases "expire l STREAM_IDLE now (sr_engine sr) (sr_mixer sr)") (auto simp: server_ok_def)
next
  case (SvControl input)
  then show ?thesis using rcc.serve_keeps[OF ok] by simp
next
  case (SvPull clk busy now out n)
  have mx: "mixer_ok (sr_mixer sr)" using ok by (simp add: server_ok_def engine_ok_def)
  obtain mx' out' where "mixer_pull clk busy now (sr_mixer sr) out n = Some (mx', out')"
    using mixer_pull_ok[OF mx] by blast
  with pull_ids[OF mx this] SvPull ok engine_ok_mixer[of l "sr_engine sr" "sr_mixer sr" mx'] show ?thesis
    by (simp add: server_ok_def)
qed

lemma server_run_ok:
  "server_ok l sr \<Longrightarrow> list_all event_valid es \<Longrightarrow> \<exists>sr' out. server_run l cfg es sr = Some (sr', out) \<and> server_ok l sr'"
proof (induction es arbitrary: sr)
  case Nil
  then show ?case by simp
next
  case (Cons e es)
  then obtain sr1 out where "server_step l cfg e sr = Some (sr1, out)" "server_ok l sr1"
    using server_step_ok[OF Cons.prems(1), of e cfg] by auto
  with Cons.IH[of sr1] Cons.prems(2) show ?case by fastforce
qed

lemma server_start_ok:
  assumes "server_start l fmt loaded prefs device ep = Inr (invt, sr)" "length ep = 16"
  shows "server_ok l sr \<and> rc_cap (sr_engine sr) = MAX_SESSION_HISTORY \<and> parse_invitation l invt = Inr (rc_token (sr_engine sr))"
proof -
  have "engine_ok l (receiver_new tok ep) (mixer_new fmt)" for tok
    using engine_ok_new[OF assms(2)] by (simp add: receiver_new_def)
  then have e: "engine_ok l (receiver_new tok ep) (set_master_gain (mixer_new fmt) g)"
    "engine_ok l (receiver_new tok ep) (mixer_new fmt)" for tok g
    using engine_ok_mixer[of l "receiver_new tok ep" "mixer_new fmt" "set_master_gain (mixer_new fmt) g"]
      mixer_ops_ok(1)[OF mixer_new_ok, of fmt g] by simp_all
  have c: "rc_cap (receiver_new tok ep) = MAX_SESSION_HISTORY" "rc_token (receiver_new tok ep) = tok" for tok
    by (simp_all add: receiver_new_def with_history_cap_def)
  show ?thesis using assms(1) e c
    by (auto simp: server_start_def server_ok_def Let_def split: sum.splits option.splits)
qed

text \<open>The token and the cap of the engine never change.\<close>

definition ident :: "receiver \<Rightarrow> byte list \<times> nat" where
  "ident rc = (rc_token rc, rc_cap rc)"

lemma ident_simps [simp]:
  "ident (reject rc) = ident rc" "ident (accept rc) = ident rc" "ident (rc\<lparr>rc_peers := ps\<rparr>) = ident rc"
  "ident (fst (rotate_epoch rand rc mx)) = ident rc"
  by (simp_all add: ident_def reject_def accept_def rotate_epoch_def)

lemma ident_apply [simp]:
  "ident (fst (apply_audio l clk sess body rc mx)) = ident rc"
  "ident (fst (apply_probe l clk sess body rc mx)) = ident rc"
  by (auto simp: apply_audio_def apply_probe_def Let_def split: option.split prod.split)

lemma ident_dispatch [simp]: "ident (fst (dispatch l clk op rc mx)) = ident rc"
  by (auto simp: dispatch_def Let_def split: option.split)

lemma ident_known [simp]: "ident (fst (handle_known l clk op src rc mx)) = ident rc"
  by (auto simp: handle_known_def Let_def split: option.split prod.split)

lemma ident_admit [simp]: "ident (fst (admit l clk rand keys op src rc mx)) = ident rc"
  by (auto simp: admit_def Let_def rotate_epoch_def ident_def reject_def accept_def
      split: option.split prod.split sum.split)

lemma ident_datagram [simp]: "ident (fst (handle_datagram l clk rand rc mx pkt src)) = ident rc"
  by (auto simp: handle_datagram_def Let_def split: option.split)

lemma ident_feedback [simp]: "ident (fst (feedback_due l now clk order rc mx)) = ident rc"
proof (induction order arbitrary: rc mx)
  case Nil
  then show ?case by simp
next
  case (Cons s order)
  have "ident (fst (feedback_one l now (clk s) s rc mx)) = ident rc"
    by (auto simp: feedback_one_def Let_def split: option.split)
  then show ?case using Cons.IH by (simp add: Let_def case_prod_beta)
qed

lemma ident_expire [simp]: "ident (fst (expire l idle now rc mx)) = ident rc"
  by (simp add: expire_def Let_def case_prod_beta)

lemma control_engine: "sr_engine (snd (receiver_control l jo pb req sr)) = sr_engine sr"
  by (auto simp: receiver_control_def split: prod.split sum.split)

lemma serve_engine:
  "sr_engine (snd (serve_connection l from_json (receiver_control l jo pb) expected input sr)) = sr_engine sr"
  by (auto simp: serve_connection_def control_engine case_prod_beta split: option.split)

lemma server_step_ident:
  assumes "server_step l cfg ev sr = Some (sr', out)"
  shows "ident (sr_engine sr') = ident (sr_engine sr)"
proof (cases ev)
  case (SvDatagram clk rand buf src)
  have "ident (sr_engine (fst (server_datagram l a b clk rand buf src sr))) = ident (sr_engine sr)" for a b
    by (auto simp: server_datagram_def case_prod_beta split: option.split)
  with assms SvDatagram show ?thesis by (metis fst_conv option.inject server_step.simps(1))
next
  case (SvFeedback now clk order)
  then show ?thesis using assms ident_feedback[of l now clk order "sr_engine sr" "sr_mixer sr"]
    by (cases "feedback_due l now clk order (sr_engine sr) (sr_mixer sr)") auto
next
  case (SvExpire now)
  then show ?thesis using assms ident_expire[of l STREAM_IDLE now "sr_engine sr" "sr_mixer sr"]
    by (cases "expire l STREAM_IDLE now (sr_engine sr) (sr_mixer sr)") auto
qed (use assms in \<open>auto simp: serve_engine\<close>)

lemma server_run_ident: "server_run l cfg es sr = Some (sr', out) \<Longrightarrow> ident (sr_engine sr') = ident (sr_engine sr)"
proof (induction es arbitrary: sr out)
  case Nil
  then show ?case by simp
next
  case (Cons e es)
  then obtain sr1 o1 o2 where "server_step l cfg e sr = Some (sr1, o1)" "server_run l cfg es sr1 = Some (sr', o2)"
    by (auto simp: bind_eq_Some_conv)
  then show ?case using Cons.IH server_step_ident by metis
qed

text \<open>
  C9. The receiving daemon. Once it has started, whatever datagrams, discovery queries, control
  connections, feedback and expiry ticks and audio callbacks come in whatever order, every one is
  served; the daemon keeps the token of the invitation it was started with, remembers at most 4096
  sessions, each under keys derived from that token, mixes at most eight streams of distinct names,
  each belonging to an active session, and no gain leaves [0, 2].
\<close>

theorem server_reachable_ok:
  assumes "server_start l fmt loaded prefs device ep = Inr (invt, sr)" and "length ep = 16"
    and "list_all event_valid es"
  shows "\<exists>sr' out. server_run l cfg es sr = Some (sr', out)
    \<and> parse_invitation l invt = Inr (rc_token (sr_engine sr'))
    \<and> history_len (sr_engine sr') \<le> 4096
    \<and> (\<forall>(sess, p) \<in> set (rc_peers (sr_engine sr')).
         pe_keys p = derive l (rc_token (sr_engine sr')) (rc_epoch (sr_engine sr')) sess)
    \<and> length (mx_streams (sr_mixer sr')) \<le> 8 \<and> distinct (stream_ids (sr_mixer sr'))
    \<and> linked l (sr_engine sr') (sr_mixer sr')
    \<and> gain_ok (mx_master_gain (sr_mixer sr')) \<and> list_all (\<lambda>s. gain_ok (ms_gain s)) (mx_streams (sr_mixer sr'))"
proof -
  have st: "server_ok l sr" "rc_cap (sr_engine sr) = MAX_SESSION_HISTORY"
    "parse_invitation l invt = Inr (rc_token (sr_engine sr))"
    using server_start_ok[OF assms(1,2)] by simp_all
  obtain sr' out where run: "server_run l cfg es sr = Some (sr', out)" and ok: "server_ok l sr'"
    using server_run_ok[OF st(1) assms(3)] by blast
  from server_run_ident[OF run] have id: "rc_token (sr_engine sr') = rc_token (sr_engine sr)"
    "rc_cap (sr_engine sr') = MAX_SESSION_HISTORY" using st(2) by (simp_all add: ident_def)
  from ok have mx: "mixer_ok (sr_mixer sr')" and rc: "receiver_ok l (sr_engine sr')" and lk: "linked l (sr_engine sr') (sr_mixer sr')"
    by (simp_all add: server_ok_def engine_ok_def)
  have "history_len (sr_engine sr') \<le> 4096" using rc id(2) by (simp add: receiver_ok_def history_len_def MAX_SESSION_HISTORY_def)
  moreover have "list_all (\<lambda>s. gain_ok (ms_gain s)) (mx_streams (sr_mixer sr'))"
    using mx by (auto simp: mixer_ok_def list_all_iff stream_ok_def)
  moreover have "length (mx_streams (sr_mixer sr')) \<le> 8" "distinct (stream_ids (sr_mixer sr'))"
    "gain_ok (mx_master_gain (sr_mixer sr'))" using mx by (simp_all add: mixer_ok_def MAX_STREAMS_def)
  moreover have "\<forall>(sess, p) \<in> set (rc_peers (sr_engine sr')).
      pe_keys p = derive l (rc_token (sr_engine sr')) (rc_epoch (sr_engine sr')) sess"
    using rc by (auto simp: receiver_ok_def peer_ok_def)
  ultimately show ?thesis using run id(1) st(3) lk by auto
qed

section \<open>Datagrams reach the engine or the discovery, never both\<close>

lemma magics_differ: "DISCOVERY_MAGIC \<noteq> MAGIC"
  by (simp add: DISCOVERY_MAGIC_def MAGIC_def bytes_of_def)

lemma discovery_not_packet:
  assumes "open_discovery l buf tok = Some r"
  shows "parse_packet buf = None" "buf \<noteq> []" "length buf \<le> 512"
proof -
  have "get_range buf 0 4 = Some DISCOVERY_MAGIC" "38 \<le> length buf" "length buf \<le> 512"
    using assms by (auto simp: open_discovery_def discovery_consts bind_eq_Some_conv split: if_splits)
  then show "buf \<noteq> []" "length buf \<le> 512" "parse_packet buf = None" using magics_differ
    by (auto simp: parse_packet_def bind_eq_None_conv)
qed

lemma answered_query:
  "respond_to_query l buf tok an = Some pkt \<Longrightarrow> \<exists>r. open_discovery l buf tok = Some r"
  by (auto simp: respond_to_query_def open_query_def bind_eq_Some_conv)

lemma query_answer:
  assumes "hash_ok l" "ct_ok l" and "parse_invitation l invt = Inr raw" and "length ch = 16"
    and "valid_string n" and "announce_ok (template\<lparr>an_epoch := rc_epoch (sr_engine sr)\<rparr>)"
    and "clip_name n = [] \<or> clip_name n = an_name template"
  shows "\<exists>q pkt. encode_query l ch n invt = Inr q
    \<and> respond_to_query l (sq_bytes q) invt (template\<lparr>an_epoch := rc_epoch (sr_engine sr)\<rparr>) = Some pkt
    \<and> open_announce l pkt invt (sq_challenge q)
        = Some (template\<lparr>an_epoch := rc_epoch (sr_engine sr), an_name := clip_name (an_name template)\<rparr>)"
  using handshake[OF assms(1-6)] assms(7) by (auto simp: bind_eq_Some_conv)

text \<open>
  C18. One port for audio and discovery. A datagram in the packet format always reaches the engine,
  and the daemon answers nothing to it; a query of a holder of the token, on the audio port or a
  discovery port, is answered to its source with the announcement that carries the epoch the engine
  has at that moment, also after the epoch has rotated, and leaves the engine and the mixer alone.
\<close>

theorem datagrams_routed:
  assumes "hash_ok l" and "ct_ok l" and "parse_invitation l invt = Inr raw" and "length ch = 16"
    and "valid_string n" and "announce_ok (template\<lparr>an_epoch := rc_epoch (sr_engine sr)\<rparr>)"
    and "clip_name n = [] \<or> clip_name n = an_name template"
    and "parse_packet buf = Some view"
  shows "server_datagram l invt template clk rand buf src sr
      = (case handle_datagram l clk rand (sr_engine sr) (sr_mixer sr) buf src of
           (rc, mx) \<Rightarrow> (sr\<lparr>sr_engine := rc, sr_mixer := mx\<rparr>, []))
    \<and> (\<exists>q pkt. encode_query l ch n invt = Inr q
        \<and> server_datagram l invt template clk rand (sq_bytes q) src sr = (sr, [(src, pkt)])
        \<and> discovery_datagram l invt template (sq_bytes q) src sr = [(src, pkt)]
        \<and> open_announce l pkt invt (sq_challenge q)
            = Some (template\<lparr>an_epoch := rc_epoch (sr_engine sr), an_name := clip_name (an_name template)\<rparr>))"
proof -
  have len: "buf \<noteq> []" "length buf \<le> MAX_DATAGRAM" using assms(8)
    by (auto simp: parse_packet_def HEADER_LEN_def split: if_splits)
  have "respond_to_query l buf invt an = None" for an
  proof (cases "respond_to_query l buf invt an")
    case (Some pkt)
    from answered_query[OF this] discovery_not_packet(1) assms(8) show ?thesis by fastforce
  qed
  then have 1: "server_datagram l invt template clk rand buf src sr
      = (case handle_datagram l clk rand (sr_engine sr) (sr_mixer sr) buf src of
           (rc, mx) \<Rightarrow> (sr\<lparr>sr_engine := rc, sr_mixer := mx\<rparr>, []))"
    using len by (simp add: server_datagram_def)
  obtain q pkt where q: "encode_query l ch n invt = Inr q"
    "respond_to_query l (sq_bytes q) invt (template\<lparr>an_epoch := rc_epoch (sr_engine sr)\<rparr>) = Some pkt"
    "open_announce l pkt invt (sq_challenge q)
        = Some (template\<lparr>an_epoch := rc_epoch (sr_engine sr), an_name := clip_name (an_name template)\<rparr>)"
    using query_answer[OF assms(1-7)] by blast
  from answered_query[OF q(2)] discovery_not_packet have "sq_bytes q \<noteq> []" "length (sq_bytes q) \<le> 512" by fastforce+
  then have "server_datagram l invt template clk rand (sq_bytes q) src sr = (sr, [(src, pkt)])"
    "discovery_datagram l invt template (sq_bytes q) src sr = [(src, pkt)]"
    using q(2) by (simp_all add: server_datagram_def discovery_datagram_def MAX_DATAGRAM_def)
  with 1 q(1,3) show ?thesis by blast
qed

section \<open>The volume command\<close>

lemma gain_value:
  assumes "finite_gain jo v = Inr g"
  obtains r where "jo_as_f64 jo v = Some (Fin r)" "0 \<le> r" "r \<le> 2" "g = Fin (rnd F32 r)" "0 \<le> rnd F32 r" "rnd F32 r \<le> 2"
proof -
  from assms obtain r where r: "jo_as_f64 jo v = Some (Fin r)" "0 \<le> r" "r \<le> 2" "g = fl F32 r"
    by (auto simp: finite_gain_def flt_ge_def split: option.splits if_splits elim!: is_finite.elims)
  have rep: "representable F32 0" "representable F32 2"
    using representable_int[of 0 F32] representable_int[of 2 F32] by simp_all
  have "fl F32 r = Fin (rnd F32 r)" "0 \<le> rnd F32 r" "rnd F32 r \<le> 2"
    using fl_between[of F32 0 2 r] rep r(2,3) by (simp_all add: pow2_numeral)
  with r that show thesis by simp
qed

text \<open>A gain of a command: absent (or null), refused, or a number in [0, 2].\<close>

datatype gain_arg = Absent | Refused | Gain rat

definition gain_arg :: "'j json \<Rightarrow> 'j \<Rightarrow> string \<Rightarrow> gain_arg" where
  "gain_arg jo args key =
     (case non_null jo (jo_get jo args key) of
        None \<Rightarrow> Absent
      | Some v \<Rightarrow> (case jo_as_f64 jo v of
                     Some (Fin r) \<Rightarrow> if 0 \<le> r \<and> r \<le> 2 then Gain r else Refused
                   | _ \<Rightarrow> Refused))"

lemma gain_arg_Absent: "gain_arg jo args key = Absent \<Longrightarrow> non_null jo (jo_get jo args key) = None"
  by (cases "non_null jo (jo_get jo args key)") (auto simp: gain_arg_def split: option.splits flt.splits if_splits)

lemma gain_arg_Refused:
  "gain_arg jo args key = Refused \<Longrightarrow> \<exists>v. non_null jo (jo_get jo args key) = Some v \<and> finite_gain jo v = Inl BadGain"
  by (cases "non_null jo (jo_get jo args key)")
    (auto simp: gain_arg_def finite_gain_def flt_ge_def split: option.splits flt.splits if_splits)

lemma gain_arg_Gain:
  "gain_arg jo args key = Gain r \<Longrightarrow>
    \<exists>v. non_null jo (jo_get jo args key) = Some v \<and> jo_as_f64 jo v = Some (Fin r) \<and> 0 \<le> r \<and> r \<le> 2"
  by (cases "non_null jo (jo_get jo args key)") (auto simp: gain_arg_def split: option.splits flt.splits if_splits)

lemma gain_arg_value:
  assumes "gain_arg jo args key = Gain r"
  shows "\<exists>v. non_null jo (jo_get jo args key) = Some v \<and> finite_gain jo v = Inr (Fin (rnd F32 r))
    \<and> flt_clamp (Fin 0) (Fin 2) (Fin (rnd F32 r)) = Fin (rnd F32 r)"
proof -
  obtain v where v: "non_null jo (jo_get jo args key) = Some v" "jo_as_f64 jo v = Some (Fin r)" "0 \<le> r" "r \<le> 2"
    using gain_arg_Gain[OF assms] by blast
  then have "finite_gain jo v = Inr (fl F32 r)" by (simp add: finite_gain_def flt_ge_def)
  with gain_value[OF this] v(2) obtain "fl F32 r = Fin (rnd F32 r)" "0 \<le> rnd F32 r" "rnd F32 r \<le> 2" by auto
  with v \<open>finite_gain jo v = Inr (fl F32 r)\<close> show ?thesis by (simp add: flt_clamp_def)
qed

lemma update_stream_absent: "i \<notin> set (map ms_id ss) \<Longrightarrow> update_stream i f ss = ss"
  by (induction ss) auto

text \<open>The stream's part, for a name.\<close>

definition volume_of_stream :: "'j json \<Rightarrow> 'j \<Rightarrow> rstring \<Rightarrow> mixer \<Rightarrow> mixer \<times> (command_error + unit)" where
  "volume_of_stream jo args i mx =
     (case gain_arg jo args ''gain'' of
        Absent \<Rightarrow> (mx, Inr ())
      | Refused \<Rightarrow> (mx, Inl BadGain)
      | Gain r \<Rightarrow>
          if i \<in> set (stream_ids mx)
          then (mx\<lparr>mx_streams := update_stream i (\<lambda>s. s\<lparr>ms_gain := Fin (rnd F32 r)\<rparr>) (mx_streams mx)\<rparr>, Inr ())
          else (mx, Inl UnknownStream))"

lemma volume_stream_part:
  "(case non_null jo (jo_get jo args ''gain'') of
      None \<Rightarrow> (mx, Inr ())
    | Some v \<Rightarrow>
        (case finite_gain jo v of
           Inl e \<Rightarrow> (mx, Inl e)
         | Inr g \<Rightarrow>
             (case set_stream_gain mx i g of
                (known, mx) \<Rightarrow> (mx, if known then Inr () else Inl UnknownStream))))
   = volume_of_stream jo args i mx"
proof (cases "gain_arg jo args ''gain''")
  case Absent
  with gain_arg_Absent[OF this] show ?thesis by (simp add: volume_of_stream_def)
next
  case Refused
  obtain v where "non_null jo (jo_get jo args ''gain'') = Some v" "finite_gain jo v = Inl BadGain"
    using gain_arg_Refused[OF Refused] by blast
  then show ?thesis using Refused by (simp add: volume_of_stream_def)
next
  case (Gain r)
  with gain_arg_value[OF this] obtain v where v: "non_null jo (jo_get jo args ''gain'') = Some v"
    "finite_gain jo v = Inr (Fin (rnd F32 r))" "flt_clamp (Fin 0) (Fin 2) (Fin (rnd F32 r)) = Fin (rnd F32 r)" by blast
  let ?f = "\<lambda>s. s\<lparr>ms_gain := Fin (rnd F32 r)\<rparr>"
  have set: "set_stream_gain mx i (Fin (rnd F32 r))
      = (find_stream i (mx_streams mx) \<noteq> None, mx\<lparr>mx_streams := update_stream i ?f (mx_streams mx)\<rparr>)"
    unfolding set_stream_gain_def v(3) by simp
  show ?thesis
  proof (cases "i \<in> set (stream_ids mx)")
    case True
    then have "find_stream i (mx_streams mx) \<noteq> None" using find_stream_None by (simp add: stream_ids_def)
    with True show ?thesis unfolding volume_of_stream_def Gain v(1) option.case v(2) sum.case set by simp
  next
    case False
    then have "find_stream i (mx_streams mx) = None" "update_stream i ?f (mx_streams mx) = mx_streams mx"
      using find_stream_None update_stream_absent by (simp_all add: stream_ids_def)
    with False show ?thesis unfolding volume_of_stream_def Gain v(1) option.case v(2) sum.case set by simp
  qed
qed

lemma apply_volume_parts:
  "apply_volume jo mx args =
     (case (case non_null jo (jo_get jo args ''master'') of
              None \<Rightarrow> Inr mx
            | Some v \<Rightarrow> (case finite_gain jo v of Inl e \<Rightarrow> Inl e | Inr g \<Rightarrow> Inr (set_master_gain mx g))) of
        Inl e \<Rightarrow> (mx, Inl e)
      | Inr mx \<Rightarrow>
          (case Option.bind (jo_get jo args ''stream'') (jo_as_str jo) of
             None \<Rightarrow> (mx, Inr ())
           | Some i \<Rightarrow> volume_of_stream jo args i mx))"
  unfolding apply_volume_def volume_stream_part ..

text \<open>
  C30. The volume command, on every branch: the gains that are numbers in [0, 2] are set as they are
  (rounded to \<open>f32\<close>), any other value is refused, a stream that does not exist is an error; but the
  master gain of a command whose stream part fails stays set.
\<close>

theorem volume_command:
  "apply_volume jo mx args =
     (if gain_arg jo args ''master'' = Refused then (mx, Inl BadGain)
      else
        (let mx = (case gain_arg jo args ''master'' of Gain r \<Rightarrow> mx\<lparr>mx_master_gain := Fin (rnd F32 r)\<rparr> | _ \<Rightarrow> mx)
         in case Option.bind (jo_get jo args ''stream'') (jo_as_str jo) of
              None \<Rightarrow> (mx, Inr ())
            | Some i \<Rightarrow> volume_of_stream jo args i mx))"
proof (cases "gain_arg jo args ''master''")
  case Absent
  show ?thesis unfolding apply_volume_parts gain_arg_Absent[OF Absent] Absent by simp
next
  case Refused
  obtain v where v: "non_null jo (jo_get jo args ''master'') = Some v" "finite_gain jo v = Inl BadGain"
    using gain_arg_Refused[OF Refused] by blast
  show ?thesis unfolding apply_volume_parts v(1) option.case v(2) Refused by simp
next
  case (Gain r)
  with gain_arg_value[OF this] obtain v where v: "non_null jo (jo_get jo args ''master'') = Some v"
    "finite_gain jo v = Inr (Fin (rnd F32 r))" "flt_clamp (Fin 0) (Fin 2) (Fin (rnd F32 r)) = Fin (rnd F32 r)" by blast
  have "set_master_gain mx (Fin (rnd F32 r)) = mx\<lparr>mx_master_gain := Fin (rnd F32 r)\<rparr>"
    unfolding set_master_gain_def v(3) by simp
  then show ?thesis unfolding apply_volume_parts v(1) option.case v(2) Gain by (simp add: Let_def)
qed

section \<open>The supervision of the playback\<close>

definition super_run :: "nat option \<Rightarrow> super_event list \<Rightarrow> supervisor \<Rightarrow> supervisor" where
  "super_run device es su = foldl (\<lambda>su e. super_step device e su) su es"

text \<open>A sleep ends while the callbacks run: the last one was not more than three seconds ago.\<close>

definition healthy :: "super_event \<Rightarrow> bool" where
  "healthy ev \<longleftrightarrow> (case ev of
     SuOpened r \<Rightarrow> True | DeviceChanged sent \<Rightarrow> \<not> sent
   | SleepOver now last_ms now_ms \<Rightarrow> last_ms \<noteq> 0 \<and> now_ms - last_ms \<le> 3000)"

lemma healthy_stays: "list_all healthy es \<Longrightarrow> su_phase su = SuOpen since \<Longrightarrow> super_run device es su = su"
  by (induction es)
    (auto simp: super_run_def super_step_def healthy_def callbacks_stalled_def split: super_event.splits)

text \<open>
  The playback that the supervisor opened is kept as long as its callbacks come and no other
  device is chosen; it is opened again, with the device chosen by then, after a change of the device,
  or at the first tick, more than five seconds after the opening, that finds no callback within three
  seconds. A failed opening is tried again.
\<close>

theorem stalled_output_reopened:
  assumes "su_backend su = Cpal" and "su_phase su = SuHead" and "list_all healthy es"
    and "ev = DeviceChanged True \<or> (\<exists>now last_ms now_ms. ev = SleepOver now last_ms now_ms
      \<and> since + 5000 < now \<and> (last_ms = 0 \<or> last_ms + 3000 < now_ms))"
  shows "super_run device (SuOpened (Inr since) # es) su
      = su\<lparr>su_phase := SuOpen since, su_opened := su_opened su @ [device]\<rparr>
    \<and> super_run device' [SuOpened (Inr again)] (super_run device (SuOpened (Inr since) # es @ [ev]) su)
      = su\<lparr>su_phase := SuOpen again, su_opened := su_opened su @ [device, device']\<rparr>
    \<and> super_run device' [SleepOver now last_ms now_ms, SuOpened (Inr again)] (super_run device [SuOpened (Inl e)] su)
      = su\<lparr>su_phase := SuOpen again, su_opened := su_opened su @ [device, device']\<rparr>"
proof -
  let ?open = "su\<lparr>su_phase := SuOpen since, su_opened := su_opened su @ [device]\<rparr>"
  have h: "super_step device (SuOpened (Inr since)) su = ?open"
    using assms(1,2) by (simp add: super_step_def)
  have keep: "super_run device es ?open = ?open" by (rule healthy_stays[OF assms(3)]) simp
  have "super_step device ev ?open = ?open\<lparr>su_phase := SuHead\<rparr>"
    using assms(4) by (auto simp: super_step_def callbacks_stalled_def)
  with h keep assms(1,2) show ?thesis by (simp add: super_run_def) (simp add: super_step_def)
qed

theorem stalled_output_reopened_witness:
  "super_run None [SuOpened (Inr 7)] (super_run (Some 2) (SuOpened (Inr 0) # [] @ [SleepOver 6000 1000 6000])
     \<lparr>su_backend = Cpal, su_phase = SuHead, su_opened = []\<rparr>)
   = \<lparr>su_backend = Cpal, su_phase = SuOpen 7, su_opened = [Some 2, None]\<rparr>"
  using stalled_output_reopened[of "\<lparr>su_backend = Cpal, su_phase = SuHead, su_opened = []\<rparr>" "[]" "SleepOver 6000 1000 6000" 0 "Some 2" None 7]
  by (simp del: append.simps)

text \<open>A command that is refused may have changed the mixer.\<close>

theorem refused_volume_changes_master:
  "\<exists>(jo :: nat json) args. apply_volume jo (mixer_new canonical) args
      = ((mixer_new canonical)\<lparr>mx_master_gain := Fin 2\<rparr>, Inl UnknownStream)"
proof -
  let ?jo = "\<lparr>jo_get = (\<lambda>_ key. if key = ''stream'' then Some 0 else Some 2), jo_is_null = (\<lambda>_. False),
    jo_as_str = (\<lambda>_. Some [97]), jo_as_f64 = (\<lambda>_. Some (Fin 2)), jo_as_u64 = (\<lambda>_. None)\<rparr> :: nat json"
  have "fl F32 2 = Fin 2"
    using fl_exact[of F32 2] representable_int[of 2 F32] by (simp add: pow2_numeral)
  then have "apply_volume ?jo (mixer_new canonical) 0
      = ((mixer_new canonical)\<lparr>mx_master_gain := Fin 2\<rparr>, Inl UnknownStream)"
    by (simp add: apply_volume_def non_null_def finite_gain_def flt_ge_def set_master_gain_def set_stream_gain_def
        flt_clamp_def find_stream_def mixer_new_def Let_def)
  then show ?thesis by blast
qed

section \<open>A daemon at work\<close>

definition demo_loaded :: "crypto_error + pairing_config option" where
  "demo_loaded = Inr (Some \<lparr>pc_token = demo_token, pc_receiver_name = None\<rparr>)"

definition demo_server :: server where
  "demo_server = \<lparr>sr_engine = receiver_new (replicate 32 7) (replicate 16 5), sr_mixer = mixer_new canonical, sr_device = None\<rparr>"

lemma demo_server_start:
  "server_start demo_crates canonical demo_loaded (Inr default_preferences) None (replicate 16 5) = Inr (demo_token, demo_server)"
  using require_wire_iff[of canonical]
  by (simp add: server_start_def demo_loaded_def load_invitation_def demo_token_ok default_preferences_def demo_server_def
      require_wire_def canonical_def WIRE_RATE_def WIRE_CHANNELS_def WIRE_FRAME_SAMPLES_def)

definition demo_json :: "unit json" where
  "demo_json = \<lparr>jo_get = (\<lambda>_ _. None), jo_is_null = (\<lambda>_. True), jo_as_str = (\<lambda>_. None),
     jo_as_f64 = (\<lambda>_. None), jo_as_u64 = (\<lambda>_. None)\<rparr>"

definition demo_config :: "unit server_config" where
  "demo_config = \<lparr>sc_invitation = demo_token, sc_template = demo_announce, sc_from_json = (\<lambda>_. None), sc_json = demo_json,
     sc_playback = \<lparr>pr_state = Playback.Closed, pr_device = [],
       pr_stats = \<lparr>ps_callbacks = 0, ps_frames = 0, ps_nonzero = 0, ps_silent_run = 0, ps_max_silent_run = 0\<rparr>\<rparr>\<rparr>"

theorem server_reachable_ok_witness:
  "\<exists>sr' out. server_run demo_crates demo_config
      [SvDatagram id (replicate 16 9) [1, 2, 3] (V4 (10, 0, 0, 1), 7), SvControl [123, 10], SvPull id False 5 (replicate 8 1) 2, SvExpire 6]
      demo_server = Some (sr', out) \<and> history_len (sr_engine sr') \<le> 4096"
  using server_reachable_ok[OF demo_server_start, of "[SvDatagram id (replicate 16 9) [1, 2, 3] (V4 (10, 0, 0, 1), 7),
      SvControl [123, 10], SvPull id False 5 (replicate 8 1) 2, SvExpire 6]" demo_config]
  by (auto simp del: server_run.simps)

theorem datagrams_routed_witness:
  "\<exists>buf view. parse_packet buf = Some view
    \<and> server_datagram demo_crates demo_token demo_announce id [] buf (V4 (10, 0, 0, 1), 7) demo_server
      = (case handle_datagram demo_crates id [] (sr_engine demo_server) (sr_mixer demo_server) buf (V4 (10, 0, 0, 1), 7) of
           (rc, mx) \<Rightarrow> (demo_server\<lparr>sr_engine := rc, sr_mixer := mx\<rparr>, []))"
proof -
  let ?ct = "replicate 16 0 :: byte list"
  have "\<exists>buf. assemble KIND_HELLO (replicate 16 5) (replicate 16 1) 1 ?ct = Some buf"
    by (simp add: assemble_layout wire_consts)
  then obtain buf where "assemble KIND_HELLO (replicate 16 5) (replicate 16 1) 1 ?ct = Some buf" by blast
  from parse_assemble[OF _ _ _ _ _ this] obtain view where view: "parse_packet buf = Some view"
    by (auto simp: wire_consts KIND_HELLO_def KIND_PROBE_def)
  have n: "clip_name [114, 120] = [114, 120]" by (rule clip_name_short) (simp add: len_utf8_def)
  have "announce_ok (demo_announce\<lparr>an_epoch := rc_epoch (sr_engine demo_server)\<rparr>)"
    using demo_announce_ok by (simp add: announce_ok_def demo_server_def receiver_new_def with_history_cap_def)
  from datagrams_routed[OF demo_hash_ok demo_ct_ok demo_token_ok _ _ this _ view, of "replicate 16 3" "[114, 120]" id "[]" "(V4 (10, 0, 0, 1), 7)"]
  have "server_datagram demo_crates demo_token demo_announce id [] buf (V4 (10, 0, 0, 1), 7) demo_server
      = (case handle_datagram demo_crates id [] (sr_engine demo_server) (sr_mixer demo_server) buf (V4 (10, 0, 0, 1), 7) of
           (rc, mx) \<Rightarrow> (demo_server\<lparr>sr_engine := rc, sr_mixer := mx\<rparr>, []))"
    using n by (auto simp: valid_string_def scalar_def demo_announce_def)
  then show ?thesis using view by blast
qed

end
