(* ===== verification/Daemon_Match.thy ===== *)
theory Daemon_Match
  imports Discovery Addr_Text
begin

text \<open>
  \<open>src/src/daemon/mod.rs\<close>, the choice of a receiver: the target that the options name, the matching
  of discovery answers against it, one discovery exchange, and the wait for a receiver. What the
  discovery socket delivers until its deadline is an argument, as the list of what each \<open>recv_from\<close>
  returned (an error, or a datagram of at most 1024 bytes and its source).
\<close>

record sender_target =
  tg_ips :: "ipv4 list"
  tg_port :: "u16 option"
  tg_name :: "rstring option"

text \<open>\<open>to\<close> and \<open>peer\<close> are the options of the same name; \<open>v6\<close> parses the bracketed form.\<close>

definition target_of ::
  "(rstring \<Rightarrow> (u16 list \<times> u16) option) \<Rightarrow> rstring option \<Rightarrow> rstring option \<Rightarrow> sender_target" where
  "target_of v6 to_opt peer_opt =
     (case to_opt of
        None \<Rightarrow> \<lparr>tg_ips = [], tg_port = None, tg_name = peer_opt\<rparr>
      | Some s \<Rightarrow>
          (case parse_socket_addr v6 s of
             Some sock \<Rightarrow>
               \<lparr>tg_ips = (case sock_ip sock of V4 ip \<Rightarrow> [ip] | V6 _ \<Rightarrow> []),
                tg_port = Some (sock_port sock), tg_name = peer_opt\<rparr>
           | None \<Rightarrow>
               \<lparr>tg_ips = [], tg_port = None,
                tg_name = (case peer_opt of None \<Rightarrow> Some s | Some n \<Rightarrow> Some n)\<rparr>))"

definition direct_sockets :: "ipv4 list \<Rightarrow> u16 option \<Rightarrow> socket_addr list" where
  "direct_sockets ips port =
     (case port of None \<Rightarrow> [] | Some p \<Rightarrow> map (\<lambda>ip. (V4 ip, p)) ips)"

definition select_match ::
  "announce \<Rightarrow> socket_addr \<Rightarrow> ipv4 list \<Rightarrow> u16 option \<Rightarrow> rstring option \<Rightarrow> bool" where
  "select_match an src ips port name =
     (if (case name of Some n \<Rightarrow> an_name an \<noteq> n | None \<Rightarrow> False) then False
      else if (case ips of ip # _ \<Rightarrow> sock_ip src \<noteq> V4 ip | [] \<Rightarrow> False) then False
      else if (case port of Some p \<Rightarrow> an_tcp_port an \<noteq> p | None \<Rightarrow> False) then False
      else True)"

definition peer_matches ::
  "announce \<Rightarrow> socket_addr \<Rightarrow> byte list \<Rightarrow> ipv4 list \<Rightarrow> u16 option \<Rightarrow> rstring option \<Rightarrow> bool" where
  "peer_matches an src inst ips port name =
     (case (ips, port) of
        (ip # _, Some p) \<Rightarrow> src = (V4 ip, p) \<and> (case name of Some n \<Rightarrow> an_name an = n | None \<Rightarrow> True)
      | _ \<Rightarrow>
          if an_instance an = inst then True
          else if (case ips of ip # _ \<Rightarrow> sock_ip src = V4 ip | [] \<Rightarrow> False)
          then (case port of Some p \<Rightarrow> an_tcp_port an = p | None \<Rightarrow> True)
          else if ips = [] then (case name of Some n \<Rightarrow> an_name an = n | None \<Rightarrow> False)
          else False)"

section \<open>One discovery exchange\<close>

datatype received_from = RecvError | RecvFrom "byte list" socket_addr

fun collect_answers ::
  "crates \<Rightarrow> rstring \<Rightarrow> rstring \<Rightarrow> byte list \<Rightarrow> received_from list \<Rightarrow> answer list \<Rightarrow> answer list" where
  "collect_answers l query_name tok challenge [] found = found"
| "collect_answers l query_name tok challenge (RecvError # rs) found =
     collect_answers l query_name tok challenge rs found"
| "collect_answers l query_name tok challenge (RecvFrom buf src # rs) found =
     (if buf = [] \<or> 512 < length buf then collect_answers l query_name tok challenge rs found
      else case open_announce l buf tok challenge of
             None \<Rightarrow> collect_answers l query_name tok challenge rs found
           | Some an \<Rightarrow>
               collect_answers l query_name tok challenge rs
                 (if query_name = [] \<or> an_name an = query_name then found @ [(an, src)] else found))"

datatype discover_error = QueryFailed discovery_error | BindFailed

text \<open>The datagrams sent, and the answers; \<open>challenge\<close> is the random challenge of the query.\<close>

definition discover_toward ::
  "crates \<Rightarrow> rstring \<Rightarrow> rstring \<Rightarrow> byte list \<Rightarrow> bool \<Rightarrow> ipv4 list \<Rightarrow> socket_addr list \<Rightarrow> received_from list
    \<Rightarrow> (socket_addr \<times> byte list) list \<times> (discover_error + answer list)" where
  "discover_toward l query_name tok challenge bound extra direct rs =
     (case encode_query l challenge query_name tok of
        Inl e \<Rightarrow> ([], Inl (QueryFailed e))
      | Inr q \<Rightarrow>
          if \<not> bound then ([], Inl BindFailed)
          else
            (map (\<lambda>target. (target, sq_bytes q)) (if direct = [] then directed_query_targets extra else direct),
             Inr (dedup_prefer_direct (collect_answers l query_name tok (sq_challenge q) rs []))))"

section \<open>The wait for a receiver\<close>

record chosen_peer =
  cp_epoch :: "byte list"
  cp_addr :: socket_addr
  cp_name :: rstring
  cp_instance :: "byte list"

definition choose_peer ::
  "socket_addr list \<Rightarrow> ipv4 list \<Rightarrow> u16 option \<Rightarrow> rstring option \<Rightarrow> answer list \<Rightarrow> chosen_peer option" where
  "choose_peer direct ips port name nodes =
     map_option (\<lambda>(an, src).
         \<lparr>cp_epoch = an_epoch an, cp_addr = (if src \<in> set direct then src else contact_addr an src),
          cp_name = an_name an, cp_instance = an_instance an\<rparr>)
       (find (\<lambda>(an, src).
          if direct = [] then select_match an src ips port name
          else src \<in> set direct \<and> (case name of Some n \<Rightarrow> an_name an = n | None \<Rightarrow> True)) nodes)"

text \<open>One round per element: the random challenge, whether the socket bound, and what was received.\<close>

fun wait_for_peer ::
  "crates \<Rightarrow> rstring \<Rightarrow> sender_target \<Rightarrow> socket_addr list \<Rightarrow> (byte list \<times> bool \<times> received_from list) list
    \<Rightarrow> chosen_peer option" where
  "wait_for_peer l tok tg direct [] = None"
| "wait_for_peer l tok tg direct ((challenge, bound, rs) # rounds) =
     (case snd (discover_toward l (case tg_name tg of Some n \<Rightarrow> n | None \<Rightarrow> []) tok challenge bound (tg_ips tg) direct rs) of
        Inl _ \<Rightarrow> wait_for_peer l tok tg direct rounds
      | Inr nodes \<Rightarrow>
          (case choose_peer direct (tg_ips tg) (tg_port tg) (tg_name tg) nodes of
             Some chosen \<Rightarrow> Some chosen
           | None \<Rightarrow> wait_for_peer l tok tg direct rounds))"

section \<open>What is collected is authentic\<close>

lemma find_SomeD: "find P xs = Some x \<Longrightarrow> P x \<and> x \<in> set xs"
  by (induction xs) (auto split: if_splits)

lemma collect_append: "collect_answers l q tok ch rs found = found @ collect_answers l q tok ch rs []"
proof (induction rs arbitrary: found)
  case Nil
  then show ?case by simp
next
  case (Cons r rs)
  note ih = Cons[of found]
  show ?case
  proof (cases r)
    case RecvError
    then show ?thesis using ih by simp
  next
    case (RecvFrom buf src)
    show ?thesis
    proof (cases "open_announce l buf tok ch")
      case None
      then show ?thesis using RecvFrom ih by simp
    next
      case (Some an)
      then show ?thesis
        using RecvFrom ih Cons[of "found @ [(an, src)]"] Cons[of "[(an, src)]"] by simp
    qed
  qed
qed

lemma collect_iff:
  "(an, src) \<in> set (collect_answers l q tok ch rs []) \<longleftrightarrow>
    (\<exists>buf. RecvFrom buf src \<in> set rs \<and> buf \<noteq> [] \<and> length buf \<le> 512
      \<and> open_announce l buf tok ch = Some an \<and> (q = [] \<or> an_name an = q))"
proof (induction rs)
  case Nil
  then show ?case by simp
next
  case (Cons r rs)
  show ?case
  proof (cases r)
    case RecvError
    then show ?thesis using Cons by simp
  next
    case (RecvFrom buf s)
    show ?thesis
    proof (cases "open_announce l buf tok ch")
      case None
      then show ?thesis using Cons RecvFrom by auto
    next
      case (Some a)
      then show ?thesis
        using Cons RecvFrom collect_append[of l q tok ch rs "[(a, s)]"] by (auto split: if_splits)
    qed
  qed
qed

lemma dedup_sub: "set (dedup_prefer_direct items) \<subseteq> set items"
proof -
  have "set (foldl (\<lambda>best item. merge_answer item best) best items) \<subseteq> set best \<union> set items" for best
  proof (induction items arbitrary: best)
    case Nil
    then show ?case by simp
  next
    case (Cons i items)
    then show ?case using merge_sub[of i best] Cons[of "merge_answer i best"] by auto
  qed
  from this[of "[]"] show ?thesis by (simp add: dedup_prefer_direct_def)
qed

text \<open>What a round's choice rests on: a datagram that opens under the group token for its challenge.\<close>

definition vouched :: "crates \<Rightarrow> rstring \<Rightarrow> sender_target \<Rightarrow> socket_addr list \<Rightarrow> byte list \<times> bool \<times> received_from list
    \<Rightarrow> chosen_peer \<Rightarrow> bool" where
  "vouched l tok tg direct round cp \<longleftrightarrow> (\<exists>buf src an.
     RecvFrom buf src \<in> set (snd (snd round)) \<and> open_announce l buf tok (fst round) = Some an
     \<and> cp_epoch cp = an_epoch an \<and> cp_name cp = an_name an \<and> cp_instance cp = an_instance an
     \<and> (case tg_name tg of Some n \<Rightarrow> an_name an = n | None \<Rightarrow> True)
     \<and> (if direct = []
         then cp_addr cp = (sock_ip src, an_tcp_port an)
           \<and> (case tg_ips tg of ip # _ \<Rightarrow> sock_ip src = V4 ip | [] \<Rightarrow> True)
           \<and> (case tg_port tg of Some p \<Rightarrow> an_tcp_port an = p | None \<Rightarrow> True)
         else cp_addr cp = src \<and> src \<in> set direct))"

lemma query_challenge: "encode_query l ch n tok = Inr q \<Longrightarrow> sq_challenge q = ch"
  by (auto simp: encode_query_def Let_def split: sum.splits if_splits)

lemma round_vouched:
  assumes "snd (discover_toward l (case tg_name tg of Some n \<Rightarrow> n | None \<Rightarrow> []) tok ch bound (tg_ips tg) direct rs) = Inr nodes"
    and "choose_peer direct (tg_ips tg) (tg_port tg) (tg_name tg) nodes = Some cp"
  shows "vouched l tok tg direct (ch, bound, rs) cp"
proof -
  obtain q where q: "encode_query l ch (case tg_name tg of Some n \<Rightarrow> n | None \<Rightarrow> []) tok = Inr q"
    "nodes = dedup_prefer_direct (collect_answers l (case tg_name tg of Some n \<Rightarrow> n | None \<Rightarrow> []) tok (sq_challenge q) rs [])"
    using assms(1) by (auto simp: discover_toward_def split: sum.splits if_splits)
  obtain an src where f: "find (\<lambda>(an, src).
          if direct = [] then select_match an src (tg_ips tg) (tg_port tg) (tg_name tg)
          else src \<in> set direct \<and> (case tg_name tg of Some n \<Rightarrow> an_name an = n | None \<Rightarrow> True)) nodes = Some (an, src)"
    and cp: "cp = \<lparr>cp_epoch = an_epoch an, cp_addr = (if src \<in> set direct then src else contact_addr an src),
          cp_name = an_name an, cp_instance = an_instance an\<rparr>"
    using assms(2) by (auto simp: choose_peer_def)
  have m: "if direct = [] then select_match an src (tg_ips tg) (tg_port tg) (tg_name tg)
          else src \<in> set direct \<and> (case tg_name tg of Some n \<Rightarrow> an_name an = n | None \<Rightarrow> True)"
    and "(an, src) \<in> set nodes"
    using find_SomeD[OF f] by simp_all
  moreover have "set nodes \<subseteq> set (collect_answers l (case tg_name tg of Some n \<Rightarrow> n | None \<Rightarrow> []) tok ch rs [])"
    unfolding q(2) query_challenge[OF q(1)] by (rule dedup_sub)
  ultimately have "(an, src) \<in> set (collect_answers l (case tg_name tg of Some n \<Rightarrow> n | None \<Rightarrow> []) tok ch rs [])"
    by blast
  then obtain buf where "RecvFrom buf src \<in> set rs" "open_announce l buf tok ch = Some an"
    by (auto simp: collect_iff)
  with m cp show ?thesis
    unfolding vouched_def
    by (intro exI[of _ buf] exI[of _ src] exI[of _ an])
      (auto simp: contact_addr_def select_match_def split: if_splits option.splits list.splits)
qed

lemma wait_vouched: "wait_for_peer l tok tg direct rounds = Some cp \<Longrightarrow> list_ex (\<lambda>r. vouched l tok tg direct r cp) rounds"
proof (induction rounds)
  case Nil
  then show ?case by simp
next
  case (Cons r rounds)
  obtain ch bound rs where r: "r = (ch, bound, rs)" by (cases r)
  show ?case
  proof (cases "snd (discover_toward l (case tg_name tg of Some n \<Rightarrow> n | None \<Rightarrow> []) tok ch bound (tg_ips tg) direct rs)")
    case (Inl e)
    then show ?thesis using Cons r by simp
  next
    case (Inr nodes)
    show ?thesis
    proof (cases "choose_peer direct (tg_ips tg) (tg_port tg) (tg_name tg) nodes")
      case None
      then show ?thesis using Cons r Inr by simp
    next
      case (Some c)
      then show ?thesis using round_vouched[OF Inr Some] Cons.prems r Inr by simp
    qed
  qed
qed


text \<open>
  C17. The receiver that a sender settles on is authentic and the one it asked for: one of the rounds
  received a datagram MACed under the group token for exactly that round's challenge, and the epoch,
  name and instance chosen are its content. The answer fits the target in every part the options
  name: it carries the name asked for, if one was; when a socket address was asked for the datagram
  came from that very address, which is then the address chosen; otherwise its source has the IP
  address asked for and its announced audio port is the port asked for, where those are given, and
  the address chosen is that source address with the announced port.
\<close>

theorem chosen_peer_authentic:
  assumes "hash_ok l" and "ct_ok l" and "parse_invitation l tok = Inr raw"
    and "wait_for_peer l tok tg direct rounds = Some cp"
  shows "list_ex (\<lambda>(ch, bound, rs). \<exists>an src.
      RecvFrom (DISCOVERY_MAGIC @ [DISCOVERY_VERSION, TYPE_ANNOUNCE] @ ch
          @ mac16 l (discovery_key l raw) (signed_bytes TYPE_ANNOUNCE ch (announce_body an (an_name an)))
          @ announce_body an (an_name an)) src \<in> set rs
      \<and> cp_epoch cp = an_epoch an \<and> cp_name cp = an_name an \<and> cp_instance cp = an_instance an
      \<and> (case tg_name tg of Some n \<Rightarrow> an_name an = n | None \<Rightarrow> True)
      \<and> (if direct = []
         then cp_addr cp = (sock_ip src, an_tcp_port an)
           \<and> (case tg_ips tg of ip # _ \<Rightarrow> sock_ip src = V4 ip | [] \<Rightarrow> True)
           \<and> (case tg_port tg of Some p \<Rightarrow> an_tcp_port an = p | None \<Rightarrow> True)
         else cp_addr cp = src \<and> src \<in> set direct)) rounds"
proof -
  obtain ch bound rs where r: "(ch, bound, rs) \<in> set rounds" "vouched l tok tg direct (ch, bound, rs) cp"
    using wait_vouched[OF assms(4)] by (auto simp: list_ex_iff)
  then obtain buf src an where v: "RecvFrom buf src \<in> set rs" "open_announce l buf tok ch = Some an"
     "cp_epoch cp = an_epoch an" "cp_name cp = an_name an" "cp_instance cp = an_instance an"
     "case tg_name tg of Some n \<Rightarrow> an_name an = n | None \<Rightarrow> True"
     "if direct = []
         then cp_addr cp = (sock_ip src, an_tcp_port an)
           \<and> (case tg_ips tg of ip # _ \<Rightarrow> sock_ip src = V4 ip | [] \<Rightarrow> True)
           \<and> (case tg_port tg of Some p \<Rightarrow> an_tcp_port an = p | None \<Rightarrow> True)
         else cp_addr cp = src \<and> src \<in> set direct"
    unfolding vouched_def by auto
  have "seal_discovery l TYPE_ANNOUNCE ch (announce_body an (an_name an)) (discovery_key l raw) = Inr buf" "length ch = 16"
    using v(2) open_announce_inverse[OF assms(1-3)] by blast+
  then have "buf = DISCOVERY_MAGIC @ [DISCOVERY_VERSION, TYPE_ANNOUNCE] @ ch
      @ mac16 l (discovery_key l raw) (signed_bytes TYPE_ANNOUNCE ch (announce_body an (an_name an)))
      @ announce_body an (an_name an)"
    using seal_layout[OF assms(1)] by blast
  with v r(1) show ?thesis
    unfolding list_ex_iff by (intro bexI[OF _ r(1)]) (simp only: prod.case, intro exI[of _ an] exI[of _ src], simp)
qed

section \<open>A receiver that answers is found\<close>

lemma dedup_nonempty: "items \<noteq> [] \<Longrightarrow> dedup_prefer_direct items \<noteq> []"
proof -
  assume "items \<noteq> []"
  then obtain i where "i \<in> set items" by (cases items) auto
  then have "list_ex (\<lambda>b. an_instance (fst b) = an_instance (fst i) \<and> source_rank (snd b) \<le> source_rank (snd i))
      (dedup_prefer_direct items)"
    using best_of_mset[OF _ dedup_fold_best[of items], of "dedup_prefer_direct items"]
    by (auto simp: dedup_prefer_direct_def best_of_def list_all_iff)
  then show ?thesis by auto
qed

lemma dedup_first:
  assumes "items \<noteq> []"
  shows "\<exists>i nodes. dedup_prefer_direct items = i # nodes \<and> i \<in> set items"
proof -
  obtain i nodes where "dedup_prefer_direct items = i # nodes" using dedup_nonempty[OF assms] by (cases "dedup_prefer_direct items") auto
  then show ?thesis using dedup_sub[of items] by auto
qed

lemma answered_round:
  assumes ok: "hash_ok l" "ct_ok l" and key: "parse_invitation l tok = Inr raw" and ch: "length ch = 16"
    and an: "announce_ok an" "str_len (an_name an) \<le> 64" and n: "n = [] \<or> n = an_name an"
    and q: "encode_query l ch n tok = Inr q"
    and p: "respond_to_query l (sq_bytes q) tok an = Some p" and r: "RecvFrom p src \<in> set rs"
  shows "(an, src) \<in> set (collect_answers l n tok ch rs [])"
proof -
  have short: "str_len n \<le> 64" "valid_string n" using n an by (auto simp: announce_ok_def valid_string_def)
  have clip: "clip_name n = n" "clip_name (an_name an) = an_name an" using short an(2) by (simp_all add: clip_name_short)
  have "Option.bind (respond_to_query l (sq_bytes q) tok an) (\<lambda>p. open_announce l p tok (sq_challenge q))
      = (if clip_name n = [] \<or> clip_name n = an_name an then Some (an\<lparr>an_name := clip_name (an_name an)\<rparr>) else None)"
    using handshake[OF ok key ch short(2) an(1)] q by auto
  then have op: "open_announce l p tok ch = Some an" using p n clip query_challenge[OF q] by auto
  then have "seal_discovery l TYPE_ANNOUNCE ch (announce_body an (an_name an)) (discovery_key l raw) = Inr p"
    using open_announce_inverse[OF ok key] by blast
  then have "p \<noteq> []" "length p \<le> 512"
    using seal_layout[OF ok(1) ch] length_mac16[OF ok(1)] ch by auto
  with op r n show ?thesis by (auto simp: collect_iff)
qed

text \<open>
  A receiver that answers is found. When, in some round of a sender that looks for any receiver or
  for the name of this one, the receiver's answer to the round's query arrives, the wait ends in
  that round at the latest, whatever else arrives.
\<close>

theorem answering_receiver_found:
  assumes "hash_ok l" "ct_ok l" "parse_invitation l tok = Inr raw" "length ch = 16"
    and "announce_ok an" "str_len (an_name an) \<le> 64"
    and "tg_ips tg = []" "tg_port tg = None" "tg_name tg = None \<or> (tg_name tg = Some (an_name an) \<and> an_name an \<noteq> [])"
    and "encode_query l ch (case tg_name tg of Some n \<Rightarrow> n | None \<Rightarrow> []) tok = Inr q"
    and "respond_to_query l (sq_bytes q) tok an = Some p" "RecvFrom p src \<in> set rs"
  shows "\<exists>cp. wait_for_peer l tok tg [] (before @ (ch, True, rs) # after) = Some cp"
proof -
  let ?n = "case tg_name tg of Some n \<Rightarrow> n | None \<Rightarrow> []"
  let ?found = "collect_answers l ?n tok ch rs []"
  have n: "?n = [] \<or> ?n = an_name an" using assms(9) by auto
  have "?found \<noteq> []" using answered_round[OF assms(1-6) n assms(10-12)] by auto
  then obtain i nodes where d: "dedup_prefer_direct ?found = i # nodes" "i \<in> set ?found" using dedup_first by metis
  obtain a s where i: "i = (a, s)" by (cases i)
  have "?n = [] \<or> an_name a = ?n" using d(2) i by (auto simp: collect_iff)
  then have "select_match a s (tg_ips tg) (tg_port tg) (tg_name tg)"
    using assms(7-9) by (auto simp: select_match_def split: option.splits)
  then have now: "wait_for_peer l tok tg [] ((ch, True, rs) # after) \<noteq> None"
    using d i assms(10) query_challenge[OF assms(10)] by (simp add: discover_toward_def choose_peer_def)
  have "wait_for_peer l tok tg [] (before @ (ch, True, rs) # after) \<noteq> None"
  proof (induction before)
    case (Cons r before)
    then show ?case by (cases r) (auto split: sum.split option.split)
  qed (use now in simp)
  then show ?thesis by blast
qed


definition demo_target :: sender_target where
  "demo_target = \<lparr>tg_ips = [], tg_port = None, tg_name = Some [114, 120]\<rparr>"

theorem answering_receiver_found_witness:
  "\<exists>q p cp. encode_query demo_crates (replicate 16 3) [114, 120] demo_token = Inr q
    \<and> respond_to_query demo_crates (sq_bytes q) demo_token demo_announce = Some p
    \<and> wait_for_peer demo_crates demo_token demo_target []
        [(replicate 16 3, True, [RecvError, RecvFrom [] (V4 (10, 0, 0, 9), 1), RecvFrom p (V4 (10, 0, 0, 2), 47001)])] = Some cp"
proof -
  have name: "an_name demo_announce = [114, 120]" by (simp add: demo_announce_def)
  have len: "str_len (an_name demo_announce) \<le> 64" by (simp add: name len_utf8_def)
  have v: "valid_string [114, 120]" by (simp add: valid_string_def scalar_def)
  have clip: "clip_name [114, 120] = [114, 120]" using len name by (simp add: clip_name_short)
  obtain q where q: "encode_query demo_crates (replicate 16 3) [114, 120] demo_token = Inr q"
    "Option.bind (respond_to_query demo_crates (sq_bytes q) demo_token demo_announce)
      (\<lambda>p. open_announce demo_crates p demo_token (sq_challenge q)) = Some demo_announce"
    using handshake[OF demo_hash_ok demo_ct_ok demo_token_ok _ v demo_announce_ok, of "replicate 16 3"] clip name by auto
  then obtain p where p: "respond_to_query demo_crates (sq_bytes q) demo_token demo_announce = Some p"
    by (cases "respond_to_query demo_crates (sq_bytes q) demo_token demo_announce") auto
  let ?rs = "[RecvError, RecvFrom [] (V4 (10, 0, 0, 9), 1), RecvFrom p (V4 (10, 0, 0, 2), 47001)]"
  have "\<exists>cp. wait_for_peer demo_crates demo_token demo_target [] ([] @ (replicate 16 3, True, ?rs) # []) = Some cp"
    by (rule answering_receiver_found[OF demo_hash_ok demo_ct_ok demo_token_ok _ demo_announce_ok len _ _ _ _ p, where src = "(V4 (10, 0, 0, 2), 47001)"])
      (simp_all add: demo_target_def name q)
  with q p show ?thesis by auto
qed

text \<open>A round that the receiver answers.\<close>

lemma demo_wait:
  "\<exists>p. wait_for_peer demo_crates demo_token demo_target [] [(replicate 16 3, True, [RecvFrom p (V4 (10, 0, 0, 2), 47001)])]
      = Some \<lparr>cp_epoch = an_epoch demo_announce, cp_addr = contact_addr demo_announce (V4 (10, 0, 0, 2), 47001),
          cp_name = an_name demo_announce, cp_instance = an_instance demo_announce\<rparr>"
proof -
  let ?b = "announce_body demo_announce (an_name demo_announce)"
  let ?k = "discovery_key demo_crates (replicate 32 7)"
  have name: "an_name demo_announce = [114, 120]" by (simp add: demo_announce_def)
  have sl: "str_len (an_name demo_announce) = 2" by (simp add: name len_utf8_def)
  have lb: "length ?b = 41" using length_announce_body[of demo_announce] sl by (simp add: demo_announce_def)
  obtain p where p: "seal_discovery demo_crates TYPE_ANNOUNCE (replicate 16 3) ?b ?k = Inr p"
    using seal_layout[OF demo_hash_ok, of "replicate 16 3"] lb by auto
  have op: "open_announce demo_crates p demo_token (replicate 16 3) = Some demo_announce"
    using open_announce_inverse[OF demo_hash_ok demo_ct_ok demo_token_ok] p demo_announce_ok sl by simp
  have "p \<noteq> []" "length p \<le> 512"
    using p seal_layout[OF demo_hash_ok, of "replicate 16 3"] length_mac16[OF demo_hash_ok] lb by auto
  then have c: "collect_answers demo_crates [114, 120] demo_token (replicate 16 3) [RecvFrom p (V4 (10, 0, 0, 2), 47001)] []
      = [(demo_announce, (V4 (10, 0, 0, 2), 47001))]"
    using op name by simp
  have v: "valid_string [114, 120]" by (simp add: valid_string_def scalar_def)
  obtain q where q: "encode_query demo_crates (replicate 16 3) [114, 120] demo_token = Inr q"
    using handshake[OF demo_hash_ok demo_ct_ok demo_token_ok _ v demo_announce_ok, of "replicate 16 3"] by auto
  have "wait_for_peer demo_crates demo_token demo_target []
        [(replicate 16 3, True, [RecvFrom p (V4 (10, 0, 0, 2), 47001)])]
      = Some \<lparr>cp_epoch = an_epoch demo_announce, cp_addr = contact_addr demo_announce (V4 (10, 0, 0, 2), 47001),
          cp_name = an_name demo_announce, cp_instance = an_instance demo_announce\<rparr>"
    using c q query_challenge[OF q] name
    by (simp add: demo_target_def discover_toward_def choose_peer_def select_match_def dedup_prefer_direct_def)
  then show ?thesis by blast
qed

theorem chosen_peer_authentic_witness:
  "\<exists>p cp an. wait_for_peer demo_crates demo_token demo_target []
        [(replicate 16 3, True, [RecvFrom p (V4 (10, 0, 0, 2), 47001)])] = Some cp
    \<and> cp_epoch cp = an_epoch an \<and> cp_addr cp = (V4 (10, 0, 0, 2), an_tcp_port an)
    \<and> RecvFrom (DISCOVERY_MAGIC @ [DISCOVERY_VERSION, TYPE_ANNOUNCE] @ replicate 16 3
          @ mac16 demo_crates (discovery_key demo_crates (replicate 32 7))
              (signed_bytes TYPE_ANNOUNCE (replicate 16 3) (announce_body an (an_name an)))
          @ announce_body an (an_name an)) (V4 (10, 0, 0, 2), 47001) = RecvFrom p (V4 (10, 0, 0, 2), 47001)"
proof -
  obtain p cp where w: "wait_for_peer demo_crates demo_token demo_target []
        [(replicate 16 3, True, [RecvFrom p (V4 (10, 0, 0, 2), 47001)])] = Some cp" using demo_wait by blast
  obtain an src where a: "RecvFrom (DISCOVERY_MAGIC @ [DISCOVERY_VERSION, TYPE_ANNOUNCE] @ replicate 16 3
          @ mac16 demo_crates (discovery_key demo_crates (replicate 32 7))
              (signed_bytes TYPE_ANNOUNCE (replicate 16 3) (announce_body an (an_name an)))
          @ announce_body an (an_name an)) src = RecvFrom p (V4 (10, 0, 0, 2), 47001)"
    "cp_epoch cp = an_epoch an" "cp_addr cp = (sock_ip src, an_tcp_port an)"
    using chosen_peer_authentic[OF demo_hash_ok demo_ct_ok demo_token_ok w] by auto
  then have "src = (V4 (10, 0, 0, 2), 47001)" by simp
  with a w show ?thesis
    by (intro exI[of _ p] exI[of _ cp] exI[of _ an]) (simp only: sock_ip_def fst_conv simp_thms)
qed

end
