(* ===== verification/Daemon_Sender.thy ===== *)
theory Daemon_Sender
  imports Daemon_Server Daemon_Match Capture
begin

text \<open>
  \<open>src/src/daemon/mod.rs\<close>, the sender's side: the loop of \<open>run_sender\<close> that binds to a receiver,
  probes the link, streams audio, and verifies now and then that the receiver is still the one it
  bound to. The local variables of the loop are the record \<open>session\<close>. One step is one round of the
  inner loop: the start of a probe train when one is due, then one branch of the \<open>select!\<close> whose
  guard holds. Times are microseconds; \<open>clk i\<close> is the i-th reading of the clock in the step, \<open>us\<close>
  the reading of \<open>mono_us\<close>.
\<close>

section \<open>Control\<close>

record sender_shared =
  sh_snap :: sender_snapshot
  sh_device :: "nat option"

definition sender_control ::
  "'j json \<Rightarrow> 'j control_request \<Rightarrow> sender_shared \<Rightarrow> control_body control_response \<times> sender_shared" where
  "sender_control jo req sh =
     (if cq_command req = ascii ''status'' then (okay (SenderStatus (sh_snap sh)), sh)
      else if cq_command req = ascii ''volume'' then (failed VolumeOnReceiver, sh)
      else if cq_command req = ascii ''device''
      then (case device_index jo (cq_args req) of
              Inr idx \<Rightarrow> (okay Empty, sh\<lparr>sh_device := idx\<rparr>)
            | Inl e \<Rightarrow> (failed e, sh))
      else (failed UnknownCommand, sh))"

interpretation scc: control_handler "sender_control jo" "\<lambda>sh. sh_snap sh = snap" for jo :: "'j json" and snap
  by unfold_locales (auto simp: sender_control_def split: sum.split)

section \<open>The session's state\<close>

text \<open>Each element of \<open>spawned\<close> is the outcome of one attempt.\<close>

fun open_capture_retry :: "bool \<Rightarrow> (rstring + unit) list \<Rightarrow> audio_format \<Rightarrow> capture_source \<Rightarrow> capture_handle option" where
  "open_capture_retry windows [] fmt src = None"
| "open_capture_retry windows (sp # spawned) fmt src =
     (case open_capture windows sp fmt src of
        Inr h \<Rightarrow> Some h
      | Inl _ \<Rightarrow> open_capture_retry windows spawned fmt src)"

record sender_env =
  sv_windows :: bool
  sv_format :: audio_format
  sv_source :: capture_source
  sv_target :: sender_target
  sv_direct :: "socket_addr list"

record session =
  sx_engine :: sender
  sx_snap :: sender_snapshot
  sx_capture :: capture_handle
  sx_addr :: socket_addr
  sx_instance :: "byte list"
  sx_probing :: bool
  sx_gradual :: bool
  sx_plan :: "probe_packet_spec list"
  sx_plan_at :: nat
  sx_sent :: "nat list"
  sx_next_probe :: nat
  sx_probe_done :: "nat option"
  sx_next_audio :: nat
  sx_next_hello :: nat
  sx_next_verify :: nat
  sx_inflight :: bool
  sx_misses :: nat
  sx_last_feedback :: nat
  sx_last_train :: nat
  sx_reprobe :: bool

definition begin_train :: "nat \<Rightarrow> nat \<Rightarrow> session \<Rightarrow> session" where
  "begin_train t1 t2 s =
     s\<lparr>sx_engine := begin_probe (sx_engine s), sx_plan := plan_probe MAX_PROBE_BYTES, sx_plan_at := 0,
       sx_sent := replicate 5 0, sx_next_probe := t1, sx_probe_done := None, sx_probing := True,
       sx_last_train := t2\<rparr>"

definition sending :: "socket_addr \<Rightarrow> byte list option \<Rightarrow> (socket_addr \<times> byte list) list" where
  "sending addr pkt = (case pkt of None \<Rightarrow> [] | Some p \<Rightarrow> [(addr, p)])"

text \<open>Binding, two hellos, and the first probe train.\<close>

definition begin_session ::
  "crates \<Rightarrow> (nat \<Rightarrow> nat) \<Rightarrow> chosen_peer \<Rightarrow> sender \<Rightarrow> capture_handle \<Rightarrow> session \<times> (socket_addr \<times> byte list) list" where
  "begin_session l clk chosen se cap =
     (let se = snd (bind_peer l se (cp_epoch chosen) (cp_addr chosen) (cp_name chosen) (cp_instance chosen));
          snap = snapshot l se;
          (p1, se) = hello l se;
          (p2, se) = hello l se
      in (begin_train (clk 6) (clk 7)
            \<lparr>sx_engine = se, sx_snap = snap, sx_capture = cap, sx_addr = cp_addr chosen,
             sx_instance = cp_instance chosen, sx_probing = False, sx_gradual = False, sx_plan = [],
             sx_plan_at = 0, sx_sent = replicate 5 0, sx_next_probe = clk 0, sx_probe_done = None,
             sx_next_audio = clk 1, sx_next_hello = clk 2 + 1000000, sx_next_verify = clk 3 + 2000000,
             sx_inflight = False, sx_misses = 0, sx_last_feedback = clk 4, sx_last_train = clk 5,
             sx_reprobe = False\<rparr>,
          sending (cp_addr chosen) p1 @ sending (cp_addr chosen) p2))"

section \<open>The branches of the loop\<close>

definition loop_head :: "(nat \<Rightarrow> nat) \<Rightarrow> session \<Rightarrow> session" where
  "loop_head clk s =
     (if sx_reprobe s \<or> (\<not> sx_probing s \<and> 30000000 \<le> clk 0 - sx_last_train s)
      then (begin_train (clk 1) (clk 2) s)\<lparr>sx_reprobe := False\<rparr>
      else s)"

definition on_hello :: "crates \<Rightarrow> (nat \<Rightarrow> nat) \<Rightarrow> session \<Rightarrow> session \<times> (socket_addr \<times> byte list) list" where
  "on_hello l clk s =
     (case hello l (sx_engine s) of
        (pkt, se) \<Rightarrow> (s\<lparr>sx_engine := se, sx_next_hello := clk 5 + 1000000\<rparr>, sending (sx_addr s) pkt))"

definition on_probe :: "crates \<Rightarrow> (nat \<Rightarrow> nat) \<Rightarrow> nat \<Rightarrow> session \<Rightarrow> session \<times> (socket_addr \<times> byte list) list" where
  "on_probe l clk us s =
     (if length (sx_plan s) \<le> sx_plan_at s then
        (let finished = (case sx_probe_done s of None \<Rightarrow> clk 5 | Some t \<Rightarrow> t);
             s = s\<lparr>sx_probe_done := Some finished\<rparr>
         in if 1000000 \<le> clk 6 - finished
            then (let se = note_probe (sx_engine s) (sx_sent s) (sx_gradual s)
                  in (s\<lparr>sx_engine := se, sx_gradual := True, sx_probing := False, sx_next_audio := clk 7,
                        sx_snap := snapshot l se\<rparr>, []))
            else (s\<lparr>sx_next_probe := clk 7 + 50000\<rparr>, []))
      else
        (let spec = sx_plan s ! sx_plan_at s
         in case send_probe l (sx_engine s) (of_nat (ps_step spec)) (ps_payload spec) us of
              (pkt, se) \<Rightarrow>
                (let s = s\<lparr>sx_engine := se\<rparr>;
                     s = (case pkt of
                            None \<Rightarrow> s
                          | Some _ \<Rightarrow> s\<lparr>sx_sent := (sx_sent s)[ps_step spec :=
                                          sat_add u32_max (sx_sent s ! ps_step spec) (min (ps_payload spec) u32_max)]\<rparr>)
                 in (s\<lparr>sx_plan_at := sx_plan_at s + 1, sx_next_probe := clk 5 + ps_delay_after spec\<rparr>,
                     sending (sx_addr s) pkt))))"

definition on_audio ::
  "crates \<Rightarrow> (nat \<Rightarrow> nat) \<Rightarrow> (flt \<Rightarrow> flt) \<Rightarrow> bool \<Rightarrow> nat \<Rightarrow> session \<Rightarrow> session \<times> (socket_addr \<times> byte list) list" where
  "on_audio l clk fsin busy us s =
     (case try_read fsin busy (sx_capture s) (replicate MAX_PCM_CHUNK 0) of
        (_, cap, pcm) \<Rightarrow>
          (case send_audio l (sx_engine s) pcm us of
             (pkt, se) \<Rightarrow>
               (s\<lparr>sx_capture := cap, sx_engine := se, sx_next_audio := advance_pace (sx_next_audio s) (clk 5)\<rparr>,
                sending (sx_addr s) pkt)))"

definition on_received :: "crates \<Rightarrow> (nat \<Rightarrow> nat) \<Rightarrow> nat \<Rightarrow> received_from \<Rightarrow> session \<Rightarrow> session" where
  "on_received l clk us r s =
     (case r of
        RecvError \<Rightarrow> s
      | RecvFrom buf _ \<Rightarrow>
          if \<not> (1 \<le> length buf \<and> length buf \<le> MAX_DATAGRAM) then s
          else
            (case handle_feedback l (sx_engine s) buf us of
               (False, se) \<Rightarrow> s\<lparr>sx_engine := se\<rparr>
             | (True, se) \<Rightarrow>
                 (let current = snapshot l se;
                      s = s\<lparr>sx_engine := se\<rparr>;
                      s = (if sn_rtt_us current < 3000000 then s\<lparr>sx_last_feedback := clk 5\<rparr> else s);
                      s = (if flt_ge (sn_loss current) (fl F32 (1 / 10)) \<and> \<not> sx_probing s
                              \<and> 10000000 \<le> clk 6 - sx_last_train s
                           then s\<lparr>sx_reprobe := True\<rparr> else s)
                  in s\<lparr>sx_snap := current\<rparr>)))"

datatype verdict = Stay session | Break session

text \<open>The result of a discovery that the verification asked for; \<open>None\<close> if its channel is closed.\<close>

definition on_verified :: "crates \<Rightarrow> sender_env \<Rightarrow> (nat \<Rightarrow> nat) \<Rightarrow> answer list option \<Rightarrow> session \<Rightarrow> verdict" where
  "on_verified l env clk maybe s =
     (let s = s\<lparr>sx_inflight := False, sx_next_verify := clk 5 + 2000000\<rparr>; tg = sv_target env
      in case maybe of
           None \<Rightarrow> Stay s
         | Some nodes \<Rightarrow>
             (case find (\<lambda>(an, src). peer_matches an src (sx_instance s) (tg_ips tg) (tg_port tg) (tg_name tg)) nodes of
                Some (an, src) \<Rightarrow>
                  if se_epoch (sx_engine s) \<noteq> Some (an_epoch an) then Break s
                  else
                    (let addr = (if src \<in> set (sv_direct env) then src else contact_addr an src);
                         s = (if se_addr (sx_engine s) \<noteq> Some addr
                              then (let se = snd (bind_peer l (sx_engine s) (an_epoch an) addr (an_name an) (an_instance an))
                                    in s\<lparr>sx_engine := se, sx_addr := addr, sx_snap := snapshot l se\<rparr>)
                              else s)
                     in Stay (s\<lparr>sx_misses := 0\<rparr>))
              | None \<Rightarrow>
                  (let s = s\<lparr>sx_misses := sx_misses s + 1\<rparr>
                   in if 3 \<le> sx_misses s
                      then (if clk 6 - sx_last_feedback s < 3000000 then Stay (s\<lparr>sx_misses := 0\<rparr>) else Break s)
                      else Stay s)))"

definition on_verify_due :: "(nat \<Rightarrow> nat) \<Rightarrow> session \<Rightarrow> session" where
  "on_verify_due clk s = s\<lparr>sx_inflight := True, sx_next_verify := clk 5 + 2000000\<rparr>"

text \<open>What the spawned discovery sends back.\<close>

definition verify_answers ::
  "crates \<Rightarrow> rstring \<Rightarrow> sender_env \<Rightarrow> byte list \<Rightarrow> bool \<Rightarrow> received_from list \<Rightarrow> answer list" where
  "verify_answers l invitation env challenge bnd rs =
     (case snd (discover_toward l (case tg_name (sv_target env) of Some n \<Rightarrow> n | None \<Rightarrow> []) invitation challenge bnd
                  (tg_ips (sv_target env)) (sv_direct env) rs) of
        Inr found \<Rightarrow> found | Inl _ \<Rightarrow> [])"

definition on_device :: "sender_env \<Rightarrow> (rstring + unit) list \<Rightarrow> session \<Rightarrow> session option" where
  "on_device env spawned s =
     (let s = s\<lparr>sx_capture := capture_stop (sx_capture s)\<rparr>
      in map_option (\<lambda>cap. s\<lparr>sx_capture := cap\<rparr>) (open_capture_retry (sv_windows env) spawned (sv_format env) (sv_source env)))"

section \<open>One round, a session, the daemon\<close>

text \<open>\<open>CaptureChanged None\<close>: the other end of the channel is gone, and the loop goes round again.\<close>

datatype session_event =
    HelloDue | ProbeDue nat | AudioDue "flt \<Rightarrow> flt" bool nat | Received received_from nat
  | Verified "answer list option" | VerifyDue | CaptureChanged "(rstring + unit) list option"

text \<open>When the branch can be taken: a sleep is over at or after its deadline.\<close>

definition enabled :: "(nat \<Rightarrow> nat) \<Rightarrow> session_event \<Rightarrow> session \<Rightarrow> bool" where
  "enabled clk ev s \<longleftrightarrow>
     (case ev of
        HelloDue \<Rightarrow> sx_next_hello s \<le> clk 4
      | ProbeDue _ \<Rightarrow> sx_probing s \<and> sx_next_probe s \<le> clk 4
      | AudioDue _ _ _ \<Rightarrow> sx_next_audio s \<le> clk 4
      | VerifyDue \<Rightarrow> \<not> sx_inflight s \<and> sx_next_verify s \<le> clk 4
      | _ \<Rightarrow> True)"

definition session_step ::
  "crates \<Rightarrow> sender_env \<Rightarrow> (nat \<Rightarrow> nat) \<times> session_event \<Rightarrow> session
    \<Rightarrow> (verdict \<times> (socket_addr \<times> byte list) list) option" where
  "session_step l env e s =
     (case e of (clk, ev) \<Rightarrow>
        (let s = loop_head clk s
         in if \<not> enabled clk ev s then None
            else case ev of
                   HelloDue \<Rightarrow> (case on_hello l clk s of (s, out) \<Rightarrow> Some (Stay s, out))
                 | ProbeDue us \<Rightarrow> (case on_probe l clk us s of (s, out) \<Rightarrow> Some (Stay s, out))
                 | AudioDue fsin busy us \<Rightarrow> (case on_audio l clk fsin busy us s of (s, out) \<Rightarrow> Some (Stay s, out))
                 | Received r us \<Rightarrow> Some (Stay (on_received l clk us r s), [])
                 | Verified maybe \<Rightarrow> Some (on_verified l env clk maybe s, [])
                 | VerifyDue \<Rightarrow> Some (Stay (on_verify_due clk s), [])
                 | CaptureChanged None \<Rightarrow> Some (Stay s, [])
                 | CaptureChanged (Some spawned) \<Rightarrow> map_option (\<lambda>s. (Stay s, [])) (on_device env spawned s)))"

fun session_run ::
  "crates \<Rightarrow> sender_env \<Rightarrow> ((nat \<Rightarrow> nat) \<times> session_event) list \<Rightarrow> session
    \<Rightarrow> (verdict \<times> (socket_addr \<times> byte list) list) option" where
  "session_run l env [] s = Some (Stay s, [])"
| "session_run l env (e # es) s =
     (case session_step l env e s of
        None \<Rightarrow> None
      | Some (Break s, out) \<Rightarrow> Some (Break s, out)
      | Some (Stay s, out) \<Rightarrow> map_option (\<lambda>(r, outs). (r, out @ outs)) (session_run l env es s))"

definition sender_start ::
  "crates \<Rightarrow> (rstring \<Rightarrow> (u16 list \<times> u16) option) \<Rightarrow> bool \<Rightarrow> audio_format \<Rightarrow> capture_source
    \<Rightarrow> rstring option \<Rightarrow> rstring option \<Rightarrow> rstring \<Rightarrow> crypto_error + pairing_config option \<Rightarrow> byte list
    \<Rightarrow> start_error + (rstring \<times> sender_env \<times> sender)" where
  "sender_start l v6 windows fmt src to_opt peer_opt name loaded sess =
     (case require_wire fmt of
        Inl e \<Rightarrow> Inl (StartFormat e)
      | Inr _ \<Rightarrow>
     (case load_invitation l loaded of
        Inl e \<Rightarrow> Inl e
      | Inr invitation \<Rightarrow>
     (case parse_invitation l invitation of
        Inl e \<Rightarrow> Inl (StartStore e)
      | Inr tok \<Rightarrow>
          (let tg = target_of v6 to_opt peer_opt
           in Inr (invitation,
                   \<lparr>sv_windows = windows, sv_format = fmt, sv_source = src, sv_target = tg,
                    sv_direct = direct_sockets (tg_ips tg) (tg_port tg)\<rparr>,
                   sender_new tok name sess)))))"

text \<open>
  The outer loop: each element is one session, with the discovery rounds before it, the clock of its
  beginning and its events; the run ends inside a wait or a session.
\<close>

fun sender_sessions ::
  "crates \<Rightarrow> rstring \<Rightarrow> sender_env
    \<Rightarrow> ((byte list \<times> bool \<times> received_from list) list \<times> (nat \<Rightarrow> nat) \<times> ((nat \<Rightarrow> nat) \<times> session_event) list) list
    \<Rightarrow> sender \<Rightarrow> capture_handle \<Rightarrow> (sender \<times> (socket_addr \<times> byte list) list) option" where
  "sender_sessions l invitation env [] se cap = Some (se, [])"
| "sender_sessions l invitation env ((rounds, clk, es) # rest) se cap =
     (case wait_for_peer l invitation (sv_target env) (sv_direct env) rounds of
        None \<Rightarrow> Some (se, [])
      | Some chosen \<Rightarrow>
          (case begin_session l clk chosen se cap of
             (s, hellos) \<Rightarrow>
               (case session_run l env es s of
                  None \<Rightarrow> None
                | Some (Stay s, out) \<Rightarrow> Some (sx_engine s, hellos @ out)
                | Some (Break s, out) \<Rightarrow>
                    map_option (\<lambda>(se, outs). (se, hellos @ out @ outs))
                      (sender_sessions l invitation env rest (sx_engine s) (sx_capture s)))))"

section \<open>The loop drives the engine\<close>

text \<open>What a piece of the loop does to the engine: a run of at most \<open>n\<close> operations under one epoch.\<close>

definition drives :: "crates \<Rightarrow> byte list \<Rightarrow> nat \<Rightarrow> sender \<Rightarrow> byte list list \<Rightarrow> sender \<Rightarrow> bool" where
  "drives l ep n se pkts se' \<longleftrightarrow> (\<exists>ops. sender_run l ops se = (pkts, se') \<and> length ops \<le> n
     \<and> list_all (\<lambda>x. op_sized x \<and> keeps_epoch ep x) ops)"

lemma sender_run_append:
  "sender_run l (xs @ ys) se = (let (p, se1) = sender_run l xs se; (q, se2) = sender_run l ys se1 in (p @ q, se2))"
  by (induction xs arbitrary: se) (auto simp: Let_def case_prod_beta split: option.split)

lemma drives_refl: "drives l ep n se [] se"
  unfolding drives_def by (rule exI[of _ "[]"]) simp

lemma drives_trans: "drives l ep n se p se1 \<Longrightarrow> drives l ep m se1 q se2 \<Longrightarrow> drives l ep (n + m) se (p @ q) se2"
  unfolding drives_def
proof (elim exE conjE)
  fix xs ys
  assume "sender_run l xs se = (p, se1)" "length xs \<le> n" "list_all (\<lambda>x. op_sized x \<and> keeps_epoch ep x) xs"
    "sender_run l ys se1 = (q, se2)" "length ys \<le> m" "list_all (\<lambda>x. op_sized x \<and> keeps_epoch ep x) ys"
  then show "\<exists>ops. sender_run l ops se = (p @ q, se2) \<and> length ops \<le> n + m \<and> list_all (\<lambda>x. op_sized x \<and> keeps_epoch ep x) ops"
    by (intro exI[of _ "xs @ ys"]) (simp add: sender_run_append)
qed

lemma drives_mono: "drives l ep n se p se1 \<Longrightarrow> n \<le> m \<Longrightarrow> drives l ep m se p se1"
  unfolding drives_def by (meson le_trans)

lemma drives_step:
  assumes "sender_step l x se = (pkt, se')" "op_sized x" "keeps_epoch ep x"
  shows "drives l ep 1 se (map snd (sending addr pkt)) se'"
  unfolding drives_def
  by (rule exI[of _ "[x]"]) (use assms in \<open>auto simp: sending_def split: option.split\<close>)

lemma drives_ok:
  assumes "drives l ep n se pkts se'" "sender_ok l se" "loss_ok se"
  shows "sender_ok l se' \<and> loss_ok se'"
proof -
  obtain ops where ops: "sender_run l ops se = (pkts, se')" "list_all (\<lambda>x. op_sized x \<and> keeps_epoch ep x) ops"
    using assms(1) by (auto simp: drives_def)
  then have "list_all op_sized ops" by (simp add: list_all_iff)
  from sender_run_keeps[OF assms(2,3) this] ops(1) show ?thesis by simp
qed

text \<open>Which fields the operations leave alone.\<close>

definition place :: "sender \<Rightarrow> byte list option \<times> socket_addr option" where
  "place se = (se_epoch se, se_addr se)"

lemma place_seal [simp]: "place (snd (sender_seal l se knd body)) = place se"
  by (auto simp: sender_seal_def place_def Let_def split: option.split)

lemma place_ops [simp]:
  "place (snd (hello l se)) = place se"
  "place (snd (send_audio l se pcm now)) = place se"
  "place (snd (send_probe l se stp n now)) = place se"
  "place (begin_probe se) = place se"
  "place (note_probe se sent gradual) = place se"
  "place (snd (handle_feedback l se buf now)) = place se"
proof -
  have p: "place (se\<lparr>se_audio_seq := n\<rparr>) = place se" "place (se\<lparr>se_probe_send_first_us := xs\<rparr>) = place se"
    "place (se\<lparr>se_probe_send_last_us := xs\<rparr>) = place se" for se n xs by (simp_all add: place_def)
  show "place (snd (hello l se)) = place se" by (simp add: hello_def split: option.split)
  show "place (snd (send_audio l se pcm now)) = place se" by (simp add: send_audio_def Let_def p split: option.split)
  show "place (snd (send_probe l se stp n now)) = place se" by (simp add: send_probe_def Let_def p split: option.split)
  show "place (begin_probe se) = place se" by (simp add: begin_probe_def place_def)
  show "place (note_probe se sent gradual) = place se" by (simp add: note_probe_def place_def Let_def)
  show "place (snd (handle_feedback l se buf now)) = place se"
    by (auto simp: handle_feedback_def apply_feedback_def place_def Let_def split: option.split prod.split)
qed

section \<open>The session's invariant\<close>

definition session_ok :: "crates \<Rightarrow> byte list \<Rightarrow> session \<Rightarrow> bool" where
  "session_ok l ep s \<longleftrightarrow> sender_ok l (sx_engine s) \<and> loss_ok (sx_engine s)
     \<and> place (sx_engine s) = (Some ep, Some (sx_addr s))
     \<and> sx_plan s = plan_probe MAX_PROBE_BYTES \<and> sx_plan_at s \<le> length (plan_probe MAX_PROBE_BYTES) \<and> length (sx_sent s) = 5
     \<and> sx_misses s < 3 \<and> (sx_probing s \<longrightarrow> \<not> sx_reprobe s)
     \<and> (sx_probe_done s \<noteq> None \<longrightarrow> sx_plan_at s = length (plan_probe MAX_PROBE_BYTES))"

lemma plan_steps_known: "spec \<in> set (plan_probe n) \<Longrightarrow> ps_step spec < 5"
proof -
  assume "spec \<in> set (plan_probe n)"
  then have "spec \<in> set (full_schedule (enumerate 0 PROBE_STEPS_BPS))"
    using plan_probe_prefix[of n] in_set_takeD by metis
  then show ?thesis by (auto simp: full_schedule_def probe_spec_def PROBE_STEPS_BPS_def)
qed

lemma begin_train_ok:
  assumes "session_ok l ep s"
  shows "session_ok l ep ((begin_train t1 t2 s)\<lparr>sx_reprobe := False\<rparr>)"
    and "drives l ep 1 (sx_engine s) [] (sx_engine (begin_train t1 t2 s))"
proof -
  show d: "drives l ep 1 (sx_engine s) [] (sx_engine (begin_train t1 t2 s))"
    using drives_step[of l SBeginProbe "sx_engine s" None "begin_probe (sx_engine s)" ep]
    by (simp add: begin_train_def sending_def op_sized_def keeps_epoch_def)
  show "session_ok l ep ((begin_train t1 t2 s)\<lparr>sx_reprobe := False\<rparr>)"
    using assms drives_ok[OF d] by (simp add: session_ok_def begin_train_def)
qed

lemma loop_head_ok:
  assumes "session_ok l ep s"
  shows "session_ok l ep (loop_head clk s)" "drives l ep 1 (sx_engine s) [] (sx_engine (loop_head clk s))"
    "sx_addr (loop_head clk s) = sx_addr s"
  using begin_train_ok[OF assms, of "clk 1" "clk 2"] assms
  by (auto simp: loop_head_def drives_refl begin_train_def)

text \<open>One branch: the invariant, one operation of the engine, and packets to the session's address only.\<close>

definition branch_ok :: "crates \<Rightarrow> byte list \<Rightarrow> session \<Rightarrow> (socket_addr \<times> byte list) list \<Rightarrow> session \<Rightarrow> bool" where
  "branch_ok l ep s out s' \<longleftrightarrow> session_ok l ep s' \<and> drives l ep 1 (sx_engine s) (map snd out) (sx_engine s')
     \<and> fst ` set out \<subseteq> {sx_addr s}"

lemma sending_addr: "fst ` set (sending addr pkt) \<subseteq> {addr}"
  by (auto simp: sending_def split: option.splits)

lemma engine_step:
  assumes "session_ok l ep s" "sender_step l x (sx_engine s) = (pkt, se)" "op_sized x" "keeps_epoch ep x"
    "place se = place (sx_engine s)"
  shows "drives l ep 1 (sx_engine s) (map snd (sending (sx_addr s) pkt)) se"
    "sender_ok l se \<and> loss_ok se \<and> place se = (Some ep, Some (sx_addr s))"
proof -
  show d: "drives l ep 1 (sx_engine s) (map snd (sending (sx_addr s) pkt)) se" by (rule drives_step[OF assms(2-4)])
  show "sender_ok l se \<and> loss_ok se \<and> place se = (Some ep, Some (sx_addr s))"
    using drives_ok[OF d] assms(1,5) by (simp add: session_ok_def)
qed

lemma on_hello_ok:
  assumes "session_ok l ep s" "on_hello l clk s = (s', out)"
  shows "branch_ok l ep s out s'"
proof -
  obtain pkt se where h: "hello l (sx_engine s) = (pkt, se)" by (cases "hello l (sx_engine s)")
  then have "place se = place (sx_engine s)" using place_ops(1)[of l "sx_engine s"] by simp
  with engine_step[OF assms(1), of SHello pkt se] h assms show ?thesis
    by (auto simp: branch_ok_def on_hello_def session_ok_def op_sized_def keeps_epoch_def dest: sending_addr[THEN subsetD, OF imageI])
qed

lemma on_audio_ok:
  assumes "session_ok l ep s" "on_audio l clk fsin busy us s = (s', out)"
  shows "branch_ok l ep s out s'"
proof -
  obtain n cap pcm where r: "try_read fsin busy (sx_capture s) (replicate MAX_PCM_CHUNK 0) = (n, cap, pcm)"
    by (cases "try_read fsin busy (sx_capture s) (replicate MAX_PCM_CHUNK 0)")
  obtain pkt se where a: "send_audio l (sx_engine s) pcm us = (pkt, se)" by (cases "send_audio l (sx_engine s) pcm us")
  then have "place se = place (sx_engine s)" using place_ops(2)[of l "sx_engine s" pcm us] by simp
  with engine_step[OF assms(1), of "SAudio pcm us" pkt se] r a assms show ?thesis
    by (auto simp: branch_ok_def on_audio_def session_ok_def op_sized_def keeps_epoch_def dest: sending_addr[THEN subsetD, OF imageI])
qed

lemma on_probe_ok:
  assumes "session_ok l ep s" "on_probe l clk us s = (s', out)"
  shows "branch_ok l ep s out s'"
proof (cases "length (sx_plan s) \<le> sx_plan_at s")
  case True
  define se where "se = note_probe (sx_engine s) (sx_sent s) (sx_gradual s)"
  from engine_step[OF assms(1), of "SNoteProbe (sx_sent s) (sx_gradual s)" None se] True assms show ?thesis
    by (auto simp: branch_ok_def on_probe_def session_ok_def op_sized_def keeps_epoch_def se_def sending_def Let_def drives_refl
        split: if_splits option.splits)
next
  case False
  define spec where "spec = sx_plan s ! sx_plan_at s"
  obtain pkt se where a: "send_probe l (sx_engine s) (of_nat (ps_step spec)) (ps_payload spec) us = (pkt, se)"
    by (cases "send_probe l (sx_engine s) (of_nat (ps_step spec)) (ps_payload spec) us")
  then have "place se = place (sx_engine s)"
    using place_ops(3)[of l "sx_engine s" "of_nat (ps_step spec)" "ps_payload spec" us] by simp
  with engine_step[OF assms(1), of "SProbe (of_nat (ps_step spec)) (ps_payload spec) us" pkt se] a False assms show ?thesis
    by (auto simp: branch_ok_def on_probe_def session_ok_def op_sized_def keeps_epoch_def spec_def Let_def
        split: option.splits dest: sending_addr[THEN subsetD, OF imageI])
qed

lemma on_received_ok:
  assumes "session_ok l ep s"
  shows "branch_ok l ep s [] (on_received l clk us r s)"
proof (cases r)
  case RecvError
  then show ?thesis using assms by (simp add: branch_ok_def on_received_def drives_refl)
next
  case (RecvFrom buf src)
  obtain b se where h: "handle_feedback l (sx_engine s) buf us = (b, se)" by (cases "handle_feedback l (sx_engine s) buf us")
  then have "place se = place (sx_engine s)" using place_ops(6)[of l "sx_engine s" buf us] by simp
  note st = engine_step[OF assms, of "SFeedback buf us" None se]
  show ?thesis using st h RecvFrom assms \<open>place se = _\<close>
    by (cases b) (auto simp: branch_ok_def on_received_def session_ok_def op_sized_def keeps_epoch_def sending_def
        Let_def drives_refl)
qed

text \<open>What a verification does: it ends the session, or keeps it, perhaps at another address.\<close>

lemma on_verified_ok:
  assumes "session_ok l ep s"
  shows "drives l ep 1 (sx_engine s) [] (sx_engine (case on_verified l env clk maybe s of Stay s' \<Rightarrow> s' | Break s' \<Rightarrow> s'))
    \<and> (\<forall>s'. on_verified l env clk maybe s = Stay s' \<longrightarrow> session_ok l ep s')"
proof -
  have len: "length ep = 16" and ep: "se_epoch (sx_engine s) = Some ep"
    using assms by (auto simp: session_ok_def sender_ok_def bound_def place_def)
  have bind: "drives l ep 1 (sx_engine s) [] (snd (bind_peer l (sx_engine s) ep addr name inst))"
    "place (snd (bind_peer l (sx_engine s) ep addr name inst)) = (Some ep, Some addr)" for addr name inst
    using drives_step[of l "SBind ep addr name inst" "sx_engine s" None _ ep] len ep
    by (auto simp: sending_def op_sized_def keeps_epoch_def bind_peer_def place_def Let_def)
  have eng: "sender_ok l se \<and> loss_ok se" if "drives l ep 1 (sx_engine s) [] se" for se
    using drives_ok[OF that] assms by (simp add: session_ok_def)
  have mark: "session_ok l ep (s\<lparr>sx_inflight := False, sx_next_verify := t\<rparr>)" for t
    using assms by (simp add: session_ok_def)
  have move: "session_ok l ep (s\<lparr>sx_inflight := False, sx_next_verify := t,
      sx_engine := snd (bind_peer l (sx_engine s) ep addr name inst), sx_addr := addr, sx_snap := snp, sx_misses := 0\<rparr>)"
    for t addr name inst snp using assms bind(2) eng[OF bind(1)] by (simp add: session_ok_def)
  show ?thesis
  proof (cases maybe)
    case None
    then show ?thesis using mark by (simp add: on_verified_def Let_def drives_refl)
  next
    case (Some nodes)
    show ?thesis
    proof (cases "find (\<lambda>(an, src). peer_matches an src (sx_instance s) (tg_ips (sv_target env)) (tg_port (sv_target env))
        (tg_name (sv_target env))) nodes")
      case None
      then show ?thesis using mark[of "clk 5 + 2000000"] Some
        by (simp add: on_verified_def Let_def drives_refl) (simp add: session_ok_def)
    next
      case (Some r)
      obtain an src where r: "r = (an, src)" by (cases r)
      define addr where "addr = (if src \<in> set (sv_direct env) then src else contact_addr an src)"
      show ?thesis
      proof (cases "an_epoch an = ep")
        case False
        then show ?thesis using \<open>maybe = Some nodes\<close> Some r ep by (simp add: on_verified_def Let_def drives_refl)
      next
        case same: True
        have v: "on_verified l env clk maybe s = Stay
            ((if se_addr (sx_engine s) \<noteq> Some addr
              then (let se = snd (bind_peer l (sx_engine s) ep addr (an_name an) (an_instance an))
                    in s\<lparr>sx_inflight := False, sx_next_verify := clk 5 + 2000000, sx_engine := se, sx_addr := addr,
                         sx_snap := snapshot l se\<rparr>)
              else s\<lparr>sx_inflight := False, sx_next_verify := clk 5 + 2000000\<rparr>)\<lparr>sx_misses := 0\<rparr>)"
          unfolding on_verified_def \<open>maybe = Some nodes\<close> using Some r ep same by (simp add: Let_def addr_def)
        show ?thesis
        proof (cases "se_addr (sx_engine s) = Some addr")
          case True
          then show ?thesis unfolding v using mark[of "clk 5 + 2000000"] by (simp add: drives_refl) (simp add: session_ok_def)
        next
          case False
          then show ?thesis unfolding v using move bind(1) by (simp add: Let_def)
        qed
      qed
    qed
  qed
qed

lemma session_step_ok:
  assumes ok: "session_ok l ep s" and step: "session_step l env (clk, ev) s = Some (v, out)"
  shows "drives l ep 2 (sx_engine s) (map snd out) (sx_engine (case v of Stay s' \<Rightarrow> s' | Break s' \<Rightarrow> s'))
    \<and> fst ` set out \<subseteq> {sx_addr s} \<and> (\<forall>s'. v = Stay s' \<longrightarrow> session_ok l ep s')"
proof -
  let ?s = "loop_head clk s"
  have h: "session_ok l ep ?s" "drives l ep 1 (sx_engine s) [] (sx_engine ?s)" "sx_addr ?s = sx_addr s"
    using loop_head_ok[OF ok] by simp_all
  have stay: ?thesis if "branch_ok l ep ?s out s'" "v = Stay s'" for s'
    using that h drives_trans[OF h(2), of 1 "map snd out" "sx_engine s'"]
    by (simp add: branch_ok_def numeral_2_eq_2)
  have still: "drives l ep 2 (sx_engine s) [] (sx_engine ?s)" using drives_mono[OF h(2)] by simp
  show ?thesis
  proof (cases ev)
    case HelloDue
    obtain s' o' where b: "on_hello l clk ?s = (s', o')" by (cases "on_hello l clk ?s")
    with stay[OF _ , of s'] on_hello_ok[OF h(1) b] HelloDue step show ?thesis
      by (auto simp: session_step_def Let_def split: if_splits)
  next
    case (ProbeDue us)
    obtain s' o' where b: "on_probe l clk us ?s = (s', o')" by (cases "on_probe l clk us ?s")
    with stay[OF _ , of s'] on_probe_ok[OF h(1) b] ProbeDue step show ?thesis
      by (auto simp: session_step_def Let_def split: if_splits)
  next
    case (AudioDue fsin busy us)
    obtain s' o' where b: "on_audio l clk fsin busy us ?s = (s', o')" by (cases "on_audio l clk fsin busy us ?s")
    with stay[OF _ , of s'] on_audio_ok[OF h(1) b] AudioDue step show ?thesis
      by (auto simp: session_step_def Let_def split: if_splits)
  next
    case (Received r us)
    with stay[of "on_received l clk us r ?s"] on_received_ok[OF h(1), of clk us r] step show ?thesis
      by (auto simp: session_step_def Let_def enabled_def)
  next
    case (Verified maybe)
    then have v: "v = on_verified l env clk maybe ?s" and out: "out = []"
      using step by (auto simp: session_step_def Let_def enabled_def)
    show ?thesis unfolding v out
      using on_verified_ok[OF h(1), of env clk maybe]
        drives_trans[OF h(2), of 1 "[]" "sx_engine (case on_verified l env clk maybe ?s of Stay s' \<Rightarrow> s' | Break s' \<Rightarrow> s')"]
      by (simp add: numeral_2_eq_2)
  next
    case VerifyDue
    then have "v = Stay (on_verify_due clk ?s)" "out = []"
      using step by (auto simp: session_step_def Let_def split: if_splits)
    then show ?thesis using h(1) still by (simp add: on_verify_due_def session_ok_def)
  next
    case (CaptureChanged c)
    show ?thesis using step CaptureChanged h(1) still
      by (cases c) (auto simp: session_step_def Let_def enabled_def on_device_def session_ok_def)
  qed
qed

section \<open>What leaves the machine\<close>

text \<open>The identity of an engine: token and session identifier.\<close>

definition who :: "sender \<Rightarrow> byte list \<times> byte list" where
  "who se = (se_token se, se_session se)"

lemma who_seal [simp]: "who (snd (sender_seal l se knd body)) = who se"
  by (auto simp: sender_seal_def who_def Let_def split: option.split)

lemma who_probe: "who (snd (send_probe l se stp n now)) = who se"
proof -
  have p: "who (se\<lparr>se_probe_send_first_us := xs\<rparr>) = who se" "who (se\<lparr>se_probe_send_last_us := xs\<rparr>) = who se" for se xs
    by (simp_all add: who_def)
  show ?thesis by (simp add: send_probe_def Let_def p split: option.split)
qed

lemma who_audio: "who (snd (send_audio l se pcm now)) = who se"
proof -
  have p: "who (se\<lparr>se_audio_seq := n\<rparr>) = who se" for se n by (simp add: who_def)
  show ?thesis by (simp add: send_audio_def Let_def p split: option.split)
qed

lemma who_quiet:
  "who (snd (bind_peer l se ep addr name inst)) = who se" "who (begin_probe se) = who se"
  "who (note_probe se sent gradual) = who se" "who (snd (handle_feedback l se pkt now)) = who se"
  using handle_feedback_same[of l se pkt now]
  by (simp_all add: who_def bind_peer_def begin_probe_def note_probe_def Let_def)

lemma who_step: "who (snd (sender_step l x se)) = who se"
  by (cases x) (simp_all add: hello_def who_probe who_audio who_quiet split: option.split)

lemma place_step:
  assumes "keeps_epoch ep x" "se_epoch se = Some ep"
  shows "se_epoch (snd (sender_step l x se)) = Some ep"
proof (cases "\<exists>ep' addr name inst. x = SBind ep' addr name inst")
  case True
  then show ?thesis using assms by (auto simp: keeps_epoch_def bind_peer_def Let_def)
next
  case False
  then have "place (snd (sender_step l x se)) = place se" by (cases x) simp_all
  then show ?thesis using assms(2) by (simp add: place_def)
qed

lemma seal_sealed:
  assumes "fst (sender_seal l se knd body) = Some p" "bound l se" "se_epoch se = Some ep"
  shows "\<exists>c. sealed_under l (send_dir l se ep) ep (se_session se) p c"
  using assms by (auto simp: sender_seal_def sealed_under_def bound_def Let_def split: if_splits)

lemma step_sealed:
  assumes b: "bound l se" and ep: "se_epoch se = Some ep" and p: "fst (sender_step l x se) = Some p"
  shows "\<exists>c. sealed_under l (send_dir l se ep) ep (se_session se) p c"
proof -
  have from_se: "\<exists>c. sealed_under l (send_dir l se ep) ep (se_session se) p c"
    if "fst (sender_seal l se' knd body) = Some p" "bound l se'" "se_epoch se' = Some ep" "who se' = who se" for se' knd body
    using seal_sealed[OF that(1-3)] that(4) by (simp add: who_def)
  show ?thesis
  proof (cases x)
    case SHello
    then show ?thesis using p from_se[of se] b ep by (auto simp: hello_def split: option.splits)
  next
    case (SAudio pcm now)
    let ?se = "se\<lparr>se_audio_seq := sat_add u64_max (se_audio_seq se) 1\<rparr>"
    have "bound l ?se" "se_epoch ?se = Some ep" "who ?se = who se" using b ep by (simp_all add: bound_def who_def)
    then show ?thesis using p SAudio from_se[of ?se] by (auto simp: send_audio_def Let_def split: option.splits)
  next
    case (SProbe stp n now)
    obtain se' body where "fst (sender_seal l se' KIND_PROBE body) = Some p" "bound l se'" "se_epoch se' = Some ep" "who se' = who se"
      using p b ep SProbe by (auto simp: send_probe_def Let_def who_def bound_def split: option.splits if_splits)
    then show ?thesis by (rule from_se)
  qed (use p in simp_all)
qed

lemma run_sealed:
  assumes "sender_ok l se" "se_epoch se = Some ep" "list_all (\<lambda>x. op_sized x \<and> keeps_epoch ep x) ops"
    "p \<in> set (fst (sender_run l ops se))"
  shows "\<exists>c. sealed_under l (send_dir l se ep) ep (se_session se) p c"
  using assms
proof (induction ops arbitrary: se)
  case Nil
  then show ?case by simp
next
  case (Cons x ops)
  obtain pkt se1 where st: "sender_step l x se = (pkt, se1)" by (cases "sender_step l x se")
  have x: "op_sized x" "keeps_epoch ep x" "list_all (\<lambda>x. op_sized x \<and> keeps_epoch ep x) ops" using Cons.prems(3) by simp_all
  have n: "sender_ok l se1" "se_epoch se1 = Some ep" "who se1 = who se"
    using sender_step_ok[OF Cons.prems(1) x(1)] place_step[OF x(2) Cons.prems(2), of l] who_step[of l x se] st by simp_all
  from Cons.prems(4) st consider "pkt = Some p" | "p \<in> set (fst (sender_run l ops se1))"
    by (cases pkt) (auto simp: Let_def case_prod_beta)
  then show ?case
  proof cases
    case 1
    have "bound l se" using Cons.prems(1) by (simp add: sender_ok_def)
    from step_sealed[OF this Cons.prems(2), of x p] st 1 show ?thesis by simp
  next
    case 2
    from Cons.IH[OF n(1,2) x(3) 2] n(3) show ?thesis by (simp add: who_def)
  qed
qed

lemma run_who: "who (snd (sender_run l ops se)) = who se"
proof (induction ops arbitrary: se)
  case Nil
  then show ?case by simp
next
  case (Cons x ops)
  then show ?case using who_step[of l x se] by (simp add: Let_def case_prod_beta)
qed

lemma drives_sealed:
  assumes "drives l ep n se pkts se'" "sender_ok l se" "se_epoch se = Some ep"
  shows "\<forall>p \<in> set pkts. \<exists>c. sealed_under l (send_dir l se ep) ep (se_session se) p c" "who se' = who se"
proof -
  obtain ops where ops: "sender_run l ops se = (pkts, se')" "list_all (\<lambda>x. op_sized x \<and> keeps_epoch ep x) ops"
    using assms(1) by (auto simp: drives_def)
  show "\<forall>p \<in> set pkts. \<exists>c. sealed_under l (send_dir l se ep) ep (se_session se) p c"
    using run_sealed[OF assms(2,3) ops(2)] ops(1) by simp
  show "who se' = who se" using run_who[of l ops se] ops(1) by simp
qed

section \<open>A session, start to end\<close>

definition final :: "verdict \<Rightarrow> session" where
  "final v = (case v of Stay s \<Rightarrow> s | Break s \<Rightarrow> s)"

lemma session_run_ok:
  assumes "session_ok l ep s" "session_run l env es s = Some (v, out)"
  shows "drives l ep (2 * length es) (sx_engine s) (map snd out) (sx_engine (final v))
    \<and> (\<forall>s'. v = Stay s' \<longrightarrow> session_ok l ep s')"
  using assms
proof (induction es arbitrary: s out)
  case Nil
  then show ?case by (auto simp: drives_refl final_def)
next
  case (Cons e es)
  obtain clk ev where e: "e = (clk, ev)" by (cases e)
  from Cons.prems(2) obtain v1 o1 where st: "session_step l env (clk, ev) s = Some (v1, o1)"
    by (auto simp: e split: option.splits)
  have one: "drives l ep 2 (sx_engine s) (map snd o1) (sx_engine (final v1))" "\<And>s'. v1 = Stay s' \<Longrightarrow> session_ok l ep s'"
    using session_step_ok[OF Cons.prems(1) st] by (simp_all add: final_def)
  show ?case
  proof (cases v1)
    case (Break s1)
    then show ?thesis using Cons.prems(2) st one drives_mono[OF one(1), of "2 * length (e # es)"] by (simp add: e)
  next
    case (Stay s1)
    then obtain o2 where r: "session_run l env es s1 = Some (v, o2)" "out = o1 @ o2"
      using Cons.prems(2) st by (auto simp: e)
    from Cons.IH[OF one(2)[OF Stay] r(1)] drives_trans[of l ep 2 "sx_engine s" "map snd o1" "sx_engine s1" "2 * length es"]
      one(1) Stay r(2) show ?thesis by (simp add: final_def[of "Stay s1"])
  qed
qed

lemma begin_session_ok:
  assumes "sender_ok l se" "loss_ok se" "length (cp_epoch chosen) = 16" "begin_session l clk chosen se cap = (s, out)"
  defines "se1 \<equiv> snd (bind_peer l se (cp_epoch chosen) (cp_addr chosen) (cp_name chosen) (cp_instance chosen))"
  shows "session_ok l (cp_epoch chosen) s"
    and "drives l (cp_epoch chosen) 3 se1 (map snd out) (sx_engine s)"
    and "sender_ok l se1" and "se_epoch se1 = Some (cp_epoch chosen)" and "who se1 = who se"
proof -
  let ?ep = "cp_epoch chosen"
  show b: "sender_ok l se1" unfolding se1_def by (rule bind_peer_ok[OF assms(1,3)])
  show ep: "se_epoch se1 = Some ?ep" and w: "who se1 = who se"
    by (auto simp: se1_def bind_peer_def who_def Let_def)
  have pl: "place se1 = (Some ?ep, Some (cp_addr chosen))" by (simp add: se1_def bind_peer_def place_def Let_def)
  have lo: "loss_ok se1" by (rule loss_same[OF assms(2)]) (simp add: se1_def bind_peer_def Let_def)
  obtain p1 sa where h1: "hello l se1 = (p1, sa)" by (cases "hello l se1")
  obtain p2 sb where h2: "hello l sa = (p2, sb)" by (cases "hello l sa")
  have d1: "drives l ?ep 1 se1 (map snd (sending (cp_addr chosen) p1)) sa"
    and d2: "drives l ?ep 1 sa (map snd (sending (cp_addr chosen) p2)) sb"
    by (rule drives_step[of l SHello]; simp add: h1 h2 op_sized_def keeps_epoch_def)+
  have d3: "drives l ?ep 1 sb [] (begin_probe sb)"
    using drives_step[of l SBeginProbe sb None "begin_probe sb" ?ep] by (simp add: sending_def op_sized_def keeps_epoch_def)
  have out: "out = sending (cp_addr chosen) p1 @ sending (cp_addr chosen) p2" and eng: "sx_engine s = begin_probe sb"
    using assms(4) h1 h2 by (auto simp: begin_session_def se1_def[symmetric] begin_train_def)
  have "drives l ?ep 3 se1 ((map snd (sending (cp_addr chosen) p1) @ map snd (sending (cp_addr chosen) p2)) @ []) (begin_probe sb)"
    using drives_trans[OF drives_trans[OF d1 d2] d3] by (simp add: numeral_3_eq_3)
  then show d: "drives l ?ep 3 se1 (map snd out) (sx_engine s)" by (simp add: out eng)
  have "place (begin_probe sb) = place se1" using place_ops(1)[of l se1] place_ops(1)[of l sa] h1 h2 by simp
  with drives_ok[OF d b lo] pl show "session_ok l ?ep s"
    using assms(4) h1 h2 by (auto simp: session_ok_def begin_session_def se1_def[symmetric] begin_train_def)
qed

lemma session_packets:
  assumes "sender_ok l se" "loss_ok se" "length (cp_epoch chosen) = 16"
    "begin_session l clk chosen se cap = (s, hellos)" "session_run l env es s = Some (v, out)"
  defines "se1 \<equiv> snd (bind_peer l se (cp_epoch chosen) (cp_addr chosen) (cp_name chosen) (cp_instance chosen))"
  shows "drives l (cp_epoch chosen) (3 + 2 * length es) se1 (map snd (hellos @ out)) (sx_engine (final v))"
    and "sender_ok l (sx_engine (final v)) \<and> loss_ok (sx_engine (final v))" and "who (sx_engine (final v)) = who se"
proof -
  note b = begin_session_ok[OF assms(1-4)]
  note r = session_run_ok[OF b(1) assms(5)]
  show d: "drives l (cp_epoch chosen) (3 + 2 * length es) se1 (map snd (hellos @ out)) (sx_engine (final v))"
    using drives_trans[OF b(2)] r by (simp add: se1_def)
  have "loss_ok se1" by (rule loss_same[OF assms(2)]) (simp add: se1_def bind_peer_def Let_def)
  with drives_ok[OF d] b(3) show "sender_ok l (sx_engine (final v)) \<and> loss_ok (sx_engine (final v))" by (simp add: se1_def)
  show "who (sx_engine (final v)) = who se"
    using drives_sealed(2)[OF d] b(3-5) by (simp add: se1_def)
qed

text \<open>
  C7. A session of the sender, from the binding over probe trains, audio, hellos, feedback,
  verifications and changes of the receiver's address, seals everything it sends under the keys of
  the one epoch it was bound to, with strictly increasing counters: no nonce is used twice, also when
  the receiver is bound again at another address.
\<close>

theorem session_counters_increase:
  assumes "sender_ok l se" and "loss_ok se" and "length (cp_epoch chosen) = 16"
    and "begin_session l clk chosen se cap = (s, hellos)" and "session_run l env es s = Some (v, out)"
    and "se_counter se + 3 + 2 * length es \<le> u64_max"
  shows "\<exists>cs. sorted_wrt (<) cs \<and> (\<forall>c \<in> set cs. 0 < c \<and> c \<le> u64_max)
    \<and> list_all2 (sealed_under l (send_dir l se (cp_epoch chosen)) (cp_epoch chosen) (se_session se)) (map snd (hellos @ out)) cs"
proof -
  let ?se = "snd (bind_peer l se (cp_epoch chosen) (cp_addr chosen) (cp_name chosen) (cp_instance chosen))"
  note b = begin_session_ok[OF assms(1-4)]
  obtain ops where ops: "sender_run l ops ?se = (map snd (hellos @ out), sx_engine (final v))" "length ops \<le> 3 + 2 * length es"
    "list_all (\<lambda>x. op_sized x \<and> keeps_epoch (cp_epoch chosen) x) ops"
    using session_packets(1)[OF assms(1-5)] by (auto simp: drives_def)
  have "se_counter ?se \<le> se_counter se" by (simp add: bind_peer_def Let_def)
  then have "se_counter ?se + length ops \<le> u64_max" using ops(2) assms(6) by simp
  from sender_run_counters[OF b(3,4) this ops(3)] obtain cs where cs: "sorted_wrt (<) cs"
    "\<forall>c \<in> set cs. se_counter ?se < c \<and> c \<le> u64_max"
    "list_all2 (sealed_under l (send_dir l ?se (cp_epoch chosen)) (cp_epoch chosen) (se_session ?se))
      (fst (sender_run l ops ?se)) cs" by blast
  have w: "se_token ?se = se_token se" "se_session ?se = se_session se" using b(5) by (simp_all add: who_def)
  have "list_all2 (sealed_under l (send_dir l se (cp_epoch chosen)) (cp_epoch chosen) (se_session se)) (map snd (hellos @ out)) cs"
    using cs(3) unfolding ops(1) w by simp
  moreover have "\<forall>c \<in> set cs. 0 < c \<and> c \<le> u64_max" using cs(2) by auto
  ultimately show ?thesis using cs(1) by blast
qed

section \<open>Only authenticated receivers\<close>

lemma chosen_epoch:
  assumes "hash_ok l" "ct_ok l" "parse_invitation l invitation = Inr raw" "wait_for_peer l invitation tg direct rounds = Some cp"
  shows "length (cp_epoch cp) = 16" "list_ex (\<lambda>r. vouched l invitation tg direct r cp) rounds"
proof -
  show v: "list_ex (\<lambda>r. vouched l invitation tg direct r cp) rounds" by (rule wait_vouched[OF assms(4)])
  then obtain buf ch an where "open_announce l buf invitation ch = Some an" "cp_epoch cp = an_epoch an"
    unfolding list_ex_iff vouched_def by blast
  with open_announce_inverse[OF assms(1-3)] show "length (cp_epoch cp) = 16" by (auto simp: announce_ok_def)
qed

definition meant_for :: "crates \<Rightarrow> rstring \<Rightarrow> sender_env \<Rightarrow> byte list \<times> byte list
    \<Rightarrow> (byte list \<times> bool \<times> received_from list) list list \<Rightarrow> byte list \<Rightarrow> bool" where
  "meant_for l invitation env w waits p \<longleftrightarrow> (\<exists>rounds \<in> set waits. \<exists>cp c.
     wait_for_peer l invitation (sv_target env) (sv_direct env) rounds = Some cp
     \<and> list_ex (\<lambda>r. vouched l invitation (sv_target env) (sv_direct env) r cp) rounds
     \<and> sealed_under l (sender_to_receiver (derive l (fst w) (cp_epoch cp) (snd w))) (cp_epoch cp) (snd w) p c)"

lemma meant_forI:
  assumes "rounds \<in> set waits" "wait_for_peer l invitation (sv_target env) (sv_direct env) rounds = Some cp"
    "list_ex (\<lambda>r. vouched l invitation (sv_target env) (sv_direct env) r cp) rounds"
    "\<exists>c. sealed_under l (send_dir l se (cp_epoch cp)) (cp_epoch cp) (se_session se) p c"
  shows "meant_for l invitation env (who se) waits p"
  using assms unfolding meant_for_def who_def fst_conv snd_conv by blast

lemma meant_for_mono:
  "meant_for l invitation env w waits p \<Longrightarrow> set waits \<subseteq> set waits' \<Longrightarrow> meant_for l invitation env w waits' p"
  unfolding meant_for_def by blast

lemma meant_for_sealed:
  assumes "meant_for l invitation env (tok, sess) waits p"
  shows "\<exists>rounds \<in> set waits. \<exists>cp c knd body. list_ex (\<lambda>r. vouched l invitation (sv_target env) (sv_direct env) r cp) rounds
    \<and> seal_packet l (sender_to_receiver (derive l tok (cp_epoch cp) sess)) (cp_epoch cp) sess c knd body = Some p"
  using assms unfolding meant_for_def sealed_under_def fst_conv snd_conv by blast

lemma sessions_sealed:
  assumes "hash_ok l" "ct_ok l" "parse_invitation l invitation = Inr raw"
    and "sender_ok l se" "loss_ok se" and "sender_sessions l invitation env plan se cap = Some (se', out)"
  shows "(\<forall>(a, p) \<in> set out. meant_for l invitation env (who se) (map fst plan) p) \<and> sender_ok l se' \<and> loss_ok se'"
  using assms(4-6)
proof (induction plan arbitrary: se cap out)
  case Nil
  then show ?case by simp
next
  case (Cons x plan)
  obtain rounds clk es where x: "x = (rounds, clk, es)" by (cases x)
  show ?case
  proof (cases "wait_for_peer l invitation (sv_target env) (sv_direct env) rounds")
    case None
    then show ?thesis using Cons.prems by (simp add: x)
  next
    case (Some cp)
    note ep = chosen_epoch[OF assms(1-3) Some]
    obtain s hellos where b: "begin_session l clk cp se cap = (s, hellos)" by (cases "begin_session l clk cp se cap")
    obtain v o1 where r: "session_run l env es s = Some (v, o1)"
      using Cons.prems(3) Some b by (auto simp: x split: option.splits)
    note k = session_packets[OF Cons.prems(1,2) ep(1) b r]
    note bs = begin_session_ok[OF Cons.prems(1,2) ep(1) b]
    have w: "se_token (snd (bind_peer l se (cp_epoch cp) (cp_addr cp) (cp_name cp) (cp_instance cp))) = se_token se"
      "se_session (snd (bind_peer l se (cp_epoch cp) (cp_addr cp) (cp_name cp) (cp_instance cp))) = se_session se"
      using bs(5) by (simp_all add: who_def)
    have "\<forall>p \<in> set (map snd (hellos @ o1)). \<exists>c.
        sealed_under l (send_dir l se (cp_epoch cp)) (cp_epoch cp) (se_session se) p c"
      using drives_sealed(1)[OF k(1) bs(3,4)] unfolding w .
    then have sealed: "\<exists>c. sealed_under l (send_dir l se (cp_epoch cp)) (cp_epoch cp) (se_session se) (snd d) c"
      if "d \<in> set (hellos @ o1)" for d using that by auto
    have here: "\<forall>(a, p) \<in> set (hellos @ o1). meant_for l invitation env (who se) (map fst (x # plan)) p"
      using meant_forI[OF _ Some ep(2)] sealed by (fastforce simp: x)
    show ?thesis
    proof (cases v)
      case (Stay s')
      then show ?thesis using Cons.prems(3) Some b r here k(2) by (auto simp: x final_def)
    next
      case (Break s')
      then obtain o2 where o2: "sender_sessions l invitation env plan (sx_engine s') (sx_capture s') = Some (se', o2)"
        "out = hellos @ o1 @ o2" using Cons.prems(3) Some b r by (auto simp: x)
      have "sender_ok l (sx_engine s')" "loss_ok (sx_engine s')" "who (sx_engine s') = who se"
        using k(2,3) Break by (simp_all add: final_def)
      with Cons.IH[OF this(1,2) o2(1)]
      have rest: "\<forall>(a, p) \<in> set o2. meant_for l invitation env (who se) (map fst plan) p" "sender_ok l se' \<and> loss_ok se'"
        by simp_all
      have "\<forall>(a, p) \<in> set o2. meant_for l invitation env (who se) (map fst (x # plan)) p"
        using rest(1) meant_for_mono[of l invitation env "who se" "map fst plan" _ "map fst (x # plan)"] by fastforce
      with here rest(2) show ?thesis unfolding o2(2) by auto
    qed
  qed
qed

text \<open>
  C8. The sending daemon, over any number of sessions, receivers and restarts of receivers: every
  datagram it ever sends is sealed under the keys that its group token, its own session identifier
  and an epoch give, where the epoch is one that a holder of the token announced, in an answer to
  this daemon's challenge of a discovery round that ended a wait for a receiver.
\<close>

theorem sent_only_to_authenticated:
  assumes "hash_ok l" and "ct_ok l" and "length sess = 16"
    and "sender_start l v6 windows fmt src to_opt peer_opt name loaded sess = Inr (invitation, env, se)"
    and "sender_sessions l invitation env plan se cap = Some (se', out)"
  shows "\<exists>tok. parse_invitation l invitation = Inr tok
    \<and> (\<forall>(a, p) \<in> set out. \<exists>rounds \<in> set (map fst plan). \<exists>cp c knd body.
        list_ex (\<lambda>r. vouched l invitation (sv_target env) (sv_direct env) r cp) rounds
        \<and> seal_packet l (sender_to_receiver (derive l tok (cp_epoch cp) sess)) (cp_epoch cp) sess c knd body = Some p)"
proof -
  obtain tok where tok: "parse_invitation l invitation = Inr tok" and se: "se = sender_new tok name sess"
    using assms(4) by (auto simp: sender_start_def Let_def split: sum.splits)
  have "sender_ok l se" "loss_ok se" using sender_new_ok[OF assms(3)] by (simp_all add: se loss_ok_def sender_new_def)
  from sessions_sealed[OF assms(1,2) tok this assms(5)]
  have "\<forall>(a, p) \<in> set out. meant_for l invitation env (who se) (map fst plan) p" by simp
  moreover have "who se = (tok, sess)" by (simp add: se who_def sender_new_def)
  ultimately have "\<forall>(a, p) \<in> set out. meant_for l invitation env (tok, sess) (map fst plan) p" by simp
  then have "\<forall>(a, p) \<in> set out. \<exists>rounds \<in> set (map fst plan). \<exists>cp c knd body.
      list_ex (\<lambda>r. vouched l invitation (sv_target env) (sv_direct env) r cp) rounds
      \<and> seal_packet l (sender_to_receiver (derive l tok (cp_epoch cp) sess)) (cp_epoch cp) sess c knd body = Some p"
    by (fast dest: meant_for_sealed)
  with tok show ?thesis by blast
qed

section \<open>Why a session ends\<close>

abbreviation match_of :: "sender_env \<Rightarrow> byte list \<Rightarrow> answer list \<Rightarrow> answer option" where
  "match_of env inst nodes \<equiv> find (\<lambda>(an, src). peer_matches an src inst (tg_ips (sv_target env)) (tg_port (sv_target env))
     (tg_name (sv_target env))) nodes"

text \<open>The verifications without a match since the last one with a match.\<close>

definition note_verified :: "sender_env \<Rightarrow> byte list \<Rightarrow> session_event \<Rightarrow> nat \<Rightarrow> nat" where
  "note_verified env inst ev n =
     (case ev of Verified (Some nodes) \<Rightarrow> (if match_of env inst nodes = None then n + 1 else 0) | _ \<Rightarrow> n)"

definition misses_of :: "sender_env \<Rightarrow> byte list \<Rightarrow> ((nat \<Rightarrow> nat) \<times> session_event) list \<Rightarrow> nat \<Rightarrow> nat" where
  "misses_of env inst es n = foldl (\<lambda>n e. note_verified env inst (snd e) n) n es"

text \<open>The fields that only verifications and feedback touch.\<close>

lemma loop_head_fields [simp]:
  "sx_instance (loop_head clk s) = sx_instance s" "sx_misses (loop_head clk s) = sx_misses s"
  "sx_last_feedback (loop_head clk s) = sx_last_feedback s"
  "se_epoch (sx_engine (loop_head clk s)) = se_epoch (sx_engine s)"
  by (simp_all add: loop_head_def begin_train_def begin_probe_def)

lemma branch_fields:
  "sx_instance (fst (on_hello l clk s)) = sx_instance s" "sx_misses (fst (on_hello l clk s)) = sx_misses s"
  "sx_instance (fst (on_audio l clk fsin busy us s)) = sx_instance s" "sx_misses (fst (on_audio l clk fsin busy us s)) = sx_misses s"
  "sx_instance (fst (on_probe l clk us s)) = sx_instance s" "sx_misses (fst (on_probe l clk us s)) = sx_misses s"
  "sx_instance (on_received l clk us r s) = sx_instance s" "sx_misses (on_received l clk us r s) = sx_misses s"
  by (auto simp: on_hello_def on_audio_def on_probe_def on_received_def Let_def split: prod.split option.split received_from.split bool.split)

lemma on_verified_reasons:
  "case on_verified l env clk maybe s of
     Stay s' \<Rightarrow> sx_instance s' = sx_instance s
       \<and> (sx_misses s \<le> n \<longrightarrow> sx_misses s' \<le> note_verified env (sx_instance s) (Verified maybe) n)
   | Break s' \<Rightarrow> (\<exists>nodes. maybe = Some nodes \<and>
       (case match_of env (sx_instance s) nodes of
          Some (an, src) \<Rightarrow> se_epoch (sx_engine s) \<noteq> Some (an_epoch an)
        | None \<Rightarrow> (sx_misses s \<le> n \<longrightarrow> 3 \<le> n + 1) \<and> 3000000 \<le> clk 6 - sx_last_feedback s))"
proof (cases maybe)
  case None
  then show ?thesis by (simp add: on_verified_def note_verified_def Let_def)
next
  case (Some nodes)
  show ?thesis
  proof (cases "match_of env (sx_instance s) nodes")
    case None
    then show ?thesis unfolding Some by (simp add: on_verified_def note_verified_def Let_def)
  next
    case (Some r)
    then show ?thesis unfolding \<open>maybe = Some nodes\<close>
      by (cases r) (simp add: on_verified_def note_verified_def Let_def)
  qed
qed

lemma step_reasons:
  assumes "session_step l env (clk, ev) s = Some (v, out)"
  shows "case v of
      Stay s' \<Rightarrow> sx_instance s' = sx_instance s
        \<and> (sx_misses s \<le> n \<longrightarrow> sx_misses s' \<le> note_verified env (sx_instance s) ev n)
    | Break s' \<Rightarrow> out = [] \<and> (\<exists>nodes. ev = Verified (Some nodes) \<and>
        (case match_of env (sx_instance s) nodes of
           Some (an, src) \<Rightarrow> se_epoch (sx_engine s) \<noteq> Some (an_epoch an)
         | None \<Rightarrow> (sx_misses s \<le> n \<longrightarrow> 3 \<le> n + 1) \<and> 3000000 \<le> clk 6 - sx_last_feedback s))"
proof (cases ev)
  case (Verified maybe)
  then have v: "on_verified l env clk maybe (loop_head clk s) = v" and out: "out = []"
    using assms by (auto simp: session_step_def Let_def enabled_def)
  show ?thesis
    using on_verified_reasons[where l = l and env = env and clk = clk and maybe = maybe and s = "loop_head clk s" and n = n]
    unfolding v out Verified loop_head_fields by (cases v) simp_all
next
  case (CaptureChanged c)
  then show ?thesis using assms
    by (cases c) (auto simp: session_step_def Let_def enabled_def on_device_def note_verified_def)
next
  case HelloDue
  then show ?thesis using assms branch_fields(1,2)[where l = l and clk = clk and s = "loop_head clk s"]
    by (auto simp: session_step_def Let_def note_verified_def split: if_splits prod.splits)
next
  case (ProbeDue us)
  then show ?thesis using assms branch_fields(5,6)[where us = us and l = l and clk = clk and s = "loop_head clk s"]
    by (auto simp: session_step_def Let_def note_verified_def split: if_splits prod.splits)
next
  case (AudioDue fsin busy us)
  then show ?thesis using assms branch_fields(3,4)[where fsin = fsin and busy = busy and us = us and l = l and clk = clk and s = "loop_head clk s"]
    by (auto simp: session_step_def Let_def note_verified_def split: if_splits prod.splits)
next
  case (Received r us)
  then show ?thesis using assms branch_fields(7,8)
    by (auto simp: session_step_def Let_def note_verified_def enabled_def)
next
  case VerifyDue
  then show ?thesis using assms
    by (auto simp: session_step_def Let_def note_verified_def on_verify_due_def split: if_splits)
qed

lemma end_reasons:
  assumes "session_run l env es s = Some (Break s', out)" "sx_misses s \<le> n"
  shows "\<exists>es1 clk nodes es2 s1. es = es1 @ (clk, Verified (Some nodes)) # es2
    \<and> session_run l env es1 s = Some (Stay s1, out)
    \<and> (case match_of env (sx_instance s) nodes of
         Some (an, src) \<Rightarrow> se_epoch (sx_engine s1) \<noteq> Some (an_epoch an)
       | None \<Rightarrow> 3 \<le> misses_of env (sx_instance s) (es1 @ [(clk, Verified (Some nodes))]) n
           \<and> 3000000 \<le> clk 6 - sx_last_feedback s1)"
  using assms
proof (induction es arbitrary: s out n)
  case Nil
  then show ?case by simp
next
  case (Cons e es)
  obtain clk ev where e: "e = (clk, ev)" by (cases e)
  obtain v1 o1 where st: "session_step l env (clk, ev) s = Some (v1, o1)"
    using Cons.prems(1) by (auto simp: e split: option.splits)
  note why = step_reasons[OF st, where n = n]
  show ?case
  proof (cases v1)
    case (Break s1)
    with why obtain nodes where n: "ev = Verified (Some nodes)" "o1 = []"
      "case match_of env (sx_instance s) nodes of
         Some (an, src) \<Rightarrow> se_epoch (sx_engine s) \<noteq> Some (an_epoch an)
       | None \<Rightarrow> (sx_misses s \<le> n \<longrightarrow> 3 \<le> n + 1) \<and> 3000000 \<le> clk 6 - sx_last_feedback s" by auto
    have "out = []" using Cons.prems(1) st Break n(2) by (simp add: e)
    then show ?thesis using n Cons.prems(2)
      by (intro exI[of _ "[]"] exI[of _ clk] exI[of _ nodes] exI[of _ es] exI[of _ s])
        (auto simp: e misses_of_def note_verified_def split: option.splits)
  next
    case (Stay s1)
    then obtain o2 where r: "session_run l env es s1 = Some (Break s', o2)" "out = o1 @ o2"
      using Cons.prems(1) st by (auto simp: e)
    have i: "sx_instance s1 = sx_instance s" and m: "sx_misses s1 \<le> note_verified env (sx_instance s) ev n"
      using why Stay Cons.prems(2) by simp_all
    from Cons.IH[OF r(1) m] obtain es1 clk' nodes es2 s2 where h: "es = es1 @ (clk', Verified (Some nodes)) # es2"
      "session_run l env es1 s1 = Some (Stay s2, o2)"
      "case match_of env (sx_instance s) nodes of
         Some (an, src) \<Rightarrow> se_epoch (sx_engine s2) \<noteq> Some (an_epoch an)
       | None \<Rightarrow> 3 \<le> misses_of env (sx_instance s) (es1 @ [(clk', Verified (Some nodes))]) (note_verified env (sx_instance s) ev n)
           \<and> 3000000 \<le> clk' 6 - sx_last_feedback s2" unfolding i by blast
    then show ?thesis using st Stay r(2)
      by (intro exI[of _ "e # es1"] exI[of _ clk'] exI[of _ nodes] exI[of _ es2] exI[of _ s2])
        (auto simp: e misses_of_def split: option.splits)
  qed
qed

text \<open>
  C28. A session is given up for two reasons only: a verification found the receiver under another
  epoch, or three verifications in a row, since the last one that found it, found nothing, and no
  feedback has been accepted for three seconds. Until then everything was sent to the receiver.
\<close>

theorem session_end_reasons:
  assumes "session_run l env es s = Some (Break s', out)" and "sx_misses s = 0"
  shows "\<exists>es1 clk nodes es2 s1. es = es1 @ (clk, Verified (Some nodes)) # es2
    \<and> session_run l env es1 s = Some (Stay s1, out)
    \<and> (case match_of env (sx_instance s) nodes of
         Some (an, src) \<Rightarrow> se_epoch (sx_engine s1) \<noteq> Some (an_epoch an)
       | None \<Rightarrow> 3 \<le> misses_of env (sx_instance s) (es1 @ [(clk, Verified (Some nodes))]) 0
           \<and> 3000000 \<le> clk 6 - sx_last_feedback s1)"
  by (rule end_reasons[OF assms(1)]) (simp add: assms(2))

section \<open>A probe train ends\<close>

definition ends_train :: "crates \<Rightarrow> sender_env \<Rightarrow> ((nat \<Rightarrow> nat) \<times> session_event) list \<Rightarrow> session \<Rightarrow> bool" where
  "ends_train l env es s \<longleftrightarrow> (\<exists>es1 es2 s1 o1. es = es1 @ es2 \<and> session_run l env es1 s = Some (Stay s1, o1) \<and> \<not> sx_probing s1)"

lemma ends_now: "\<not> sx_probing s \<Longrightarrow> ends_train l env es s"
  unfolding ends_train_def by (rule exI[of _ "[]"]) simp

lemma ends_later:
  assumes "session_step l env e s = Some (Stay s1, o1)" "ends_train l env es s1"
  shows "ends_train l env (e # es) s"
proof -
  obtain es1 es2 s2 o2 where "es = es1 @ es2" "session_run l env es1 s1 = Some (Stay s2, o2)" "\<not> sx_probing s2"
    using assms(2) unfolding ends_train_def by blast
  then show ?thesis unfolding ends_train_def using assms(1)
    by (intro exI[of _ "e # es1"] exI[of _ es2] exI[of _ s2] exI[of _ "o1 @ o2"]) simp
qed

fun probe_clocks :: "((nat \<Rightarrow> nat) \<times> session_event) list \<Rightarrow> (nat \<Rightarrow> nat) list" where
  "probe_clocks [] = []"
| "probe_clocks ((clk, ProbeDue us) # es) = clk # probe_clocks es"
| "probe_clocks ((clk, ev) # es) = probe_clocks es"

text \<open>The train's progress, and what the other branches leave alone.\<close>

definition train :: "session \<Rightarrow> bool \<times> nat \<times> nat option" where
  "train s = (sx_probing s, sx_plan_at s, sx_probe_done s)"

lemma other_steps:
  assumes "session_ok l ep s" "sx_probing s" "session_step l env (clk, ev) s = Some (Stay s', out)" "\<forall>us. ev \<noteq> ProbeDue us"
  shows "train s' = train s"
proof -
  have h: "loop_head clk s = s" using assms(1,2) by (simp add: loop_head_def session_ok_def)
  have v: "train (case on_verified l env clk maybe s of Stay s' \<Rightarrow> s' | Break s' \<Rightarrow> s') = train s" for maybe
    by (auto simp: on_verified_def train_def Let_def split: option.split prod.split)
  show ?thesis
  proof (cases ev)
    case (Verified maybe)
    then have "on_verified l env clk maybe s = Stay s'" using assms(3) h by (simp add: session_step_def enabled_def)
    then show ?thesis using v[of maybe] by simp
  next
    case (CaptureChanged c)
    then show ?thesis using assms(3) h
      by (cases c) (auto simp: session_step_def Let_def enabled_def on_device_def train_def)
  next
    case (Received r us)
    then have "s' = on_received l clk us r s" using assms(3) h by (simp add: session_step_def enabled_def)
    then show ?thesis
      by (auto simp: on_received_def train_def Let_def split: prod.split option.split received_from.split bool.split)
  qed (use assms(3,4) h in \<open>auto simp: session_step_def Let_def on_hello_def on_audio_def on_verify_due_def train_def
      split: if_splits prod.splits\<close>)
qed

lemma probe_step:
  assumes "session_ok l ep s" "sx_probing s" "session_step l env (clk, ProbeDue us) s = Some (Stay s', out)"
  shows "train s' =
    (if sx_plan_at s < length (plan_probe MAX_PROBE_BYTES) then (True, sx_plan_at s + 1, sx_probe_done s)
     else (let t = (case sx_probe_done s of None \<Rightarrow> clk 5 | Some t \<Rightarrow> t)
           in (clk 6 - t < 1000000, sx_plan_at s, Some t)))"
proof -
  have h: "loop_head clk s = s" using assms(1,2) by (simp add: loop_head_def session_ok_def)
  then have p: "fst (on_probe l clk us s) = s'" using assms(3)
    by (auto simp: session_step_def split: if_splits prod.splits)
  show ?thesis
    using assms(1,2) unfolding p[symmetric]
    by (auto simp: on_probe_def train_def session_ok_def Let_def split: prod.split option.split)
qed

lemma train_settles:
  assumes "session_ok l ep s" "sx_probing s" "sx_probe_done s = Some t"
    "session_run l env es s = Some (Stay s', out)" "clk \<in> set (probe_clocks es)" "t + 1000000 \<le> clk 6"
  shows "ends_train l env es s"
  using assms
proof (induction es arbitrary: s out)
  case Nil
  then show ?case by simp
next
  case (Cons e es)
  obtain c ev where e: "e = (c, ev)" by (cases e)
  obtain s1 o1 o2 where st: "session_step l env (c, ev) s = Some (Stay s1, o1)" and r: "session_run l env es s1 = Some (Stay s', o2)"
    using Cons.prems(4) by (auto simp: e split: option.splits verdict.splits)
  have ok: "session_ok l ep s1" using session_step_ok[OF Cons.prems(1) st] by simp
  have "ends_train l env es s1"
  proof (cases "sx_probing s1")
    case False
    then show ?thesis by (rule ends_now)
  next
    case True
    have full: "sx_plan_at s = length (plan_probe MAX_PROBE_BYTES)" using Cons.prems(1,3) by (simp add: session_ok_def)
    show ?thesis
    proof (cases "\<exists>us. ev = ProbeDue us")
      case probe: True
      then obtain us where us: "ev = ProbeDue us" by blast
      from probe_step[OF Cons.prems(1,2) st[unfolded us]] full Cons.prems(3) True
      have "sx_probe_done s1 = Some t" "c 6 < t + 1000000" by (auto simp: train_def)
      moreover have "clk \<in> set (probe_clocks es)" using Cons.prems(5,6) \<open>c 6 < _\<close> us by (auto simp: e)
      ultimately show ?thesis using Cons.IH[OF ok True _ r] Cons.prems(6) by blast
    next
      case False
      then have "sx_probe_done s1 = Some t"
        using other_steps[OF Cons.prems(1,2) st] Cons.prems(3) by (simp add: train_def)
      moreover have "clk \<in> set (probe_clocks es)" using Cons.prems(5) False by (cases ev) (auto simp: e)
      ultimately show ?thesis using Cons.IH[OF ok True _ r] Cons.prems(6) by blast
    qed
  qed
  then show ?case unfolding e by (rule ends_later[OF st])
qed

lemma train_runs:
  assumes "session_ok l ep s" "sx_probing s" "sx_probe_done s = None"
    "session_run l env es s = Some (Stay s', out)"
    "length (plan_probe MAX_PROBE_BYTES) - sx_plan_at s < length (probe_clocks es)"
    "(probe_clocks es ! (length (plan_probe MAX_PROBE_BYTES) - sx_plan_at s)) 5 + 1000000 \<le> (last (probe_clocks es)) 6"
  shows "ends_train l env es s"
  using assms
proof (induction es arbitrary: s out)
  case Nil
  then show ?case by simp
next
  case (Cons e es)
  let ?n = "length (plan_probe MAX_PROBE_BYTES)"
  obtain c ev where e: "e = (c, ev)" by (cases e)
  obtain s1 o1 o2 where st: "session_step l env (c, ev) s = Some (Stay s1, o1)" and r: "session_run l env es s1 = Some (Stay s', o2)"
    using Cons.prems(4) by (auto simp: e split: option.splits verdict.splits)
  have ok: "session_ok l ep s1" using session_step_ok[OF Cons.prems(1) st] by simp
  have le: "sx_plan_at s \<le> ?n" using Cons.prems(1) by (simp add: session_ok_def)
  have "ends_train l env es s1"
  proof (cases "sx_probing s1")
    case False
    then show ?thesis by (rule ends_now)
  next
    case on: True
    show ?thesis
    proof (cases "\<exists>us. ev = ProbeDue us")
      case True
      then obtain us where us: "ev = ProbeDue us" by blast
      note t = probe_step[OF Cons.prems(1,2) st[unfolded us]]
      show ?thesis
      proof (cases "sx_plan_at s < ?n")
        case True
        then have t1: "sx_plan_at s1 = sx_plan_at s + 1" "sx_probe_done s1 = None" using t Cons.prems(3) by (simp_all add: train_def)
        obtain k where k: "?n - sx_plan_at s = Suc k" "?n - sx_plan_at s1 = k" using True t1(1) by (cases "?n - sx_plan_at s") auto
        have ne: "probe_clocks es \<noteq> []" using Cons.prems(5) us k by (auto simp: e)
        show ?thesis
          using Cons.IH[OF ok on t1(2) r] Cons.prems(5,6) us k ne by (simp add: e)
      next
        case False
        then have full: "?n - sx_plan_at s = 0" "sx_plan_at s = ?n" using le by simp_all
        from t full(2) Cons.prems(3) on have t1: "sx_probe_done s1 = Some (c 5)" "c 6 < c 5 + 1000000"
          by (auto simp: train_def Let_def)
        have "c 5 + 1000000 \<le> last (c # probe_clocks es) 6" using Cons.prems(6) us full(1) by (simp add: e)
        with t1(2) have "probe_clocks es \<noteq> []" "c 5 + 1000000 \<le> (last (probe_clocks es)) 6" by (auto split: if_splits)
        from train_settles[OF ok on t1(1) r last_in_set[OF this(1)] this(2)] show ?thesis .
      qed
    next
      case False
      then have t1: "sx_plan_at s1 = sx_plan_at s" "sx_probe_done s1 = None"
        using other_steps[OF Cons.prems(1,2) st] Cons.prems(3) by (simp_all add: train_def)
      have "probe_clocks (e # es) = probe_clocks es" using False by (cases ev) (auto simp: e)
      then show ?thesis using Cons.IH[OF ok on t1(2) r] Cons.prems(5,6) t1(1) by simp
    qed
  qed
  then show ?case unfolding e by (rule ends_later[OF st])
qed

text \<open>
  C29. A probe train ends. In a session whose train is under way, whatever happens in between, the
  probe branch sends the packets left in the plan and then waits; once it is taken a second after
  the round in which it first found the plan sent, the train is over: the result has been taken and
  audio has the link again.
\<close>

theorem probe_train_ends:
  assumes "session_ok l ep s" and "sx_probing s" and "sx_probe_done s = None"
    and "session_run l env es s = Some (Stay s', out)"
    and "length (plan_probe MAX_PROBE_BYTES) - sx_plan_at s < length (probe_clocks es)"
    and "(probe_clocks es ! (length (plan_probe MAX_PROBE_BYTES) - sx_plan_at s)) 5 + 1000000 \<le> (last (probe_clocks es)) 6"
  shows "\<exists>es1 es2 s1 out1. es = es1 @ es2 \<and> session_run l env es1 s = Some (Stay s1, out1) \<and> \<not> sx_probing s1"
  using train_runs[OF assms] unfolding ends_train_def by blast

section \<open>A sender at work\<close>

definition demo_chosen :: chosen_peer where
  "demo_chosen = \<lparr>cp_epoch = demo_ep, cp_addr = demo_addr, cp_name = [114, 120], cp_instance = replicate 16 1\<rparr>"

definition demo_capture :: capture_handle where
  "demo_capture = new_handle canonical Microphone True"

definition demo_env :: sender_env where
  "demo_env = \<lparr>sv_windows = False, sv_format = canonical, sv_source = Microphone, sv_target = demo_target, sv_direct = []\<rparr>"

definition demo_session :: session where
  "demo_session = \<lparr>sx_engine = demo_sender, sx_snap = snapshot demo_crates demo_sender, sx_capture = demo_capture,
     sx_addr = demo_addr, sx_instance = replicate 16 1, sx_probing = True, sx_gradual = False,
     sx_plan = plan_probe MAX_PROBE_BYTES, sx_plan_at = length (plan_probe MAX_PROBE_BYTES), sx_sent = replicate 5 0,
     sx_next_probe = 0, sx_probe_done = None, sx_next_audio = 0, sx_next_hello = 0, sx_next_verify = 0,
     sx_inflight = False, sx_misses = 0, sx_last_feedback = 0, sx_last_train = 0, sx_reprobe = False\<rparr>"

lemma demo_loss: "loss_ok demo_sender"
  by (simp add: demo_sender_def loss_ok_def bind_peer_def sender_new_def Let_def)

lemma demo_session_ok: "session_ok demo_crates demo_ep demo_session"
  using demo_sender_ok demo_loss
  by (simp add: session_ok_def demo_session_def place_def) (simp add: demo_sender_def bind_peer_def Let_def)

theorem session_counters_increase_witness:
  "\<exists>s hellos cs. begin_session demo_crates id demo_chosen demo_sender demo_capture = (s, hellos)
    \<and> sorted_wrt (<) cs
    \<and> list_all2 (sealed_under demo_crates (send_dir demo_crates demo_sender demo_ep) demo_ep (replicate 16 6)) (map snd hellos) cs"
proof -
  obtain s hellos where b: "begin_session demo_crates id demo_chosen demo_sender demo_capture = (s, hellos)"
    by (cases "begin_session demo_crates id demo_chosen demo_sender demo_capture")
  have r: "session_run demo_crates demo_env [(id, Received RecvError 0)] s = Some (Stay (loop_head id s), [])"
    by (simp add: session_step_def enabled_def on_received_def Let_def)
  have "length (cp_epoch demo_chosen) = 16" by (simp add: demo_chosen_def demo_ep_def)
  from session_counters_increase[OF demo_sender_ok demo_loss this b r] b show ?thesis
    by (auto simp: demo_sender_fields u64_max_def demo_chosen_def)
qed

theorem sent_only_to_authenticated_witness:
  "\<exists>p se se' out. sender_start demo_crates (\<lambda>_. None) False canonical Microphone None (Some [114, 120]) [97] demo_loaded
        (replicate 16 6) = Inr (demo_token, demo_env, se)
    \<and> sender_sessions demo_crates demo_token demo_env
        [([(replicate 16 3, True, [RecvFrom p (V4 (10, 0, 0, 2), 47001)])], id, [])] se demo_capture = Some (se', out)
    \<and> se_epoch se' = Some (replicate 16 5)
    \<and> (\<exists>tok. parse_invitation demo_crates demo_token = Inr tok
      \<and> (\<forall>(a, pkt) \<in> set out.
          \<exists>rounds \<in> set (map fst [([(replicate 16 3, True, [RecvFrom p (V4 (10, 0, 0, 2), 47001)])], id :: nat \<Rightarrow> nat, [] :: ((nat \<Rightarrow> nat) \<times> session_event) list)]).
          \<exists>cp c knd body. list_ex (\<lambda>r. vouched demo_crates demo_token (sv_target demo_env) (sv_direct demo_env) r cp) rounds
          \<and> seal_packet demo_crates (sender_to_receiver (derive demo_crates tok (cp_epoch cp) (replicate 16 6))) (cp_epoch cp)
              (replicate 16 6) c knd body = Some pkt))"
proof -
  let ?se = "sender_new (replicate 32 7) [97] (replicate 16 6)"
  obtain p cp where w: "wait_for_peer demo_crates demo_token demo_target []
      [(replicate 16 3, True, [RecvFrom p (V4 (10, 0, 0, 2), 47001)])] = Some cp" "cp_epoch cp = replicate 16 5"
    using demo_wait by (auto simp: demo_announce_def)
  have st: "sender_start demo_crates (\<lambda>_. None) False canonical Microphone None (Some [114, 120]) [97] demo_loaded
      (replicate 16 6) = Inr (demo_token, demo_env, ?se)"
    by (simp add: sender_start_def demo_loaded_def load_invitation_def demo_token_ok demo_env_def demo_target_def
        target_of_def direct_sockets_def require_wire_def canonical_def WIRE_RATE_def WIRE_CHANNELS_def WIRE_FRAME_SAMPLES_def)
  obtain s hellos where b: "begin_session demo_crates id cp ?se demo_capture = (s, hellos)"
    by (cases "begin_session demo_crates id cp ?se demo_capture")
  have r: "sender_sessions demo_crates demo_token demo_env
        [([(replicate 16 3, True, [RecvFrom p (V4 (10, 0, 0, 2), 47001)])], id, [])] ?se demo_capture
      = Some (sx_engine s, hellos)"
    using w b by (simp add: demo_env_def)
  have ok: "loss_ok ?se" "length (cp_epoch cp) = 16" using w(2) by (simp_all add: loss_ok_def sender_new_def)
  have ep: "se_epoch (sx_engine s) = Some (replicate 16 5)"
    using begin_session_ok(1)[OF sender_new_ok ok b] w(2) by (simp add: session_ok_def place_def)
  have len: "length (replicate 16 6 :: byte list) = 16" by simp
  show ?thesis
    by (rule exI[of _ p], rule exI[of _ ?se], rule exI[of _ "sx_engine s"], rule exI[of _ hellos],
        intro conjI[OF st conjI[OF r conjI[OF ep sent_only_to_authenticated[OF demo_hash_ok demo_ct_ok len st r]]]])
qed

text \<open>The receiver answers a verification under another epoch.\<close>

theorem session_end_reasons_witness:
  "\<exists>s'. session_run demo_crates demo_env
      [(id, Verified (Some [(demo_announce\<lparr>an_epoch := replicate 16 9\<rparr>, (V4 (10, 0, 0, 2), 47001))]))] demo_session = Some (Break s', [])
    \<and> se_epoch (sx_engine demo_session) \<noteq> Some (replicate 16 9)"
proof -
  let ?node = "(demo_announce\<lparr>an_epoch := replicate 16 9\<rparr>, (V4 (10, 0, 0, 2), 47001)) :: answer"
  have h: "loop_head id demo_session = demo_session" by (simp add: loop_head_def demo_session_def)
  have pm: "peer_matches (fst ?node) (snd ?node) (replicate 16 1) (tg_ips (sv_target demo_env)) (tg_port (sv_target demo_env))
      (tg_name (sv_target demo_env))"
    by (simp add: peer_matches_def demo_env_def demo_target_def demo_announce_def)
  then have m: "match_of demo_env (replicate 16 1) [?node] = Some ?node" by simp
  have "\<exists>s'. on_verified demo_crates demo_env id (Some [?node]) demo_session = Break s'"
    using pm demo_sender_fields(1) by (simp add: on_verified_def demo_session_def Let_def demo_ep_def)
  then obtain s' where "session_run demo_crates demo_env [(id, Verified (Some [?node]))] demo_session = Some (Break s', [])"
    by (auto simp: session_step_def h enabled_def)
  from this session_end_reasons[OF this] show ?thesis
    using pm by (intro exI[of _ s']) (auto simp: demo_session_def Cons_eq_append_conv demo_sender_fields demo_ep_def)
qed

theorem probe_train_ends_witness:
  "\<exists>es1 s1 out1. session_run demo_crates demo_env es1 demo_session = Some (Stay s1, out1) \<and> \<not> sx_probing s1"
proof -
  let ?es = "[(\<lambda>_. 0, ProbeDue 0), (\<lambda>_. 1000000, ProbeDue 0)]"
  have "\<exists>s'. session_run demo_crates demo_env ?es demo_session = Some (Stay s', [])"
    by (simp add: session_step_def loop_head_def enabled_def on_probe_def demo_session_def Let_def)
  then obtain s' where "session_run demo_crates demo_env ?es demo_session = Some (Stay s', [])" by blast
  from probe_train_ends[OF demo_session_ok _ _ this] show ?thesis
    by (auto simp: demo_session_def)
qed

end
