(* ===== verification/Cli.thy ===== *)
theory Cli
  imports Daemon_Sender
begin

text \<open>
  \<open>src/src/cli/mod.rs\<close>: what the subcommands check, read, write and start. Files, the JSON forms, the
  outcome of system calls, the answer of a running daemon (\<open>ctl\<close>, see \<open>control_request_to\<close>), and what
  a discovery receives are arguments; the printed text is not modelled.
\<close>

section \<open>Environment and errors\<close>

record cli_env =
  ce_dir :: rstring
  ce_write :: write_env
  ce_unix :: bool
  ce_mkdir :: bool
  ce_default_mode :: nat
  ce_wrote :: "nat option + unit"
  ce_chmod :: bool
  ce_readable :: bool
  ce_pair_ser :: "pairing_config \<Rightarrow> rstring option"
  ce_pair_de :: "rstring \<Rightarrow> pairing_config option"
  ce_pair_slice :: "byte list \<Rightarrow> pairing_config option"
  ce_pref_ser :: "preferences \<Rightarrow> byte list option"
  ce_pref_de :: "byte list \<Rightarrow> preferences option"
  ce_hostname :: "rstring option"

datatype cli_error =
    CliPairing crypto_error | CliNotPaired | CliLocked | CustomFormat
  | ImportRead | ImportTooLarge | ImportFormat | ImportToken | ExportExists | ExportWrite | AlreadyPaired
  | TimeoutRange | CliDiscovery discover_error | CliPreferences store_error
  | ServerAddress | ServerNotIpv4 | VolumeUsage | GainRange | CliControl control_error | CliRefused
  | ListenAddress | SendAddress | SendNotIpv4

definition load_pairing :: "cli_env \<Rightarrow> files \<Rightarrow> crypto_error + pairing_config option" where
  "load_pairing env fs = pairing_load (ce_pair_de env) (ce_readable env) (ce_dir env) fs"

definition save_pairing :: "cli_env \<Rightarrow> pairing_config \<Rightarrow> files \<Rightarrow> files list \<times> (crypto_error + unit)" where
  "save_pairing env cfg fs =
     pairing_save (ce_pair_ser env) (ce_unix env) (ce_mkdir env) (ce_default_mode env) (ce_wrote env) (ce_chmod env)
       (ce_dir env) cfg fs"

definition load_prefs :: "cli_env \<Rightarrow> files \<Rightarrow> store_error + preferences" where
  "load_prefs env fs = load_preferences (ce_pref_de env) (ce_readable env) (ce_dir env) fs"

definition save_prefs :: "cli_env \<Rightarrow> preferences \<Rightarrow> files \<Rightarrow> files list \<times> (cli_error + unit)" where
  "save_prefs env p fs =
     (case save_preferences (ce_pref_ser env) (ce_write env) (ce_dir env) p fs of
        (states, Inl e) \<Rightarrow> (states, Inl (CliPreferences e))
      | (states, Inr _) \<Rightarrow> (states, Inr ()))"

definition cli_token :: "cli_env \<Rightarrow> files \<Rightarrow> cli_error + rstring" where
  "cli_token env fs =
     (case load_pairing env fs of
        Inl e \<Rightarrow> Inl (CliPairing e)
      | Inr None \<Rightarrow> Inl CliNotPaired
      | Inr (Some cfg) \<Rightarrow> Inr (pc_token cfg))"

definition ascii_hexdigit :: "byte \<Rightarrow> bool" where
  "ascii_hexdigit b \<longleftrightarrow> (48 \<le> b \<and> b \<le> 57) \<or> (65 \<le> b \<and> b \<le> 70) \<or> (97 \<le> b \<and> b \<le> 102)"

definition valid_token :: "rstring \<Rightarrow> bool" where
  "valid_token s \<longleftrightarrow> str_len s = 64 \<and> list_all ascii_hexdigit (utf8 s)"

section \<open>Pairing\<close>

record pair_args =
  pa_show :: bool
  pa_import :: "path option"
  pa_export :: "path option"
  pa_rotate :: bool
  pa_receiver_name :: "rstring option"

definition cli_pair ::
  "crates \<Rightarrow> cli_env \<Rightarrow> byte list \<Rightarrow> pair_args \<Rightarrow> files \<Rightarrow> files list \<times> (cli_error + unit)" where
  "cli_pair l env rand a fs =
     (case load_pairing env fs of
        Inl e \<Rightarrow> ([fs], Inl (CliPairing e))
      | Inr old \<Rightarrow>
          if pa_show a then ([fs], Inr ())
          else case pa_import a of
             Some file \<Rightarrow>
               (case (if ce_readable env then fs file else None) of
                  None \<Rightarrow> ([fs], Inl ImportRead)
                | Some f \<Rightarrow>
                    if 8192 < length (fi_data f) then ([fs], Inl ImportTooLarge)
                    else case ce_pair_slice env (fi_data f) of
                       None \<Rightarrow> ([fs], Inl ImportFormat)
                     | Some cfg \<Rightarrow>
                         if \<not> valid_token (pc_token cfg) then ([fs], Inl ImportToken)
                         else
                           (let cfg = (if pa_receiver_name a \<noteq> None then cfg\<lparr>pc_receiver_name := pa_receiver_name a\<rparr> else cfg)
                            in case save_pairing env cfg fs of
                                 (states, Inl e) \<Rightarrow> (states, Inl (CliPairing e))
                               | (states, Inr _) \<Rightarrow> (states, Inr ())))
           | None \<Rightarrow>
               (case pa_export a of
                  Some file \<Rightarrow>
                    (case old of
                       None \<Rightarrow> ([fs], Inl CliNotPaired)
                     | Some cfg \<Rightarrow>
                         if fs file \<noteq> None then ([fs], Inl ExportExists)
                         else case ce_pair_ser env cfg of
                            None \<Rightarrow> ([fs], Inl ExportWrite)
                          | Some t \<Rightarrow>
                              (case private_write (ce_write env) file (utf8 t) fs of
                                 (states, Inl _) \<Rightarrow> (states, Inl ExportWrite)
                               | (states, Inr _) \<Rightarrow> (states, Inr ())))
                | None \<Rightarrow>
                    if old \<noteq> None \<and> \<not> pa_rotate a then ([fs], Inl AlreadyPaired)
                    else case save_pairing env \<lparr>pc_token = generate_invitation_token l rand,
                                pc_receiver_name = pa_receiver_name a\<rparr> fs of
                           (states, Inl e) \<Rightarrow> (states, Inl (CliPairing e))
                         | (states, Inr _) \<Rightarrow> (states, Inr ())))"

section \<open>Preferences and control\<close>

definition cli_nodes ::
  "crates \<Rightarrow> cli_env \<Rightarrow> rstring \<Rightarrow> nat \<Rightarrow> byte list \<Rightarrow> bool \<Rightarrow> received_from list \<Rightarrow> files \<Rightarrow> cli_error + answer list" where
  "cli_nodes l env name timeout_ms challenge bnd rs fs =
     (if \<not> (50 \<le> timeout_ms \<and> timeout_ms \<le> 10000) then Inl TimeoutRange
      else case cli_token env fs of
         Inl e \<Rightarrow> Inl e
       | Inr tok \<Rightarrow>
           (case snd (discover_toward l name tok challenge bnd [] [] rs) of
              Inl e \<Rightarrow> Inl (CliDiscovery e) | Inr found \<Rightarrow> Inr found))"

definition cli_select_server ::
  "(rstring \<Rightarrow> (u16 list \<times> u16) option) \<Rightarrow> cli_env \<Rightarrow> rstring \<Rightarrow> files \<Rightarrow> files list \<times> (cli_error + unit)" where
  "cli_select_server v6 env address fs =
     (case load_prefs env fs of
        Inl e \<Rightarrow> ([fs], Inl (CliPreferences e))
      | Inr prefs \<Rightarrow>
          if address = ascii ''auto'' then save_prefs env (prefs\<lparr>pf_server := None\<rparr>) fs
          else case parse_socket_addr v6 address of
             None \<Rightarrow> ([fs], Inl ServerAddress)
           | Some endpoint \<Rightarrow>
               if (case sock_ip endpoint of V4 _ \<Rightarrow> False | V6 _ \<Rightarrow> True) \<or> sock_port endpoint = 0
               then ([fs], Inl ServerNotIpv4)
               else save_prefs env (prefs\<lparr>pf_server := Some address\<rparr>) fs)"

definition cli_device :: "cli_env \<Rightarrow> nat option \<Rightarrow> nat option \<Rightarrow> bool \<Rightarrow> files \<Rightarrow> files list \<times> (cli_error + unit)" where
  "cli_device env output capture reset fs =
     (case load_prefs env fs of
        Inl e \<Rightarrow> ([fs], Inl (CliPreferences e))
      | Inr p \<Rightarrow>
          (let p = (if reset then p\<lparr>pf_output_device := None, pf_capture_device := None\<rparr> else p);
               p = (if output \<noteq> None then p\<lparr>pf_output_device := output\<rparr> else p);
               p = (if capture \<noteq> None then p\<lparr>pf_capture_device := capture\<rparr> else p)
           in save_prefs env p fs))"

definition option_list :: "'a option list \<Rightarrow> 'a list" where
  "option_list xs = concat (map (\<lambda>x. case x of None \<Rightarrow> [] | Some y \<Rightarrow> [y]) xs)"

text \<open>\<open>mk\<close> builds the JSON arguments; \<open>ctl\<close> is the control request with its token and command.\<close>

definition cli_volume ::
  "(rstring \<Rightarrow> rstring \<Rightarrow> 'j \<Rightarrow> control_error + 'b control_response) \<Rightarrow> (flt option \<Rightarrow> rstring option \<Rightarrow> flt option \<Rightarrow> 'j)
    \<Rightarrow> cli_env \<Rightarrow> flt option \<Rightarrow> rstring option \<Rightarrow> flt option \<Rightarrow> files \<Rightarrow> files list \<times> (cli_error + unit)" where
  "cli_volume ctl mk env master stm gain fs =
     (if master = None \<and> (stm = None \<or> gain = None) then ([fs], Inl VolumeUsage)
      else if list_ex (\<lambda>g. \<not> is_finite g \<or> \<not> (flt_ge g (Fin 0) \<and> flt_ge (Fin 2) g)) (option_list [master, gain])
      then ([fs], Inl GainRange)
      else case cli_token env fs of
         Inl e \<Rightarrow> ([fs], Inl e)
       | Inr tok \<Rightarrow>
           (case ctl tok (ascii ''volume'') (mk master stm gain) of
              Inl e \<Rightarrow> ([fs], Inl (CliControl e))
            | Inr r \<Rightarrow>
                if \<not> cs_ok r then ([fs], Inl CliRefused)
                else case master of
                   None \<Rightarrow> ([fs], Inr ())
                 | Some g \<Rightarrow>
                     (case load_prefs env fs of
                        Inl e \<Rightarrow> ([fs], Inl (CliPreferences e))
                      | Inr p \<Rightarrow> save_prefs env (p\<lparr>pf_master_gain := Some (fcast F32 g)\<rparr>) fs)))"

definition cli_status ::
  "(rstring \<Rightarrow> rstring \<Rightarrow> 'j \<Rightarrow> control_error + 'b control_response) \<Rightarrow> 'j \<Rightarrow> cli_env \<Rightarrow> files \<Rightarrow> cli_error + 'b" where
  "cli_status ctl empty_args env fs =
     (case cli_token env fs of
        Inl e \<Rightarrow> Inl e
      | Inr tok \<Rightarrow>
          (case ctl tok (ascii ''status'') empty_args of
             Inl e \<Rightarrow> Inl (CliControl e)
           | Inr r \<Rightarrow> if \<not> cs_ok r then Inl CliRefused else Inr (cs_body r)))"

section \<open>Daemons\<close>

record server_options =
  vo_listen :: socket_addr
  vo_name :: rstring
  vo_device :: "nat option"
  vo_backend :: playback_backend
  vo_discovery :: bool

record sender_options =
  so_to :: "rstring option"
  so_peer :: "rstring option"
  so_source :: capture_source
  so_name :: rstring
  so_device :: "nat option"

definition default_hostname :: "cli_env \<Rightarrow> rstring" where
  "default_hostname env = (case ce_hostname env of Some h \<Rightarrow> h | None \<Rightarrow> ascii ''remote-au'')"

definition or_else :: "'a option \<Rightarrow> 'a option \<Rightarrow> 'a option" where
  "or_else x y = (case x of Some v \<Rightarrow> Some v | None \<Rightarrow> y)"

definition cli_server ::
  "(rstring \<Rightarrow> (u16 list \<times> u16) option) \<Rightarrow> cli_env \<Rightarrow> rstring \<Rightarrow> rstring option \<Rightarrow> nat option \<Rightarrow> bool \<Rightarrow> bool \<Rightarrow> files
    \<Rightarrow> cli_error + server_options" where
  "cli_server v6 env addr name device no_discovery null_playback fs =
     (case cli_token env fs of
        Inl e \<Rightarrow> Inl e
      | Inr _ \<Rightarrow>
     (case load_prefs env fs of
        Inl e \<Rightarrow> Inl (CliPreferences e)
      | Inr prefs \<Rightarrow>
     (case parse_socket_addr v6 addr of
        None \<Rightarrow> Inl ListenAddress
      | Some listen \<Rightarrow>
          Inr \<lparr>vo_listen = listen, vo_name = (case name of Some n \<Rightarrow> n | None \<Rightarrow> default_hostname env),
               vo_device = or_else device (pf_output_device prefs),
               vo_backend = (if null_playback then NullBackend else Cpal), vo_discovery = (\<not> no_discovery)\<rparr>)))"

definition capture_source_of :: "rstring \<Rightarrow> capture_source" where
  "capture_source_of s =
     (if s = ascii ''loopback'' then Loopback else if s = ascii ''mic'' then Microphone
      else if s = ascii ''synth'' then Synthetic else Null)"

definition cli_send ::
  "(rstring \<Rightarrow> (u16 list \<times> u16) option) \<Rightarrow> cli_env \<Rightarrow> rstring option \<Rightarrow> rstring option \<Rightarrow> rstring \<Rightarrow> rstring option
    \<Rightarrow> nat option \<Rightarrow> files \<Rightarrow> cli_error + sender_options" where
  "cli_send v6 env to_opt peer source name device fs =
     (case cli_token env fs of
        Inl e \<Rightarrow> Inl e
      | Inr _ \<Rightarrow>
     (case load_prefs env fs of
        Inl e \<Rightarrow> Inl (CliPreferences e)
      | Inr prefs \<Rightarrow>
          (let chosen_to = or_else to_opt (pf_server prefs)
           in case (case chosen_to of
                      None \<Rightarrow> Inr ()
                    | Some target \<Rightarrow>
                        (case parse_socket_addr v6 target of
                           None \<Rightarrow> Inl SendAddress
                         | Some endpoint \<Rightarrow>
                             if (case sock_ip endpoint of V4 _ \<Rightarrow> False | V6 _ \<Rightarrow> True) \<or> sock_port endpoint = 0
                             then Inl SendNotIpv4 else Inr ())) of
                Inl e \<Rightarrow> Inl e
              | Inr _ \<Rightarrow>
                  (case load_pairing env fs of
                     Inl e \<Rightarrow> Inl (CliPairing e)
                   | Inr pairing \<Rightarrow>
                       Inr \<lparr>so_to = chosen_to, so_peer = or_else peer (Option.bind pairing pc_receiver_name),
                            so_source = capture_source_of source,
                            so_name = (case name of Some n \<Rightarrow> n | None \<Rightarrow> default_hostname env),
                            so_device = or_else device (pf_capture_device prefs)\<rparr>))))"

section \<open>The command line\<close>

datatype cli_command =
    CmdDevices | CmdPair pair_args | CmdNodes rstring nat | CmdStatus | CmdSelectServer rstring
  | CmdDevice "nat option" "nat option" bool
  | CmdVolume "flt option" "rstring option" "flt option"
  | CmdServer rstring "rstring option" "nat option" bool bool
  | CmdSend "rstring option" "rstring option" rstring "rstring option" "nat option"

definition runs_daemon :: "cli_command \<Rightarrow> bool" where
  "runs_daemon cmd \<longleftrightarrow> (case cmd of CmdServer _ _ _ _ _ \<Rightarrow> True | CmdSend _ _ _ _ _ \<Rightarrow> True | _ \<Rightarrow> False)"

text \<open>The lock of a daemon comes first, then the format; \<open>held\<close> are the locked directories.\<close>

definition cli_prepare ::
  "cli_env \<Rightarrow> bool \<Rightarrow> u32 \<Rightarrow> byte \<Rightarrow> u32 \<Rightarrow> cli_command \<Rightarrow> rstring list \<Rightarrow> (cli_error + audio_format) \<times> rstring list" where
  "cli_prepare env openable rt chans frame_ms cmd held =
     (case (if runs_daemon cmd then acquire_daemon_lock openable (ce_dir env) held else (Inr (), held)) of
        (Inl _, held) \<Rightarrow> (Inl CliLocked, held)
      | (Inr _, held) \<Rightarrow>
          if rt \<noteq> 48000 \<or> chans \<noteq> 2 \<or> frame_ms \<noteq> 5 then (Inl CustomFormat, held)
          else (Inr (audio_format_from_globals rt chans frame_ms), held))"

datatype 'b cli_outcome = CliDone | CliNodes "answer list" | CliStatus 'b | CliServe server_options | CliStream sender_options

text \<open>The commands without the format: the states of the file system and the outcome.\<close>

definition cli_run ::
  "crates \<Rightarrow> (rstring \<Rightarrow> (u16 list \<times> u16) option) \<Rightarrow> (rstring \<Rightarrow> rstring \<Rightarrow> 'j \<Rightarrow> control_error + 'b control_response)
    \<Rightarrow> (flt option \<Rightarrow> rstring option \<Rightarrow> flt option \<Rightarrow> 'j) \<Rightarrow> 'j \<Rightarrow> cli_env \<Rightarrow> byte list \<Rightarrow> bool \<Rightarrow> received_from list
    \<Rightarrow> cli_command \<Rightarrow> files \<Rightarrow> files list \<times> (cli_error + 'b cli_outcome)" where
  "cli_run l v6 ctl mk empty_args env rand bnd rs cmd fs =
     (case cmd of
        CmdDevices \<Rightarrow> ([fs], Inr CliDone)
      | CmdPair a \<Rightarrow> map_prod id (map_sum id (\<lambda>_. CliDone)) (cli_pair l env rand a fs)
      | CmdNodes name timeout_ms \<Rightarrow> ([fs], map_sum id CliNodes (cli_nodes l env name timeout_ms rand bnd rs fs))
      | CmdStatus \<Rightarrow> ([fs], map_sum id CliStatus (cli_status ctl empty_args env fs))
      | CmdSelectServer address \<Rightarrow> map_prod id (map_sum id (\<lambda>_. CliDone)) (cli_select_server v6 env address fs)
      | CmdDevice output capture reset \<Rightarrow> map_prod id (map_sum id (\<lambda>_. CliDone)) (cli_device env output capture reset fs)
      | CmdVolume master stm gain \<Rightarrow> map_prod id (map_sum id (\<lambda>_. CliDone)) (cli_volume ctl mk env master stm gain fs)
      | CmdServer addr name device no_discovery null_playback \<Rightarrow>
          ([fs], map_sum id CliServe (cli_server v6 env addr name device no_discovery null_playback fs))
      | CmdSend to_opt peer source name device \<Rightarrow>
          ([fs], map_sum id CliStream (cli_send v6 env to_opt peer source name device fs)))"

section \<open>What the commands leave behind\<close>

text \<open>
  A save that reports success is read back (\<open>prefs_json\<close>, the documented behaviour of the JSON crate on
  the preferences) and touches no other file. One that fails changes nothing, except that on Windows
  the file can be gone.
\<close>

definition prefs_gone :: "cli_env \<Rightarrow> files \<Rightarrow> files \<Rightarrow> bool" where
  "prefs_gone env fs fs' \<longleftrightarrow> we_windows (ce_write env)
     \<and> fs (preferences_path (ce_dir env)) \<noteq> None \<and> fs' (preferences_path (ce_dir env)) = None"

lemma save_prefs_fst: "fst (save_prefs env p fs) = fst (save_preferences (ce_pref_ser env) (ce_write env) (ce_dir env) p fs)"
  by (simp add: save_prefs_def split: prod.split sum.split)

lemma save_prefs_done:
  assumes "prefs_json (ce_pref_ser env) (ce_pref_de env) gain" "save_prefs env p fs = (states, Inr ())"
  shows "ce_readable env \<Longrightarrow> load_prefs env (last states) = Inr (read_back gain p)"
    and "q \<noteq> preferences_path (ce_dir env) \<Longrightarrow> last states q = fs q"
proof -
  have s: "snd (save_preferences (ce_pref_ser env) (ce_write env) (ce_dir env) p fs) = Inr ()"
    "fst (save_preferences (ce_pref_ser env) (ce_write env) (ce_dir env) p fs) = states"
    using assms(2) by (auto simp: save_prefs_def split: prod.splits sum.splits)
  show "ce_readable env \<Longrightarrow> load_prefs env (last states) = Inr (read_back gain p)"
    "q \<noteq> preferences_path (ce_dir env) \<Longrightarrow> last states q = fs q"
    using saved_loads[OF assms(1) s(1)] s(2) by (simp_all add: load_prefs_def)
qed

lemma save_prefs_failed:
  assumes "save_prefs env p fs = (states, Inl e)"
  shows "load_prefs env (last states) = load_prefs env fs \<or> (prefs_gone env fs (last states) \<and> e = CliPreferences StoreIo)"
proof -
  have s: "snd (save_preferences (ce_pref_ser env) (ce_write env) (ce_dir env) p fs) \<noteq> Inr ()"
    "fst (save_preferences (ce_pref_ser env) (ce_write env) (ce_dir env) p fs) = states"
    using assms by (auto simp: save_prefs_def split: prod.splits sum.splits)
  show ?thesis
  proof (cases "ce_pref_ser env p")
    case None
    then show ?thesis using assms by (auto simp: save_prefs_def save_preferences_def)
  next
    case (Some bs)
    then have "e = CliPreferences StoreIo"
      using assms by (auto simp: save_prefs_def save_preferences_def split: prod.splits sum.splits)
    with failed_save[OF s(1)] s(2) show ?thesis by (auto simp: prefs_gone_def load_prefs_def load_preferences_def)
  qed
qed

lemma token_readable: "cli_token env fs = Inr tok \<Longrightarrow> ce_readable env"
  by (auto simp: cli_token_def load_pairing_def pairing_load_def split: sum.splits option.splits if_splits)

text \<open>
  C32. A receiver selected with \<open>select-server\<close> is the one the next \<open>send\<close> without \<open>--to\<close> talks to: it
  passes the checks of \<open>send\<close>, and the sender asks exactly that address; \<open>auto\<close> clears the choice. Of
  the JSON crate it uses that it reads back the strings and integers it printed. It holds on Unix and
  on Windows alike.
\<close>

theorem selected_server_is_target:
  assumes "prefs_json (ce_pref_ser env) (ce_pref_de env) gain" and "cli_select_server v6 env address fs = (states, Inr ())"
    and "cli_send v6 env None peer source name device (last states) = Inr opts"
  shows "if address = ascii ''auto'' then so_to opts = None
    else so_to opts = Some address
      \<and> (\<exists>ip port. parse_socket_addr v6 address = Some (V4 ip, port) \<and> port \<noteq> 0
          \<and> target_of v6 (so_to opts) (so_peer opts) = \<lparr>tg_ips = [ip], tg_port = Some port, tg_name = so_peer opts\<rparr>
          \<and> direct_sockets [ip] (Some port) = [(V4 ip, port)])"
proof -
  obtain prefs where prefs: "load_prefs env fs = Inr prefs"
    using assms(2) by (cases "load_prefs env fs") (simp_all add: cli_select_server_def)
  define srv where "srv = (if address = ascii ''auto'' then None else Some address)"
  have save: "save_prefs env (prefs\<lparr>pf_server := srv\<rparr>) fs = (states, Inr ())"
    using assms(2) prefs by (auto simp: cli_select_server_def srv_def split: if_splits option.splits)
  have "\<exists>tok. cli_token env (last states) = Inr tok"
    using assms(3) by (cases "cli_token env (last states)") (auto simp: cli_send_def)
  then have "ce_readable env" using token_readable by blast
  from save_prefs_done(1)[OF assms(1) save this]
  have "load_prefs env (last states) = Inr (read_back gain (prefs\<lparr>pf_server := srv\<rparr>))" .
  then have to_opt: "so_to opts = srv"
    using assms(3) by (auto simp: cli_send_def or_else_def read_back_def Let_def split: sum.splits option.splits if_splits)
  show ?thesis
  proof (cases "address = ascii ''auto''")
    case True
    then show ?thesis using to_opt by (simp add: srv_def)
  next
    case False
    then obtain endpoint where e: "parse_socket_addr v6 address = Some endpoint"
      "\<not> ((case sock_ip endpoint of V4 _ \<Rightarrow> False | V6 _ \<Rightarrow> True) \<or> sock_port endpoint = 0)"
      using assms(2) prefs by (auto simp: cli_select_server_def split: if_splits option.splits)
    obtain a port where ep: "endpoint = (a, port)" by (cases endpoint)
    with e(2) obtain ip where "a = V4 ip" "port \<noteq> 0" by (cases a) (auto simp: sock_ip_def sock_port_def)
    with e(1) ep to_opt False show ?thesis
      by (cases ip) (simp add: srv_def target_of_def direct_sockets_def sock_ip_def sock_port_def)
  qed
qed

text \<open>
  C33. A master gain that \<open>volume\<close> reports as set is a number in [0, 2], and the receiver that starts
  next has it, rounded to \<open>f32\<close>, provided the JSON crate reads the text it prints for this one \<open>f32\<close>
  back as the same number (of the other preferences only that strings and integers are read back).
  It holds on Unix and on Windows alike.
\<close>

theorem master_gain_survives_restart:
  assumes "prefs_json (ce_pref_ser env) (ce_pref_de env) reread" and "reread (fcast F32 g) = Some (fcast F32 g)"
    and "cli_volume ctl mk env (Some g) stm gain fs = (states, Inr ())"
    and "server_start l fmt loaded (load_prefs env (last states)) device ep = Inr (invt, sr)"
  shows "\<exists>r. g = Fin r \<and> 0 \<le> r \<and> r \<le> 2 \<and> mx_master_gain (sr_mixer sr) = Fin (rnd F32 r)"
proof -
  have in_list: "g \<in> set (option_list [Some g, gain])" by (simp add: option_list_def)
  have ok: "\<not> list_ex (\<lambda>g. \<not> is_finite g \<or> \<not> (flt_ge g (Fin 0) \<and> flt_ge (Fin 2) g)) (option_list [Some g, gain])"
    using assms(3) by (auto simp: cli_volume_def split: if_splits)
  then have "is_finite g \<and> flt_ge g (Fin 0) \<and> flt_ge (Fin 2) g" using in_list by (auto simp: list_ex_iff)
  then obtain r where r: "g = Fin r" "0 \<le> r" "r \<le> 2" by (cases g) (auto simp: flt_ge_def)
  have f: "fl F32 r = Fin (rnd F32 r)" "0 \<le> rnd F32 r" "rnd F32 r \<le> 2"
    using fl_between[of F32 0 2 r] representable_int[of 0 F32] representable_int[of 2 F32] r(2,3)
    by (simp_all add: pow2_numeral)
  have "\<exists>p. load_prefs env fs = Inr p \<and> save_prefs env (p\<lparr>pf_master_gain := Some (fl F32 r)\<rparr>) fs = (states, Inr ())"
    using assms(3) r(1) unfolding cli_volume_def
    by (auto split: if_splits sum.splits)
  then obtain p where "save_prefs env (p\<lparr>pf_master_gain := Some (fl F32 r)\<rparr>) fs = (states, Inr ())" by blast
  moreover have "\<exists>tok. cli_token env fs = Inr tok"
    using assms(3) by (cases "cli_token env fs") (auto simp: cli_volume_def split: if_splits)
  then have "ce_readable env" using token_readable by blast
  ultimately have "load_prefs env (last states) = Inr (read_back reread (p\<lparr>pf_master_gain := Some (fl F32 r)\<rparr>))"
    using save_prefs_done(1)[OF assms(1)] by blast
  then have "load_prefs env (last states) = Inr (p\<lparr>pf_master_gain := Some (fl F32 r)\<rparr>)"
    using assms(2) r(1) by (simp add: read_back_def)
  with assms(4) f have "mx_master_gain (sr_mixer sr) = Fin (rnd F32 r)"
    by (auto simp: server_start_def Let_def set_master_gain_def flt_clamp_def split: sum.splits)
  with r show ?thesis by blast
qed

text \<open>
  C34. A \<open>select-server\<close>, \<open>device\<close> or \<open>volume\<close> command that reports an error leaves the preferences as
  they were, with one exception: on Windows, where an existing file is removed before the new one is
  renamed, an error of writing the preferences can leave none, and the next start has the defaults.
\<close>

theorem failed_command_keeps_preferences:
  assumes "(states, Inl e) \<in> {cli_select_server v6 env address fs, cli_device env output capture reset fs,
      cli_volume ctl mk env master stm gain fs}"
  shows "load_prefs env (last states) = load_prefs env fs
    \<or> (we_windows (ce_write env) \<and> e = CliPreferences StoreIo \<and> load_prefs env (last states) = Inr default_preferences)"
proof -
  have save: "load_prefs env (last ss) = load_prefs env fs
      \<or> (we_windows (ce_write env) \<and> e = CliPreferences StoreIo \<and> load_prefs env (last ss) = Inr default_preferences)"
    if "save_prefs env p fs = (ss, Inl e)" for p ss
    using save_prefs_failed[OF that] by (auto simp: prefs_gone_def load_prefs_def load_preferences_def)
  from assms consider "cli_select_server v6 env address fs = (states, Inl e)"
    | "cli_device env output capture reset fs = (states, Inl e)" | "cli_volume ctl mk env master stm gain fs = (states, Inl e)"
    by auto
  then show ?thesis
  proof cases
    case 1
    then show ?thesis using save by (auto simp: cli_select_server_def split: sum.splits if_splits option.splits)
  next
    case 2
    then show ?thesis using save by (auto simp: cli_device_def Let_def split: sum.splits if_splits)
  next
    case 3
    then show ?thesis using save by (auto simp: cli_volume_def split: sum.splits if_splits option.splits)
  qed
qed

section \<open>Pairing\<close>

definition hex_char_of :: "nat \<Rightarrow> bool" where
  "hex_char_of c \<longleftrightarrow> (48 \<le> c \<and> c \<le> 57) \<or> (65 \<le> c \<and> c \<le> 70) \<or> (97 \<le> c \<and> c \<le> 102)"

text \<open>The hex crate reads 64 hex digits, of either case, as 32 bytes.\<close>

definition hex_reads :: "crates \<Rightarrow> bool" where
  "hex_reads l \<longleftrightarrow> (\<forall>s. length s = 64 \<longrightarrow> list_all hex_char_of s \<longrightarrow> (\<exists>bs. hex_decode l s = Some bs \<and> length bs = 32))"

lemma hex_byte_small: "n < 256 \<Longrightarrow> ascii_hexdigit (of_nat n) \<Longrightarrow> hex_char_of n"
  by (auto simp: ascii_hexdigit_def hex_char_of_def word_le_nat_alt unat_byte_of)

lemma hex_utf8_char:
  assumes "list_all ascii_hexdigit (utf8_char c)"
  shows "hex_char_of c \<and> len_utf8 c = 1"
proof (cases "c < 128")
  case True
  then show ?thesis using assms hex_byte_small[of c] by (simp add: utf8_char_def len_utf8_def)
next
  case False
  then have "ascii_hexdigit (of_nat (128 + c mod 64))" using assms by (auto simp: utf8_char_def split: if_splits)
  moreover have "128 + c mod 64 < 256" using mod_less_divisor[of 64 c] by linarith
  ultimately have "hex_char_of (128 + c mod 64)" using hex_byte_small by blast
  then show ?thesis by (simp add: hex_char_of_def)
qed

lemma valid_token_chars:
  assumes "valid_token s"
  shows "list_all hex_char_of s" "length s = 64"
proof -
  have "list_all ascii_hexdigit (utf8 s) \<Longrightarrow> list_all hex_char_of s \<and> length s = str_len s" for s
  proof (induction s)
    case Nil
    then show ?case by simp
  next
    case (Cons c s)
    then have "list_all ascii_hexdigit (utf8_char c)" "list_all ascii_hexdigit (utf8 s)" by (simp_all add: utf8_def)
    with Cons.IH hex_utf8_char[of c] show ?case by simp
  qed
  with assms show "list_all hex_char_of s" "length s = 64" by (auto simp: valid_token_def)
qed

lemma valid_token_parses:
  assumes "hex_reads l" "valid_token s"
  shows "\<exists>raw. parse_invitation l s = Inr raw"
proof -
  note c = valid_token_chars[OF assms(2)]
  have "list_all (\<lambda>c. \<not> is_whitespace c) s"
    using c(1) by (auto simp: list_all_iff hex_char_of_def is_whitespace_def)
  then have "trim s = s" by (simp add: trim_def dropWhile_all_id list_all_iff)
  with assms(1) c show ?thesis by (auto simp: hex_reads_def parse_invitation_def TOKEN_BYTES_def)
qed

lemma generated_parses:
  assumes "hex_ok l" "length rand = 32"
  shows "parse_invitation l (generate_invitation_token l rand) = Inr rand"
proof -
  have "list_all (\<lambda>c. \<not> is_whitespace c) (hex_encode l rand)"
    using assms(1) hex_digit_not_space by (auto simp: hex_ok_def list_all_iff)
  then have "trim (hex_encode l rand) = hex_encode l rand" by (simp add: trim_def dropWhile_all_id list_all_iff)
  with assms show ?thesis by (simp add: parse_invitation_def generate_invitation_token_def hex_ok_def TOKEN_BYTES_def)
qed

text \<open>The documented behaviour of the JSON crate on a pairing: it reads back what it printed.\<close>

definition pairing_json :: "(pairing_config \<Rightarrow> rstring option) \<Rightarrow> (rstring \<Rightarrow> pairing_config option) \<Rightarrow> bool" where
  "pairing_json ser de \<longleftrightarrow> (\<forall>cfg t. ser cfg = Some t \<longrightarrow> valid_string t \<and> de t = Some cfg)"

lemma saved_pairing_loads:
  assumes "pairing_json (ce_pair_ser env) (ce_pair_de env)" "ce_readable env" "save_pairing env cfg fs = (states, Inr ())"
  shows "load_pairing env (last states) = Inr (Some cfg)"
proof -
  obtain t where t: "ce_pair_ser env cfg = Some t"
    using assms(3) by (cases "ce_pair_ser env cfg") (auto simp: save_pairing_def pairing_save_def split: if_splits)
  then have de: "ce_pair_de env t = Some cfg" "valid_string t" using assms(1) unfolding pairing_json_def by blast+
  have "last states (pairing_path (ce_dir env)) \<noteq> None
      \<and> map_option fi_data (last states (pairing_path (ce_dir env))) = Some (utf8 t)"
    using assms(3) t by (auto simp: save_pairing_def pairing_save_def Let_def split: if_splits sum.splits option.splits)
  then show ?thesis using de assms(2) from_utf8_utf8[of t]
    by (auto simp: load_pairing_def pairing_load_def split: option.splits)
qed

lemma write_steps_elsewhere:
  "q \<noteq> p \<Longrightarrow> q \<noteq> tmp \<Longrightarrow> \<forall>s \<in> set (fst (write_steps e tmp p bs fs)). s q = fs q"
  by (auto simp: write_steps_def Let_def split: option.splits)

lemma private_write_elsewhere:
  assumes "q \<noteq> p" "q \<noteq> tmp_path p (we_pid e) (we_rand e)"
  shows "last (fst (private_write e p bs fs)) q = fs q"
proof -
  obtain ss ok where w: "write_steps e (tmp_path p (we_pid e) (we_rand e)) p bs fs = (ss, ok)"
    by (cases "write_steps e (tmp_path p (we_pid e) (we_rand e)) p bs fs")
  then have "\<forall>s \<in> set (fs # ss). s q = fs q" using write_steps_elsewhere[OF assms, of e bs fs] by simp
  then have "last (fs # ss) q = fs q" using last_in_set[of "fs # ss"] by blast
  then show ?thesis using w assms(2) by (cases "ss = []") (simp_all add: private_write_def Let_def)
qed

lemma tmp_not_pairing: "tmp_path p pid r \<noteq> pairing_path dir"
proof
  assume "tmp_path p pid r = pairing_path dir"
  then have "last (snd (tmp_path p pid r)) = 110" by (simp add: pairing_path_def ascii_def)
  moreover have "last (snd (tmp_path p pid r)) = hex_char (unat r mod 16)"
    using hex_pad.simps(2)[of 15 "unat r"] by (simp add: tmp_path_def with_extension_def)
  moreover have "unat r mod 16 < 16" by simp
  ultimately show False unfolding hex_char_def by (auto split: if_splits)
qed

lemma export_keeps_pairing:
  assumes "load_pairing env fs = Inr (Some cfg)" "fs dst = None"
    and w: "private_write (ce_write env) dst bs fs = (states, Inr ())"
  shows "load_pairing env (last states) = load_pairing env fs"
proof -
  have "fs (pairing_path (ce_dir env)) \<noteq> None"
    using assms(1) by (auto simp: load_pairing_def pairing_load_def split: option.splits)
  then have "pairing_path (ce_dir env) \<noteq> dst" using assms(2) by auto
  from private_write_elsewhere[OF this tmp_not_pairing[symmetric], where e = "ce_write env" and bs = bs and fs = fs] w
  have "last states (pairing_path (ce_dir env)) = fs (pairing_path (ce_dir env))" by simp
  then show ?thesis by (simp add: load_pairing_def pairing_load_def)
qed

text \<open>
  C35. Pairing. Showing and exporting leave the pairing as it is. Any other successful \<open>pair\<close> leaves
  a pairing with which the daemons start: the token imported, checked to be 64 hex digits, or a
  fresh one, and the latter only when there was none or the group is rotated. Assumed are the
  documented behaviour of the crates (the JSON of a pairing is read back, 64 hex digits are read as
  32 bytes and printed bytes are read back) and that the file can be read again; it holds on Unix and
  on Windows alike.
\<close>

theorem pairing_commands:
  assumes "pairing_json (ce_pair_ser env) (ce_pair_de env)" and "ce_readable env"
    and "hex_ok l" and "hex_reads l" and "length rand = 32"
    and "cli_pair l env rand a fs = (states, Inr ())"
  shows "if pa_show a \<or> (pa_import a = None \<and> pa_export a \<noteq> None)
    then load_pairing env (last states) = load_pairing env fs
    else (\<exists>cfg. load_pairing env (last states) = Inr (Some cfg)
      \<and> load_invitation l (load_pairing env (last states)) = Inr (pc_token cfg)
      \<and> (case pa_import a of
           Some file \<Rightarrow> \<exists>f cfg'. fs file = Some f \<and> ce_pair_slice env (fi_data f) = Some cfg' \<and> pc_token cfg = pc_token cfg'
         | None \<Rightarrow> pc_token cfg = generate_invitation_token l rand \<and> (load_pairing env fs = Inr None \<or> pa_rotate a)))"
proof -
  obtain old where old: "load_pairing env fs = Inr old"
    using assms(6) by (cases "load_pairing env fs") (simp_all add: cli_pair_def)
  have starts: "load_invitation l (Inr (Some cfg)) = Inr (pc_token cfg)" if "\<exists>raw. parse_invitation l (pc_token cfg) = Inr raw" for cfg
    using that by (auto simp: load_invitation_def)
  show ?thesis
  proof (cases "pa_show a")
    case True
    then show ?thesis using assms(6) old by (auto simp: cli_pair_def)
  next
    case no_show: False
    show ?thesis
    proof (cases "pa_import a")
      case (Some src)
      then obtain f cfg' cfg where f: "fs src = Some f" "ce_pair_slice env (fi_data f) = Some cfg'" "valid_token (pc_token cfg')"
        "cfg = (if pa_receiver_name a \<noteq> None then cfg'\<lparr>pc_receiver_name := pa_receiver_name a\<rparr> else cfg')"
        "save_pairing env cfg fs = (states, Inr ())"
        using assms(6) old no_show
        by (auto simp: cli_pair_def Let_def split: if_splits option.splits prod.splits sum.splits)
      then have "pc_token cfg = pc_token cfg'" by simp
      with f Some no_show saved_pairing_loads[OF assms(1,2) f(5)] starts[of cfg] valid_token_parses[OF assms(4)] show ?thesis by simp
    next
      case no_import: None
      show ?thesis
      proof (cases "pa_export a")
        case (Some src)
        then obtain cfg t where e: "old = Some cfg" "fs src = None"
          "private_write (ce_write env) src (utf8 t) fs = (states, Inr ())"
          using assms(6) old no_show no_import
          by (auto simp: cli_pair_def split: if_splits option.splits prod.splits sum.splits)
        show ?thesis
          using export_keeps_pairing[OF _ e(2,3)] old e(1) Some no_import by simp
      next
        case None
        let ?cfg = "\<lparr>pc_token = generate_invitation_token l rand, pc_receiver_name = pa_receiver_name a\<rparr>"
        have s: "save_pairing env ?cfg fs = (states, Inr ())" "old = None \<or> pa_rotate a"
          using assms(6) old no_show no_import None
          by (auto simp: cli_pair_def split: if_splits prod.splits sum.splits)
        have "\<exists>raw. parse_invitation l (pc_token ?cfg) = Inr raw" using generated_parses[OF assms(3,5)] by simp
        from starts[OF this] saved_pairing_loads[OF assms(1,2) s(1)] s(2) old None no_import no_show show ?thesis by simp
      qed
    qed
  qed
qed

section \<open>A configuration at work\<close>

text \<open>A JSON crate that reads back what it wrote: two files' worth of it.\<close>

definition demo_pref :: preferences where
  "demo_pref = default_preferences\<lparr>pf_server := Some (show_v4_socket (10, 0, 0, 2) 47000)\<rparr>"

definition demo_cli :: cli_env where
  "demo_cli = \<lparr>ce_dir = [], ce_write = demo_write, ce_unix = True, ce_mkdir = True, ce_default_mode = 420,
     ce_wrote = Inr (), ce_chmod = True, ce_readable = True,
     ce_pair_ser = (\<lambda>cfg. if cfg = \<lparr>pc_token = demo_token, pc_receiver_name = None\<rparr> then Some [97] else None),
     ce_pair_de = (\<lambda>t. Some \<lparr>pc_token = demo_token, pc_receiver_name = None\<rparr>), ce_pair_slice = (\<lambda>b. None),
     ce_pref_ser = (\<lambda>p. if p = demo_pref then Some [1]
        else if p = default_preferences\<lparr>pf_master_gain := Some (fl F32 1)\<rparr> then Some [2] else None),
     ce_pref_de = (\<lambda>b. if b = [1] then Some demo_pref else Some (default_preferences\<lparr>pf_master_gain := Some (fl F32 1)\<rparr>)),
     ce_hostname = None\<rparr>"

definition demo_files :: files where
  "demo_files = [pairing_path [] \<mapsto> \<lparr>fi_data = [97], fi_mode = 384\<rparr>]"

lemma demo_json:
  "prefs_json (ce_pref_ser demo_cli) (ce_pref_de demo_cli) demo_gain"
  "pairing_json (ce_pair_ser demo_cli) (ce_pair_de demo_cli)" "ce_readable demo_cli"
  by (auto simp: prefs_json_def pairing_json_def read_back_def demo_gain_def demo_cli_def valid_string_def scalar_def
      demo_pref_def default_preferences_def fl_int[of 1, simplified])

abbreviation demo_address :: rstring where
  "demo_address \<equiv> show_v4_socket (10, 0, 0, 2) 47000"

lemma demo_saved: "\<exists>states. private_write demo_write p bs demo_files = (states, Inr ())"
  using tmp_not_pairing[of p 7 9 "[]"]
  by (simp add: private_write_def write_steps_def demo_write_def demo_files_def Let_def)

lemma demo_load: "load_prefs demo_cli demo_files = Inr default_preferences"
  by (simp add: load_prefs_def load_preferences_def demo_files_def preferences_path_def pairing_path_def ascii_def)

lemma demo_select: "\<exists>states. cli_select_server (\<lambda>_. None) demo_cli demo_address demo_files = (states, Inr ())"
proof -
  have a: "demo_address \<noteq> ascii ''auto''"
    by (simp add: show_v4_socket_def show_v4_def digits.simps[of 10] digits.simps[of 1] ascii_def)
  have "default_preferences\<lparr>pf_server := Some demo_address\<rparr> = demo_pref" by (simp add: demo_pref_def)
  then have "ce_pref_ser demo_cli (default_preferences\<lparr>pf_server := Some demo_address\<rparr>) = Some [1]" by (simp add: demo_cli_def)
  moreover obtain states where "private_write demo_write (preferences_path []) [1] demo_files = (states, Inr ())"
    using demo_saved[of "preferences_path []" "[1]"] by blast
  moreover have "ce_write demo_cli = demo_write" "ce_dir demo_cli = []" by (simp_all add: demo_cli_def)
  ultimately have "save_prefs demo_cli (default_preferences\<lparr>pf_server := Some demo_address\<rparr>) demo_files = (states, Inr ())"
    by (simp add: save_prefs_def save_preferences_def)
  then show ?thesis using a socket_text[of "(10, 0, 0, 2)" 47000] demo_load
    by (simp add: cli_select_server_def parse_socket_addr_def sock_ip_def sock_port_def)
qed

lemma demo_cli_token: "cli_token demo_cli fs = (if fs (pairing_path []) = None then Inl CliNotPaired
    else if from_utf8 (fi_data (the (fs (pairing_path [])))) = None then Inl (CliPairing CryptoIo) else Inr demo_token)"
  by (auto simp: cli_token_def load_pairing_def pairing_load_def demo_cli_def split: option.split)

theorem selected_server_is_target_witness:
  "\<exists>states opts ip port. cli_select_server (\<lambda>_. None) demo_cli demo_address demo_files = (states, Inr ())
    \<and> cli_send (\<lambda>_. None) demo_cli None None [] None None (last states) = Inr opts
    \<and> target_of (\<lambda>_. None) (so_to opts) (so_peer opts) = \<lparr>tg_ips = [ip], tg_port = Some port, tg_name = so_peer opts\<rparr>"
proof -
  obtain states where sel: "cli_select_server (\<lambda>_. None) demo_cli demo_address demo_files = (states, Inr ())"
    using demo_select by blast
  have a: "demo_address \<noteq> ascii ''auto''"
    by (simp add: show_v4_socket_def show_v4_def digits.simps[of 10] digits.simps[of 1] ascii_def)
  have p: "parse_socket_addr (\<lambda>_. None) demo_address = Some (V4 (10, 0, 0, 2), 47000)"
    using socket_text[of "(10, 0, 0, 2)" 47000] by (simp add: parse_socket_addr_def)
  have sv: "save_prefs demo_cli (default_preferences\<lparr>pf_server := Some demo_address\<rparr>) demo_files = (states, Inr ())"
    using sel a p demo_load by (simp add: cli_select_server_def sock_ip_def sock_port_def)
  have pp: "pairing_path [] \<noteq> preferences_path (ce_dir demo_cli)" by (simp add: pairing_path_def preferences_path_def ascii_def)
  have f: "load_prefs demo_cli (last states) = Inr (default_preferences\<lparr>pf_server := Some demo_address\<rparr>)"
    "last states (pairing_path []) = demo_files (pairing_path [])"
    using save_prefs_done(1)[OF demo_json(1) sv demo_json(3)] save_prefs_done(2)[OF demo_json(1) sv pp]
    by (simp_all add: read_back_def default_preferences_def)
  have u: "from_utf8 [97] = Some [97]" using from_utf8_utf8[of "[97]"] by (simp add: valid_string_def scalar_def utf8_def utf8_char_def)
  have pr: "load_pairing demo_cli (last states) = Inr (Some \<lparr>pc_token = demo_token, pc_receiver_name = None\<rparr>)"
    using f(2) u by (simp add: load_pairing_def pairing_load_def demo_cli_def demo_files_def)
  have "\<exists>opts. cli_send (\<lambda>_. None) demo_cli None None [] None None (last states) = Inr opts"
    using f(1) pr p by (simp add: cli_send_def cli_token_def or_else_def sock_ip_def sock_port_def Let_def)
  then obtain opts where send: "cli_send (\<lambda>_. None) demo_cli None None [] None None (last states) = Inr opts" by blast
  from selected_server_is_target[OF demo_json(1) sel send] a sel send show ?thesis by auto
qed

text \<open>A running receiver that accepts the command.\<close>

theorem master_gain_survives_restart_witness:
  "\<exists>states sr. cli_volume (\<lambda>_ _ _. Inr \<lparr>cs_ok = True, cs_body = ()\<rparr>) (\<lambda>_ _ _. ()) demo_cli (Some (Fin 1)) None None demo_files = (states, Inr ())
    \<and> server_start demo_crates canonical demo_loaded (load_prefs demo_cli (last states)) None (replicate 16 5) = Inr (demo_token, sr)
    \<and> mx_master_gain (sr_mixer sr) = Fin (rnd F32 1)"
proof -
  let ?prefs = "default_preferences\<lparr>pf_master_gain := Some (fl F32 1)\<rparr>"
  have "?prefs \<noteq> demo_pref" by (simp add: demo_pref_def default_preferences_def)
  then have "ce_pref_ser demo_cli ?prefs = Some [2]" by (simp add: demo_cli_def)
  moreover obtain states where "private_write demo_write (preferences_path []) [2] demo_files = (states, Inr ())"
    using demo_saved[of "preferences_path []" "[2]"] by blast
  moreover have "ce_write demo_cli = demo_write" "ce_dir demo_cli = []" by (simp_all add: demo_cli_def)
  ultimately have sv: "save_prefs demo_cli ?prefs demo_files = (states, Inr ())"
    by (simp add: save_prefs_def save_preferences_def)
  have u: "from_utf8 [97] \<noteq> None" using from_utf8_utf8[of "[97]"] by (simp add: valid_string_def scalar_def utf8_def utf8_char_def)
  have tok: "cli_token demo_cli demo_files = Inr demo_token"
    using u unfolding demo_cli_token by (simp add: demo_files_def)
  have vol: "cli_volume (\<lambda>_ _ _. Inr \<lparr>cs_ok = True, cs_body = ()\<rparr>) (\<lambda>_ _ _. ()) demo_cli (Some (Fin 1)) None None demo_files = (states, Inr ())"
    using sv tok demo_load by (simp add: cli_volume_def option_list_def flt_ge_def)
  have re: "demo_gain (fcast F32 (Fin 1)) = Some (fcast F32 (Fin 1))"
    using fl_int[of 1] by (simp add: demo_gain_def)
  have "load_prefs demo_cli (last states) = Inr ?prefs"
    using save_prefs_done(1)[OF demo_json(1) sv demo_json(3)] re by (simp add: read_back_def)
  then have "\<exists>sr. server_start demo_crates canonical demo_loaded (load_prefs demo_cli (last states)) None (replicate 16 5) = Inr (demo_token, sr)"
    by (simp add: server_start_def demo_loaded_def load_invitation_def demo_token_ok require_wire_def canonical_def
        WIRE_RATE_def WIRE_CHANNELS_def WIRE_FRAME_SAMPLES_def Let_def)
  then obtain sr where st: "server_start demo_crates canonical demo_loaded (load_prefs demo_cli (last states)) None (replicate 16 5) = Inr (demo_token, sr)"
    by blast
  from master_gain_survives_restart[OF demo_json(1) re vol st] vol st show ?thesis by auto
qed

theorem failed_command_keeps_preferences_witness:
  "load_prefs demo_cli (last (fst (cli_select_server (\<lambda>_. None) demo_cli [120] demo_files))) = load_prefs demo_cli demo_files"
proof -
  have "parse_socket_addr (\<lambda>_. None) [120] = None"
    by (simp add: parse_socket_addr_def parse_v4_socket_def read_octet_def read_digits_def is_digit_def)
  then have r: "cli_select_server (\<lambda>_. None) demo_cli [120] demo_files = ([demo_files], Inl ServerAddress)"
    using demo_load by (simp add: cli_select_server_def ascii_def)
  then have "([demo_files], Inl ServerAddress) \<in> {cli_select_server (\<lambda>_. None) demo_cli [120] demo_files,
      cli_device demo_cli None None False demo_files,
      cli_volume (\<lambda>_ _ _. Inl NotRunning :: control_error + unit control_response) (\<lambda>_ _ _. ()) demo_cli None None None demo_files}" by simp
  note kept = failed_command_keeps_preferences[OF this]
  have "\<not> we_windows (ce_write demo_cli)" by (simp add: demo_cli_def demo_write_def)
  with kept show ?thesis by (simp add: r)
qed

definition lower :: "nat \<Rightarrow> nat" where
  "lower c = (if 65 \<le> c \<and> c \<le> 70 then c + 32 else c)"

definition hex_crates :: crates where
  "hex_crates = demo_crates\<lparr>hex_decode := \<lambda>s. demo_undigits (map lower s)\<rparr>"

lemma hex_crates_ok: "hex_ok hex_crates" "hex_reads hex_crates"
proof -
  have "map lower s = s" if "list_all hex_digit s" for s
    using that by (induction s) (auto simp: lower_def hex_digit_def)
  then show "hex_ok hex_crates" using demo_hex_ok by (simp add: hex_ok_def hex_crates_def) (simp add: demo_crates_def)
  have dec: "\<exists>bs. demo_undigits s = Some bs \<and> length bs = n" if "length s = 2 * n" "list_all hex_digit s" for s n
    using that
  proof (induction n arbitrary: s)
    case 0
    then show ?case by simp
  next
    case (Suc n)
    then obtain c d s' where "s = c # d # s'" by (metis length_Suc_conv mult_Suc_right numeral_2_eq_2 add_Suc add_0)
    with Suc show ?case by fastforce
  qed
  have "list_all hex_digit (map lower s)" if "list_all hex_char_of s" for s
    using that by (auto simp: list_all_iff hex_char_of_def lower_def hex_digit_def)
  then show "hex_reads hex_crates" using dec[of "map lower _" 32] by (simp add: hex_reads_def hex_crates_def)
qed

theorem pairing_commands_witness:
  "\<exists>states. cli_pair hex_crates demo_cli (replicate 32 7)
      \<lparr>pa_show = False, pa_import = None, pa_export = None, pa_rotate = False, pa_receiver_name = None\<rparr> (\<lambda>q. None) = (states, Inr ())
    \<and> load_invitation hex_crates (load_pairing demo_cli (last states)) = Inr (generate_invitation_token hex_crates (replicate 32 7))"
proof -
  let ?a = "\<lparr>pa_show = False, pa_import = None, pa_export = None, pa_rotate = False, pa_receiver_name = None\<rparr>"
  have g: "generate_invitation_token hex_crates (replicate 32 7) = demo_token"
    by (simp add: hex_crates_def demo_token_def generate_invitation_token_def)
  have "\<exists>states. cli_pair hex_crates demo_cli (replicate 32 7) ?a (\<lambda>q. None) = (states, Inr ())"
    by (simp add: cli_pair_def load_pairing_def pairing_load_def save_pairing_def pairing_save_def demo_cli_def Let_def g)
  then obtain states where p: "cli_pair hex_crates demo_cli (replicate 32 7) ?a (\<lambda>q. None) = (states, Inr ())" by blast
  have "length (replicate 32 7 :: byte list) = 32" by simp
  from pairing_commands[OF demo_json(2,3) hex_crates_ok this p] p show ?thesis by auto
qed

end
