(* ===== verification/Loopback_Worker.thy ===== *)
theory Loopback_Worker
  imports Capture Addr_Text
begin

text \<open>
  \<open>src/src/audio/capture.rs\<close>: the list of input devices and the thread that captures what Windows plays.
  The thread opens the render endpoint, polls it until something goes wrong, and tries again until it
  is told to stop; \<open>Capture\<close> has one poll and the loop of one opening. The calls into \<open>cpal\<close> and
  \<open>wasapi\<close> are arguments: each is its error text or what it returns.
\<close>

section \<open>Input devices\<close>

text \<open>\<open>devices\<close>: the host's input devices, each the outcome of asking for its name.\<close>

definition list_capture_devices :: "rstring + (rstring + rstring) list \<Rightarrow> (nat \<times> rstring) list" where
  "list_capture_devices devices =
     (case devices of
        Inl _ \<Rightarrow> []
      | Inr ds \<Rightarrow> map (\<lambda>(i, d). (i, case d of Inr name \<Rightarrow> name | Inl _ \<Rightarrow> ascii ''input-'' @ digits i)) (enumerate 0 ds))"

section \<open>One opening of the endpoint\<close>

text \<open>The calls in the order they are made; all but the choice of the device only fail or not.\<close>

record endpoint_calls =
  ec_collection :: "rstring + unit"
  ec_at_index :: "rstring + unit"
  ec_default :: "rstring + unit"
  ec_client :: "rstring + unit"
  ec_period :: "rstring + unit"
  ec_initialize :: "rstring + unit"
  ec_event :: "rstring + unit"
  ec_capture :: "rstring + unit"
  ec_start :: "rstring + unit"
  ec_id :: "rstring + rstring"

fun first_failure :: "(rstring + unit) list \<Rightarrow> rstring option" where
  "first_failure [] = None"
| "first_failure (Inl e # cs) = Some e"
| "first_failure (Inr _ # cs) = first_failure cs"

definition open_endpoint :: "nat option \<Rightarrow> endpoint_calls \<Rightarrow> rstring + rstring" where
  "open_endpoint device_index ec =
     (case (case device_index of
              Some i \<Rightarrow>
                (case ec_collection ec of
                   Inl e \<Rightarrow> Some e
                 | Inr _ \<Rightarrow>
                     (case ec_at_index ec of
                        Inl e \<Rightarrow> Some (ascii ''render device index '' @ digits i @ ascii '': '' @ e)
                      | Inr _ \<Rightarrow> None))
            | None \<Rightarrow> first_failure [ec_default ec]) of
        Some e \<Rightarrow> Inl e
      | None \<Rightarrow>
          (case first_failure [ec_client ec, ec_period ec, ec_initialize ec, ec_event ec, ec_capture ec, ec_start ec] of
             Some e \<Rightarrow> Inl e
           | None \<Rightarrow> ec_id ec))"

fun loop_result :: "loop_end \<Rightarrow> rstring + unit" where
  "loop_result LoopStopped = Inr ()"
| "loop_result (LoopFailed e) = Inl e"
| "loop_result EndpointInactive = Inl (ascii ''render endpoint is no longer active'')"
| "loop_result DefaultChanged = Inl (ascii ''default render endpoint changed; reopening'')"

text \<open>The ring afterwards, and the result, or \<open>None\<close> while the loop is still going round.\<close>

definition run_loopback_once ::
  "nat \<Rightarrow> u32 \<Rightarrow> nat option \<Rightarrow> endpoint_calls \<Rightarrow> loop_round list \<Rightarrow> byte_ring \<Rightarrow> byte_ring \<times> (rstring + unit) option" where
  "run_loopback_once in_channels in_rate device_index ec rounds ring =
     (case open_endpoint device_index ec of
        Inl e \<Rightarrow> (ring, Some (Inl e))
      | Inr endpoint_id \<Rightarrow>
          (case loopback_rounds in_channels in_rate device_index endpoint_id rounds \<lparr>lb_raw = [], lb_ring = ring\<rparr> of
             (lb, r) \<Rightarrow> (lb_ring lb, map_option loop_result r)))"

section \<open>The thread\<close>

text \<open>
  One round of the outer loop: the flag at its head, what the opening meets, and the flag read after
  the half second of sleep that follows a failure.
\<close>

record loop_attempt =
  la_stop :: bool
  la_calls :: endpoint_calls
  la_rounds :: "loop_round list"
  la_stop_after :: bool

record loop_worker =
  lw_ring :: byte_ring
  lw_error :: "rstring option"

text \<open>The worker's shared state after the attempts, and whether the thread has ended.\<close>

fun loop_attempts ::
  "nat \<Rightarrow> u32 \<Rightarrow> nat option \<Rightarrow> loop_attempt list \<Rightarrow> loop_worker \<Rightarrow> loop_worker \<times> bool" where
  "loop_attempts chans rt idx [] w = (w, False)"
| "loop_attempts chans rt idx (a # as) w =
     (if la_stop a then (w, True)
      else case run_loopback_once chans rt idx (la_calls a) (la_rounds a) (lw_ring w) of
             (ring, None) \<Rightarrow> (w\<lparr>lw_ring := ring\<rparr>, False)
           | (ring, Some (Inr _)) \<Rightarrow> (w\<lparr>lw_ring := ring\<rparr>, True)
           | (ring, Some (Inl e)) \<Rightarrow>
               if la_stop_after a then (w\<lparr>lw_ring := ring, lw_error := Some e\<rparr>, True)
               else loop_attempts chans rt idx as (w\<lparr>lw_ring := ring, lw_error := None\<rparr>))"

definition loopback_thread ::
  "audio_format \<Rightarrow> bool \<Rightarrow> nat option \<Rightarrow> loop_attempt list \<Rightarrow> loop_worker \<Rightarrow> loop_worker \<times> bool" where
  "loopback_thread fmt com_ok idx attempts w =
     (if \<not> com_ok then (w\<lparr>lw_error := Some (ascii ''failed to initialize COM (MTA)'')\<rparr>, True)
      else loop_attempts (unat (max (channels fmt) 1)) (max (sample_rate fmt) 8000) idx attempts w)"

section \<open>What the polls put into the ring\<close>

lemma chunks_append: "0 < n \<Longrightarrow> length xs mod n = 0 \<Longrightarrow> chunks n (xs @ ys) = chunks n xs @ chunks n ys"
proof (induction n xs rule: chunks.induct)
  case (1 n xs)
  show ?case
  proof (cases "xs = []")
    case True
    then show ?thesis by simp
  next
    case False
    then have "n \<le> length xs" using 1(2,3) by (metis dvd_imp_le length_greater_0_conv mod_0_imp_dvd)
    moreover from this 1(3) have "length (drop n xs) mod n = 0" by (simp add: le_mod_geq)
    ultimately show ?thesis using 1(1)[OF _ 1(2)] 1(2) False
      by (subst (1 2) chunks.simps) simp
  qed
qed

lemma length_chunks4: "length xs mod 4 = 0 \<Longrightarrow> length (chunks 4 xs) = length xs div 4"
proof (induction "4 :: nat" xs rule: chunks.induct)
  case (1 xs)
  show ?case
  proof (cases "xs = []")
    case True
    then show ?thesis by simp
  next
    case False
    then have "4 \<le> length xs" using 1(2) by (metis dvd_imp_le length_greater_0_conv mod_0_imp_dvd)
    moreover from this 1(2) have "length (drop 4 xs) mod 4 = 0" by (simp add: le_mod_geq)
    ultimately show ?thesis using 1(1) False by (subst chunks.simps) (simp add: le_div_geq)
  qed
qed

lemma heard_pcm_append: "even (length xs) \<Longrightarrow> heard_pcm (xs @ ys) = heard_pcm xs @ heard_pcm ys"
  by (auto simp: heard_pcm_def pcm_bytes_def elim!: evenE)

text \<open>The session PCM of a stream of endpoint bytes: eight bytes to the stereo frame, whole frames only.\<close>

definition whole :: "'a list \<Rightarrow> 'a list" where
  "whole bs = take (8 * (length bs div 8)) bs"

definition stream_pcm :: "byte list \<Rightarrow> byte list" where
  "stream_pcm bs = heard_pcm (map f32_from_le (chunks 4 (whole bs)))"

definition left_over :: "'a list \<Rightarrow> 'a list" where
  "left_over bs = drop (8 * (length bs div 8)) bs"

lemma whole_append: "whole (bs @ cs) = whole bs @ whole (left_over bs @ cs)"
  "left_over (bs @ cs) = left_over (left_over bs @ cs)"
proof -
  let ?k = "length bs div 8"
  have l: "length bs = 8 * ?k + length (left_over bs)" by (simp add: left_over_def)
  have n: "(length bs + length cs) div 8 = ?k + (length (left_over bs) + length cs) div 8"
    using div_mult_self1[of 8 "length (left_over bs) + length cs" ?k] l by (simp add: ac_simps)
  have bs: "bs = whole bs @ left_over bs" "length (whole bs) = 8 * ?k"
    using l by (simp_all add: whole_def left_over_def)
  have eq: "bs @ cs = whole bs @ (left_over bs @ cs)" using bs by simp
  have len: "8 * (length (bs @ cs) div 8) = length (whole bs) + 8 * (length (left_over bs @ cs) div 8)"
    using n bs(2) by simp
  show "whole (bs @ cs) = whole bs @ whole (left_over bs @ cs)"
    unfolding whole_def[of "bs @ cs"] len unfolding eq by (simp add: whole_def[of "left_over bs @ cs"])
  show "left_over (bs @ cs) = left_over (left_over bs @ cs)"
    unfolding left_over_def[of "bs @ cs"] len unfolding eq by (simp add: left_over_def[of "left_over bs @ cs"])
qed

lemma stream_pcm_append: "stream_pcm (bs @ cs) = stream_pcm bs @ stream_pcm (left_over bs @ cs)"
proof -
  have w: "length (whole bs) = 8 * (length bs div 8)" by (simp add: whole_def)
  then have "chunks 4 (whole (bs @ cs)) = chunks 4 (whole bs) @ chunks 4 (whole (left_over bs @ cs))"
    unfolding whole_append(1)[of bs cs] by (intro chunks_append) presburger+
  moreover have "even (length (chunks 4 (whole bs)))" using length_chunks4[of "whole bs"] w by simp
  ultimately show ?thesis by (simp add: stream_pcm_def heard_pcm_append)
qed

lemma poll_ring:
  assumes "ring_ok (lb_ring lb)"
  shows "lb_raw (loopback_poll 2 TARGET_RATE busy got lb) = left_over (lb_raw lb @ got)"
    and "br_deque (lb_ring (loopback_poll 2 TARGET_RATE busy got lb))
      = newest (ring_bound (lb_ring lb)) (br_deque (lb_ring lb) @ (if busy then [] else stream_pcm (lb_raw lb @ got)))"
    and "ring_bound (lb_ring (loopback_poll 2 TARGET_RATE busy got lb)) = ring_bound (lb_ring lb)"
    and "ring_ok (lb_ring (loopback_poll 2 TARGET_RATE busy got lb))"
proof -
  let ?r = "lb_raw lb @ got"
  have poll: "loopback_poll 2 TARGET_RATE busy got lb
    = (if length ?r div 8 = 0 then lb\<lparr>lb_raw := ?r\<rparr>
       else if busy then lb\<lparr>lb_raw := left_over ?r\<rparr>
       else lb\<lparr>lb_raw := left_over ?r, lb_ring := ring_push (lb_ring lb) (stream_pcm ?r)\<rparr>)"
    by (simp add: loopback_poll_def Let_def heard_chunk stream_pcm_def whole_def left_over_def mult.commute)
  have z: "length ?r div 8 = 0 \<Longrightarrow> left_over ?r = ?r \<and> stream_pcm ?r = []"
    by (simp add: left_over_def stream_pcm_def whole_def heard_pcm_def pcm_bytes_def)
  have nn: "newest (ring_bound (lb_ring lb)) (br_deque (lb_ring lb)) = br_deque (lb_ring lb)"
    using assms by (simp add: ring_ok_def)
  note p = ring_push_spec[OF assms, of "stream_pcm ?r"]
  show "lb_raw (loopback_poll 2 TARGET_RATE busy got lb) = left_over ?r" using z by (simp add: poll)
  show "br_deque (lb_ring (loopback_poll 2 TARGET_RATE busy got lb))
      = newest (ring_bound (lb_ring lb)) (br_deque (lb_ring lb) @ (if busy then [] else stream_pcm ?r))"
    using p nn z by (auto simp: poll)
  show "ring_bound (lb_ring (loopback_poll 2 TARGET_RATE busy got lb)) = ring_bound (lb_ring lb)"
    using p by (simp add: poll ring_bound_def)
  show "ring_ok (lb_ring (loopback_poll 2 TARGET_RATE busy got lb))"
    using p assms by (simp add: poll)
qed

text \<open>A round that reads, with the flag down and the endpoint in order.\<close>

definition quiet :: "nat option \<Rightarrow> rstring \<Rightarrow> loop_round \<Rightarrow> bool" where
  "quiet idx endpoint_id e \<longleftrightarrow> \<not> lr_stop e \<and> endpoint_check idx endpoint_id e = None
     \<and> (case lr_read e of Inl _ \<Rightarrow> False | Inr _ \<Rightarrow> True)"

definition bytes_read :: "loop_round list \<Rightarrow> byte list" where
  "bytes_read es = concat (map (\<lambda>e. case lr_read e of Inl _ \<Rightarrow> [] | Inr got \<Rightarrow> got) es)"

text \<open>
  The session PCM that round \<open>k\<close> completes: what the bytes read up to it give beyond those read
  before. The rounds that find the ring's lock taken drop theirs.
\<close>

definition round_pcm :: "loop_round list \<Rightarrow> nat \<Rightarrow> byte list" where
  "round_pcm es k =
     drop (length (stream_pcm (bytes_read (take k es)))) (stream_pcm (bytes_read (take (Suc k) es)))"

definition kept_pcm :: "loop_round list \<Rightarrow> byte list" where
  "kept_pcm es = concat (map (\<lambda>k. if lr_busy (es ! k) then [] else round_pcm es k) [0..<length es])"

lemma short_stream [simp]: "length bs < 8 \<Longrightarrow> stream_pcm bs = []"
  by (simp add: stream_pcm_def whole_def heard_pcm_def pcm_bytes_def)

lemma bytes_read_snoc: "lr_read e = Inr got \<Longrightarrow> bytes_read (es @ [e]) = bytes_read es @ got"
  by (simp add: bytes_read_def)

lemma round_pcm_last:
  "lr_read e = Inr got \<Longrightarrow> round_pcm (es @ [e]) (length es) = stream_pcm (left_over (bytes_read es) @ got)"
  using stream_pcm_append[of "bytes_read es" got] by (simp add: round_pcm_def bytes_read_snoc)

lemma kept_pcm_snoc:
  assumes "lr_read e = Inr got"
  shows "kept_pcm (es @ [e]) = kept_pcm es @ (if lr_busy e then [] else stream_pcm (left_over (bytes_read es) @ got))"
proof -
  have "map (\<lambda>k. if lr_busy ((es @ [e]) ! k) then [] else round_pcm (es @ [e]) k) [0..<length es]
      = map (\<lambda>k. if lr_busy (es ! k) then [] else round_pcm es k) [0..<length es]"
    by (rule map_cong) (simp_all add: nth_append round_pcm_def)
  then show ?thesis
    unfolding kept_pcm_def length_append_singleton upt_Suc_append[OF le0] map_append concat_append
    using round_pcm_last[OF assms, of es] by (simp only: list.map nth_append_length concat.simps append_Nil2)
qed

text \<open>Without a taken lock nothing is dropped; in any case the order is kept.\<close>

lemma kept_pcm_all:
  "list_all (\<lambda>e. \<exists>got. lr_read e = Inr got) es \<Longrightarrow> list_all (\<lambda>e. \<not> lr_busy e) es \<Longrightarrow> kept_pcm es = stream_pcm (bytes_read es)"
proof (induction es rule: rev_induct)
  case Nil
  show ?case by (simp add: kept_pcm_def bytes_read_def stream_pcm_def whole_def heard_pcm_def pcm_bytes_def)
next
  case (snoc e es)
  then obtain got where "lr_read e = Inr got" by auto
  with snoc show ?case
    using stream_pcm_append[of "bytes_read es" got] by (simp add: kept_pcm_snoc bytes_read_snoc)
qed

lemma kept_pcm_subseq:
  "list_all (\<lambda>e. \<exists>got. lr_read e = Inr got) es \<Longrightarrow> subseq (kept_pcm es) (stream_pcm (bytes_read es))"
proof (induction es rule: rev_induct)
  case Nil
  show ?case by (simp add: kept_pcm_def)
next
  case (snoc e es)
  then obtain got where got: "lr_read e = Inr got" by auto
  have "subseq (kept_pcm es) (stream_pcm (bytes_read es))" using snoc by simp
  then show ?case
    unfolding kept_pcm_snoc[OF got] bytes_read_snoc[OF got] stream_pcm_append[of "bytes_read es" got]
    by (intro list_emb_append_mono) simp_all
qed

lemma quiet_rounds:
  assumes "list_all (quiet idx endpoint_id) es" "ring_ok ring"
  shows "\<exists>lb'. (\<forall>rest. loopback_rounds 2 TARGET_RATE idx endpoint_id (es @ rest) \<lparr>lb_raw = [], lb_ring = ring\<rparr>
        = loopback_rounds 2 TARGET_RATE idx endpoint_id rest lb')
      \<and> lb_raw lb' = left_over (bytes_read es) \<and> ring_ok (lb_ring lb') \<and> ring_bound (lb_ring lb') = ring_bound ring
      \<and> br_deque (lb_ring lb') = newest (ring_bound ring) (br_deque ring @ kept_pcm es)"
  using assms(1)
proof (induction es rule: rev_induct)
  case Nil
  then show ?case using assms(2)
    by (intro exI[of _ "\<lparr>lb_raw = [], lb_ring = ring\<rparr>"]) (simp add: bytes_read_def kept_pcm_def left_over_def ring_ok_def)
next
  case (snoc e es)
  obtain got where e: "quiet idx endpoint_id e" "lr_read e = Inr got"
    using snoc.prems by (auto simp: quiet_def split: sum.splits)
  obtain lb where lb: "\<forall>rest. loopback_rounds 2 TARGET_RATE idx endpoint_id (es @ rest) \<lparr>lb_raw = [], lb_ring = ring\<rparr>
      = loopback_rounds 2 TARGET_RATE idx endpoint_id rest lb"
    "lb_raw lb = left_over (bytes_read es)" "ring_ok (lb_ring lb)" "ring_bound (lb_ring lb) = ring_bound ring"
    "br_deque (lb_ring lb) = newest (ring_bound ring) (br_deque ring @ kept_pcm es)"
    using snoc by auto
  let ?lb = "loopback_poll 2 TARGET_RATE (lr_busy e) got lb"
  note p = poll_ring[OF lb(3), of "lr_busy e" got]
  have "loopback_rounds 2 TARGET_RATE idx endpoint_id (e # rest) lb = loopback_rounds 2 TARGET_RATE idx endpoint_id rest ?lb" for rest
    using e by (simp add: quiet_def Let_def)
  moreover have "br_deque (lb_ring ?lb) = newest (ring_bound ring) (br_deque ring @ kept_pcm (es @ [e]))"
    unfolding p(2) lb(2,4,5) newest_append kept_pcm_snoc[OF e(2)] append_assoc by (rule refl)
  moreover have "lb_raw ?lb = left_over (bytes_read (es @ [e]))"
    unfolding p(1) lb(2) bytes_read_snoc[OF e(2)] whole_append(2)[symmetric] by (rule refl)
  ultimately show ?case using lb(1,4) p(3,4) by (intro exI[of _ ?lb]) simp
qed

section \<open>The thread goes on\<close>

lemma rounds_stopped:
  "loopback_rounds chans rt idx endpoint_id es lb = (lb', Some LoopStopped) \<Longrightarrow> list_ex lr_stop es"
  by (induction es arbitrary: lb)
    (auto simp: Let_def endpoint_check_def split: if_splits sum.splits option.splits)

lemma ends_when_told:
  "loop_attempts chans rt idx as w = (w', ended) \<Longrightarrow>
    (ended \<longrightarrow> list_ex (\<lambda>a. la_stop a \<or> la_stop_after a \<or> list_ex lr_stop (la_rounds a)) as)
    \<and> (\<not> ended \<longrightarrow> lw_error w = None \<longrightarrow> lw_error w' = None)"
proof (induction as arbitrary: w)
  case Nil
  then show ?case by simp
next
  case (Cons a as)
  obtain ring r where r: "run_loopback_once chans rt idx (la_calls a) (la_rounds a) (lw_ring w) = (ring, r)"
    by (cases "run_loopback_once chans rt idx (la_calls a) (la_rounds a) (lw_ring w)")
  have told: "r = Some (Inr u) \<Longrightarrow> list_ex lr_stop (la_rounds a)" for u
    using r rounds_stopped by (auto simp: run_loopback_once_def split: sum.splits prod.splits elim!: loop_result.elims)
  show ?case
  proof (cases "la_stop a \<or> la_stop_after a \<or> list_ex lr_stop (la_rounds a)")
    case True
    then show ?thesis using Cons.prems Cons.IH[of "w\<lparr>lw_ring := ring, lw_error := None\<rparr>"] r told
      by (auto split: if_splits option.splits sum.splits)
  next
    case False
    then show ?thesis using Cons.prems Cons.IH[of "w\<lparr>lw_ring := ring, lw_error := None\<rparr>"] r told
      by (auto split: option.splits sum.splits)
  qed
qed

text \<open>
  C31. Loopback capture outlives the endpoint. When COM can be initialised, then however often the
  endpoint cannot be opened, as soon as it can, what it plays is in the ring, in order and
  converted, the oldest first to go when the ring is full; only what a poll completes that finds
  the ring's lock taken by the reader is dropped, so without such a poll nothing is. No error is left
  to keep the reader from it. The thread ends only after the stop flag has been read; when COM cannot
  be initialised it ends at once, with an error for the reader and the ring as it was.
\<close>

theorem loopback_recovers:
  assumes "list_all (\<lambda>a. \<not> la_stop a \<and> \<not> la_stop_after a \<and> (\<exists>e. open_endpoint idx (la_calls a) = Inl e)) as"
    and "\<not> la_stop a" and "open_endpoint idx (la_calls a) = Inr endpoint_id"
    and "list_all (quiet idx endpoint_id) (la_rounds a)" and "ring_ok (lw_ring w)" and "lw_error w = None"
  shows "(\<exists>ring. loopback_thread canonical True idx (as @ [a]) w = (\<lparr>lw_ring = ring, lw_error = None\<rparr>, False)
      \<and> br_deque ring = newest (ring_bound (lw_ring w)) (br_deque (lw_ring w) @ kept_pcm (la_rounds a)))
    \<and> subseq (kept_pcm (la_rounds a)) (stream_pcm (bytes_read (la_rounds a)))
    \<and> (list_all (\<lambda>e. \<not> lr_busy e) (la_rounds a) \<longrightarrow> kept_pcm (la_rounds a) = stream_pcm (bytes_read (la_rounds a)))
    \<and> (if com_ok
       then snd (loopback_thread fmt com_ok idx' as' w') \<longrightarrow>
         list_ex (\<lambda>a. la_stop a \<or> la_stop_after a \<or> list_ex lr_stop (la_rounds a)) as'
       else \<exists>e. loopback_thread fmt com_ok idx' as' w' = (w'\<lparr>lw_error := Some e\<rparr>, True))"
proof (intro conjI)
  let ?att = "loop_attempts 2 TARGET_RATE idx"
  have c: "unat (max (channels canonical) 1) = 2" "max (sample_rate canonical) 8000 = TARGET_RATE"
    by (simp_all add: canonical_def TARGET_RATE_def WIRE_CHANNELS_def WIRE_RATE_def)
  obtain lb' where lb: "\<forall>rest. loopback_rounds 2 TARGET_RATE idx endpoint_id (la_rounds a @ rest) \<lparr>lb_raw = [], lb_ring = lw_ring w\<rparr>
      = loopback_rounds 2 TARGET_RATE idx endpoint_id rest lb'"
    "br_deque (lb_ring lb') = newest (ring_bound (lw_ring w)) (br_deque (lw_ring w) @ kept_pcm (la_rounds a))"
    using quiet_rounds[OF assms(4,5)] by blast
  have "run_loopback_once 2 TARGET_RATE idx (la_calls a) (la_rounds a) (lw_ring w) = (lb_ring lb', None)"
    using lb(1)[rule_format, of "[]"] assms(3) by (simp add: run_loopback_once_def)
  with assms(2,6) have "?att [a] w = (\<lparr>lw_ring = lb_ring lb', lw_error = None\<rparr>, False)" by (cases w) simp
  moreover have "?att (as @ [a]) w = ?att [a] w" using assms(1)
  proof (induction as)
    case (Cons b bs)
    then have "run_loopback_once 2 TARGET_RATE idx (la_calls b) (la_rounds b) (lw_ring w) = (lw_ring w, Some (Inl e))"
      if "open_endpoint idx (la_calls b) = Inl e" for e using that by (simp add: run_loopback_once_def)
    moreover have "w\<lparr>lw_ring := lw_ring w, lw_error := None\<rparr> = w" using assms(6) by (cases w) simp
    ultimately show ?case using Cons by auto
  qed simp
  ultimately show "\<exists>ring. loopback_thread canonical True idx (as @ [a]) w = (\<lparr>lw_ring = ring, lw_error = None\<rparr>, False)
    \<and> br_deque ring = newest (ring_bound (lw_ring w)) (br_deque (lw_ring w) @ kept_pcm (la_rounds a))"
    using lb(2) c by (simp add: loopback_thread_def del: loop_attempts.simps)
next
  have reads: "list_all (\<lambda>e. \<exists>got. lr_read e = Inr got) (la_rounds a)"
    using assms(4) unfolding list_all_iff quiet_def by (metis (no_types, lifting) sum.exhaust sum.case(1))
  show "subseq (kept_pcm (la_rounds a)) (stream_pcm (bytes_read (la_rounds a)))" by (rule kept_pcm_subseq[OF reads])
  show "list_all (\<lambda>e. \<not> lr_busy e) (la_rounds a) \<longrightarrow> kept_pcm (la_rounds a) = stream_pcm (bytes_read (la_rounds a))"
    using kept_pcm_all[OF reads] by blast
next
  show "if com_ok
       then snd (loopback_thread fmt com_ok idx' as' w') \<longrightarrow>
         list_ex (\<lambda>a. la_stop a \<or> la_stop_after a \<or> list_ex lr_stop (la_rounds a)) as'
       else \<exists>e. loopback_thread fmt com_ok idx' as' w' = (w'\<lparr>lw_error := Some e\<rparr>, True)"
    using ends_when_told[of "unat (max (channels fmt) 1)" "max (sample_rate fmt) 8000" idx' as' w']
    by (cases "loop_attempts (unat (max (channels fmt) 1)) (max (sample_rate fmt) 8000) idx' as' w'")
      (auto simp: loopback_thread_def)
qed

section \<open>An endpoint that appears\<close>

definition demo_calls :: "(rstring + unit) \<Rightarrow> endpoint_calls" where
  "demo_calls d = \<lparr>ec_collection = Inr (), ec_at_index = Inr (), ec_default = d, ec_client = Inr (), ec_period = Inr (),
     ec_initialize = Inr (), ec_event = Inr (), ec_capture = Inr (), ec_start = Inr (), ec_id = Inr [115]\<rparr>"

definition demo_round :: "bool \<Rightarrow> byte list \<Rightarrow> loop_round" where
  "demo_round busy got = \<lparr>lr_stop = False, lr_read = Inr got, lr_busy = busy, lr_check_due = True, lr_active = Inr True,
     lr_default = Inr [115]\<rparr>"

text \<open>\<open>0.0\<close> and \<open>1.0\<close> as \<open>f32\<close>, delivered in two pieces after a failed opening.\<close>

theorem loopback_recovers_witness:
  "\<exists>ring. loopback_thread canonical True None
      ([\<lparr>la_stop = False, la_calls = demo_calls (Inl [120]), la_rounds = [], la_stop_after = False\<rparr>]
        @ [\<lparr>la_stop = False, la_calls = demo_calls (Inr ()), la_rounds = [demo_round True [0, 0, 0], demo_round False [0, 0, 0, 128, 63]],
            la_stop_after = False\<rparr>]) \<lparr>lw_ring = ring_with_capacity 19200, lw_error = None\<rparr>
      = (\<lparr>lw_ring = ring, lw_error = None\<rparr>, False)
    \<and> br_deque ring = [0, 0, 255, 127]"
proof -
  let ?bad = "\<lparr>la_stop = False, la_calls = demo_calls (Inl [120]), la_rounds = [], la_stop_after = False\<rparr>"
  let ?good = "\<lparr>la_stop = False, la_calls = demo_calls (Inr ()),
    la_rounds = [demo_round True [0, 0, 0], demo_round False [0, 0, 0, 128, 63]], la_stop_after = False\<rparr>"
  let ?w = "\<lparr>lw_ring = ring_with_capacity 19200, lw_error = None\<rparr>"
  have a: "list_all (\<lambda>a. \<not> la_stop a \<and> \<not> la_stop_after a \<and> (\<exists>e. open_endpoint None (la_calls a) = Inl e)) [?bad]"
    "open_endpoint None (la_calls ?good) = Inr [115]"
    by (simp_all add: open_endpoint_def demo_calls_def)
  have b: "list_all (quiet None [115]) (la_rounds ?good)" by (simp add: quiet_def demo_round_def endpoint_check_def)
  have c: "ring_ok (lw_ring ?w)" by (simp add: ring_ok_def ring_with_capacity_def)
  have p: "pow2 (- 23) * 8388608 = 1" by (simp add: pow2_numeral pow2_def)
  have z: "f32_from_le [0, 0, 0, 0] = Fin 0" by (simp add: f32_from_le_def f32_from_bits_def from_be_def)
  have o: "f32_from_le [0, 0, 128, 63] = Fin 1" using p by (simp add: f32_from_le_def f32_from_bits_def from_be_def mult.commute)
  have "sint (float_to_i16 (Fin 0)) = 0"
    using scaled_between[of 0 0 0] by (simp only: sint_float_to_i16) (simp add: flt_clamp_def)
  moreover have "sint (float_to_i16 (Fin 1)) = 32767" by (rule float_to_i16_ends(2)) simp
  ultimately have f: "float_to_i16 (Fin 0) = 0" "float_to_i16 (Fin 1) = 32767" by (simp_all add: signed_word_eqI)
  have "stream_pcm (bytes_read (la_rounds ?good)) = heard_pcm [Fin 0, Fin 1]"
    using z o by (simp add: stream_pcm_def whole_def bytes_read_def demo_round_def chunks.simps)
  then have s: "stream_pcm (bytes_read (la_rounds ?good)) = [0, 0, 255, 127]"
    using f by (simp add: heard_pcm_def pcm_bytes_def i16_le_def)
  have "bytes_read (take (Suc 0) (la_rounds ?good)) = [0, 0, 0]" by (simp add: bytes_read_def demo_round_def)
  then have "round_pcm (la_rounds ?good) 1 = stream_pcm (bytes_read (la_rounds ?good))" by (simp add: round_pcm_def)
  moreover have "[0..<length (la_rounds ?good)] = [0, 1]" by simp
  ultimately have k: "kept_pcm (la_rounds ?good) = [0, 0, 255, 127]"
    unfolding kept_pcm_def s by (simp add: demo_round_def)
  have st: "\<not> la_stop ?good" "lw_error ?w = None" by simp_all
  from conjunct1[OF loopback_recovers[OF a(1) st(1) a(2) b c st(2)]] obtain ring where
    "loopback_thread canonical True None ([?bad] @ [?good]) ?w = (\<lparr>lw_ring = ring, lw_error = None\<rparr>, False)"
    "br_deque ring = newest (ring_bound (lw_ring ?w)) (br_deque (lw_ring ?w) @ kept_pcm (la_rounds ?good))" by blast
  then show ?thesis unfolding k by (intro exI[of _ ring]) (simp add: ring_with_capacity_def ring_bound_def newest_def)
qed

end
