(* ===== verification/Host.thy ===== *)
theory Host
  imports Store Net_Addr
begin

text \<open>
  What the program finds out about its machine: the configuration directory
  (\<open>src/src/config/mod.rs\<close>) and the address of the route to the local network
  (\<open>src/src/discovery/mod.rs\<close>). The environment variables and the outcome of every system call are
  arguments. A path that the code joins is its first part and the names joined to it.
\<close>

section \<open>The configuration directory\<close>

datatype platform = Windows | MacOs | OtherOs

type_synonym joined_path = "rstring \<times> rstring list"

text \<open>\<open>local_app_data\<close> and \<open>home\<close>: the two environment variables.\<close>

definition default_config_dir :: "platform \<Rightarrow> rstring option \<Rightarrow> rstring option \<Rightarrow> joined_path" where
  "default_config_dir pl local_app_data home =
     (let or_here = (\<lambda>v. case v of Some p \<Rightarrow> p | None \<Rightarrow> ascii ''.'')
      in case pl of
           Windows \<Rightarrow> (or_here local_app_data, [ascii ''remote-au'', ascii ''config''])
         | MacOs \<Rightarrow> (or_here home, [ascii ''Library/Application Support/remote-au/config''])
         | OtherOs \<Rightarrow> (or_here home, [ascii ''.config/remote-au'']))"

text \<open>
  \<open>env\<close> is \<open>REMOTE_AU_CONFIG_DIR\<close>; \<open>mkdir\<close> and \<open>chmod\<close> are the outcomes of creating the directory and
  of restricting it to its owner, which is done on Unix. The result has the permission bits that were
  set.
\<close>

definition resolve ::
  "platform \<Rightarrow> rstring option \<Rightarrow> rstring option \<Rightarrow> rstring option \<Rightarrow> rstring option \<Rightarrow> bool \<Rightarrow> bool
    \<Rightarrow> store_error + joined_path \<times> nat option" where
  "resolve pl explicit env local_app_data home mkdir chmod =
     (let root = (case explicit of
                    Some p \<Rightarrow> (p, [])
                  | None \<Rightarrow> (case env of Some p \<Rightarrow> (p, []) | None \<Rightarrow> default_config_dir pl local_app_data home))
      in if \<not> mkdir then Inl StoreIo
         else if pl \<noteq> Windows then (if chmod then Inr (root, Some 448) else Inl StoreIo)
         else Inr (root, None))"

section \<open>The advertised address\<close>

text \<open>
  The probes in their order, each the outcome of \<open>connect\<close> and of \<open>local_addr\<close>; the first address
  that is no loopback and not unspecified is taken.
\<close>

definition route_probes :: "rstring list" where
  "route_probes = [ascii ''192.168.2.255:9'', ascii ''192.168.1.1:9'', ascii ''8.8.8.8:9'']"

fun probe_routes :: "(rstring \<Rightarrow> bool) \<Rightarrow> (rstring \<Rightarrow> socket_addr option) \<Rightarrow> rstring list \<Rightarrow> ipv4" where
  "probe_routes connects local_addr [] = v4_unspecified"
| "probe_routes connects local_addr (p # ps) =
     (if connects p then
        (case local_addr p of
           None \<Rightarrow> probe_routes connects local_addr ps
         | Some a \<Rightarrow>
             (case sock_ip a of
                V6 _ \<Rightarrow> probe_routes connects local_addr ps
              | V4 v4 \<Rightarrow>
                  if \<not> v4_is_loopback v4 \<and> \<not> v4_is_unspecified v4 then v4
                  else probe_routes connects local_addr ps))
      else probe_routes connects local_addr ps)"

definition local_lan_v4 :: "bool \<Rightarrow> (rstring \<Rightarrow> bool) \<Rightarrow> (rstring \<Rightarrow> socket_addr option) \<Rightarrow> ipv4" where
  "local_lan_v4 binds connects local_addr =
     (if \<not> binds then v4_unspecified else probe_routes connects local_addr route_probes)"

lemma probe_routes_result:
  "probe_routes connects local_addr ps = v4 \<Longrightarrow> v4 \<noteq> v4_unspecified \<Longrightarrow>
    \<not> v4_is_loopback v4 \<and> (\<exists>p \<in> set ps. connects p \<and> map_option sock_ip (local_addr p) = Some (V4 v4))"
proof (induction ps)
  case (Cons p ps)
  then show ?case by (cases "local_addr p") (auto split: if_splits ip_addr.splits)
qed simp

text \<open>
  The address a receiver puts into its announcements is either unspecified, which says nothing, or
  the one a route of this machine uses; it is never a loopback address.
\<close>

theorem advertised_address:
  "local_lan_v4 binds connects local_addr = v4_unspecified
    \<or> \<not> v4_is_loopback (local_lan_v4 binds connects local_addr)
      \<and> (\<exists>p \<in> set route_probes. connects p
          \<and> map_option sock_ip (local_addr p) = Some (V4 (local_lan_v4 binds connects local_addr)))"
  using probe_routes_result[of connects local_addr route_probes]
  by (auto simp: local_lan_v4_def)

end
