(* ===== verification/Spec2Isabelle.thy ===== *)
theory Spec2Isabelle
  imports Codec System Discovery Capture Playback Control Cli Loopback_Worker Host
begin

text \<open>
  A verification library for \<open>remote-au\<close>, a paired audio daemon for the local network. Machines that
  share an invitation token form a group. One of them runs \<open>server\<close>: it receives the audio of up to
  eight senders over UDP, mixes it and plays it. The others run \<open>send\<close>: they discover a receiver,
  probe the link, and stream what they capture. All paths below are relative to \<open>src/src/\<close>.

  \<^bold>\<open>How the parts interact.\<close> A datagram is a 46 byte header and a sealed body (\<open>Wire\<close>,
  \<open>Packet\<close>). Its key comes from the token, the receiver's epoch and the sender's session
  (\<open>Crypto_Session\<close>); its counter is checked against a sliding window (\<open>Replay\<close>). The sender's
  engine (\<open>Sender\<close>) encodes PCM (\<open>Codec\<close>), seals hellos, audio and probes, and applies feedback
  (\<open>Adapt\<close>). The receiver's engine (\<open>Receiver\<close>) opens them, keeps a record per session, accounts for
  losses and pushes decoded audio into the mixer (\<open>Mixer\<close>), which has a jitter buffer per stream
  (\<open>Jitter\<close>). Device callbacks pull from the mixer (\<open>Playback\<close>) and fill a ring that the sender
  reads (\<open>Capture\<close>, \<open>Ring\<close>). Receivers are found by MACed queries (\<open>Discovery\<close>). The two daemons
  (\<open>Daemon_Server\<close>, \<open>Daemon_Match\<close>, \<open>Daemon_Sender\<close>) run these engines in a loop over events, the
  local control connection changes them (\<open>Control\<close>), and the command line (\<open>Cli\<close>) reads and writes
  the files (\<open>Store\<close>) and starts the daemons.

  \<^bold>\<open>Theories and sources.\<close>
  \<^item> \<open>Prelude\<close>: words, saturating arithmetic, byte conversions, list lemmas. \<open>Ordered_Map\<close>: the
    \<open>BTreeMap\<close> of the standard library. \<open>Utf8\<close>: \<open>String\<close> and \<open>from_utf8\<close>. \<open>Net_Addr\<close>, \<open>Addr_Text\<close>:
    addresses and their text. \<open>Ieee_Float\<close>, \<open>Sample_Scale\<close>: \<open>f32\<close> and \<open>f64\<close> as exact rationals with
    rounding, infinities and NaN.
  \<^item> \<open>Audio_Format\<close> (\<open>protocol/format.rs\<close>), \<open>Codec\<close> (\<open>protocol/codec.rs\<close>), \<open>Wire\<close>
    (\<open>protocol/wire.rs\<close>), \<open>Packet\<close> (\<open>transport/packet.rs\<close>), \<open>Replay\<close> (\<open>crypto/replay.rs\<close>),
    \<open>Crypto_Session\<close> (\<open>crypto/session.rs\<close>, keys), \<open>Jitter\<close> (\<open>mixer/jitter.rs\<close>), \<open>Mixer\<close>
    (\<open>mixer/mod.rs\<close>), \<open>Adapt\<close> (\<open>transport/adapt.rs\<close>), \<open>Sender\<close> (\<open>transport/sender.rs\<close>).
  \<^item> \<open>Receiver\<close> (\<open>transport/receiver.rs\<close>), with its invariant in \<open>Receiver_Ok\<close> and authenticity and
    freshness in \<open>Receiver_Auth\<close>; \<open>Link\<close>: the two engines joined; \<open>System\<close>: a group on a hostile
    network, as a step relation.
  \<^item> \<open>Discovery\<close> (\<open>discovery/mod.rs\<close>), \<open>Ring\<close>, \<open>Pcm\<close>, \<open>Capture\<close>, \<open>Loopback_Worker\<close>, \<open>Playback\<close>
    (\<open>audio/\<close>), \<open>Store\<close> and \<open>Host\<close> (\<open>config/mod.rs\<close>, the pairing store of \<open>crypto/session.rs\<close> and the
    route probe of \<open>discovery/mod.rs\<close>), \<open>Control\<close> (\<open>control/mod.rs\<close>), \<open>Daemon_Server\<close>,
    \<open>Daemon_Match\<close>, \<open>Daemon_Sender\<close> (\<open>daemon/mod.rs\<close>), \<open>Cli\<close> (\<open>cli/mod.rs\<close>).
\<close>

text \<open>
  \<^bold>\<open>State and operations.\<close> A struct is a record with its fields under a short prefix (\<open>jb_\<close> for
  \<open>JitterBuffer\<close>, \<open>rc_\<close> for \<open>ReceiverEngine\<close>, \<open>se_\<close> for \<open>SenderEngine\<close>, \<open>mx_\<close> for the mixer, \<open>sx_\<close>
  for the local variables of the sender's loop); a method takes the state and returns it with its
  result. Integers on the wire are words; counters that the code saturates are naturals with the
  saturation written out, and where the code wraps or could wrap there is a \<open>mod\<close>. Errors are sums or
  options, one constructor for each message the code distinguishes. Clock readings, random bytes and
  the outcome of each system call are arguments: \<open>clk i\<close> is the i-th reading of the clock in a step.
  The crates are the record \<open>crates\<close> (hash, AEAD, hex, constant-time comparison) with the documented
  laws \<open>hash_ok\<close>, \<open>aead_ok\<close>, \<open>hex_ok\<close> and \<open>ct_ok\<close>; JSON readers and writers are arguments, with what
  \<open>serde_json\<close> documents as a hypothesis (\<open>prefs_json\<close>: strings and integers are read back, a gain that
  is not finite becomes \<open>null\<close>; \<open>pairing_json\<close>). \<open>demo_crates\<close> satisfies these laws and serves the witnesses. A
  \<open>tokio::select!\<close> loop is a function of the list of branches taken, each with what it received, so a
  statement over all lists covers every interleaving.

  \<^bold>\<open>Interfaces.\<close> \<open>ordered_map\<close> (what the jitter buffer and the loss accounting need of a map),
  \<open>replay_guard\<close> (what the engines need of a window: accepted once, refused for ever),
  \<open>forgetful_stream\<close> (a bounded queue that drops its oldest), \<open>lockstep_codec\<close> (encoder and decoder
  that track the same state) and \<open>control_handler\<close> (a handler that keeps an invariant is safe behind a
  control connection) are locales; each is interpreted by the theory whose definitions provide it.

  \<^bold>\<open>What the lemmas show.\<close> Round trips and exactness of every encoding (\<open>Wire\<close>, \<open>Packet\<close>, \<open>Codec\<close>,
  \<open>Discovery\<close>, \<open>Addr_Text\<close>); the window against the set of all accepted numbers (\<open>Replay\<close>); the jitter
  buffer as the stream of its packets with silence for the missing ones, and its latency bound
  (\<open>Jitter\<close>); the mix as the clamped, truncated sum, less than two units from exact arithmetic
  (\<open>Mixer\<close>), through all chunks of the device's buffer (\<open>Playback\<close>); captured samples of any channel
  count and rate against their level and against linear interpolation (\<open>Pcm\<close>);
  loss statistics as a count over the history (\<open>Receiver\<close>); that only datagrams sealed for the session
  have an effect, and each at most one, whatever happens in between (\<open>Receiver_Auth\<close>), and what follows
  for a group on a hostile network (\<open>System\<close>); that a session never repeats a nonce and that
  everything sent is sealed for a receiver that proved to hold the token (\<open>Daemon_Sender\<close>); that the
  receiving daemon keeps its invariant under any sequence of datagrams, commands, ticks and audio
  callbacks (\<open>Daemon_Server\<close>); that files survive crashes, or on Windows how they do not (\<open>Store\<close>); that
  only the holder of the invitation commands the daemon, and that request and answer go through both
  lines of the control connection unchanged (\<open>Control\<close>); and what the commands leave behind (\<open>Cli\<close>).

  \<^bold>\<open>Loops.\<close> Loops over data are structural or have a measure. The jitter buffer's \<open>pull\<close> is a
  \<open>partial_function\<close>, proved to return for every buffer that can be reached. Loops that run until told
  (the workers, the two daemons, discovery rounds, retries) take the list of their rounds; where they
  must end, that is a theorem (\<open>Capture\<close>, \<open>Playback\<close>, \<open>Loopback_Worker\<close>, the probe train in
  \<open>Daemon_Sender\<close>). No fuel is used.

  \<^bold>\<open>Weaknesses on record.\<close> Some theorems state what a careful reader would not expect:
  \<open>returning_reuses_nonce\<close>, \<open>windows_save_can_lose\<close>, \<open>pairing_save_load\<close>, \<open>long_name_not_found\<close>,
  \<open>refused_volume_changes_master\<close>.

  \<^bold>\<open>Not modelled.\<close> Printed text and logging; the syntax of arguments (\<open>clap\<close>); the JSON text of status
  answers, whose contents are records here; locks and threads, beyond a lock that is busy where the
  code uses \<open>try_lock\<close> (each operation holds its lock throughout, so operations are atomic steps);
  binding, broadcasting and errors of sockets, an error of the receiver's main socket ending the
  daemon; the calls into \<open>cpal\<close> and WASAPI other than by their outcome; \<open>audio/timing.rs\<close>, two calls
  into the Windows timer; \<open>main.rs\<close> and \<open>lib.rs\<close>, which start the runtime. Confidentiality is outside
  the model: the AEAD's law is that opening inverts sealing and accepts nothing else under a key, and in
  \<open>System\<close> that the network cannot make up what a key opens.
\<close>

end
